(* ===== verification/Prelude.thy ===== *)
theory Prelude
  imports Main "HOL-Library.Word"
begin

unbundle bit_operations_syntax

text \<open>
  The vocabulary the whole development shares: the kernel's integer types, its faults, byte
  addressed memory with the loads, stores and \<open>memset\<close> the compiled code performs, and the
  generic lemmas on them.

  Memory is one function from 64 bit addresses to bytes. Every struct field, page table slot and
  task field of the kernel is a load or a store in it, at the offset the System V ABI gives the
  field, so two objects that overlap in the machine overlap in the model. Address ranges are
  written with the wrapping subtraction of the machine: \<open>x\<close> lies in the \<open>n\<close> bytes from \<open>a\<close>
  when \<open>x - a < n\<close>, and two ranges are apart when each starts at least its neighbour's length
  after the other.
\<close>

section \<open>Machine types and faults\<close>

type_synonym u8 = "8 word"
type_synonym u16 = "16 word"
type_synonym u32 = "32 word"
type_synonym u64 = "64 word"
type_synonym memory = "u64 \<Rightarrow> u8"

text \<open>
  What ends an operation without a return value: a load or store through a null pointer, the
  processor halted by the code (\<open>hlt\<close> after a fatal message), a division by zero, an access past
  the end of a fixed size array, a \<open>for (;;)\<close> or \<open>while (1)\<close> the code enters on purpose.
\<close>

datatype fault = NullDeref | Halted | DivideError | OutOfBounds | Spin

text \<open>Lemmas about reads after writes, and the address arithmetic behind them.\<close>

named_theorems mem_simps
named_theorems addr_simps

section \<open>Words\<close>

lemma unat_ucast_u32_u64 [simp]: "unat (ucast (n :: u32) :: u64) = unat n"
proof -
  have "unat n < 2 ^ 64" by (rule less_trans [OF unsigned_less]) simp
  then show ?thesis by (simp add: unsigned_ucast_eq take_bit_nat_eq_self)
qed

lemma ucast_ucast_u32 [simp]: "ucast (ucast (n :: u32) :: u64) = n"
  by (rule bit_word_eqI) (simp add: bit_ucast_iff)

lemma ucast_eq_u64_iff: "ucast (n :: u32) = (c :: u64) \<longleftrightarrow> unat n = unat c"
  by (metis unat_ucast_u32_u64 word_unat_eq_iff)

lemma ucast_less_u64_iff: "ucast (n :: u32) < (c :: u64) \<longleftrightarrow> unat n < unat c"
  by (simp add: word_less_nat_alt)

lemma unat_inc: "(i::'a::len word) < avail \<Longrightarrow> unat (i + 1) = Suc (unat i)"
  by unat_arith

lemma card_word_range: "card {k :: 'a::len word. a \<le> k \<and> k < b} = unat b - unat a"
proof -
  have "unat ` {k :: 'a word. a \<le> k \<and> k < b} = {unat a..<unat b}"
  proof (intro equalityI subsetI)
    fix n assume n: "n \<in> {unat a..<unat b}"
    then have "n < unat b" by simp
    then have "n < 2 ^ LENGTH('a)" using unsigned_less by (rule less_trans)
    then have "unat (word_of_nat n :: 'a word) = n" by (simp add: unsigned_of_nat take_bit_nat_eq_self)
    then show "n \<in> unat ` {k :: 'a word. a \<le> k \<and> k < b}"
      using n by (intro image_eqI [of _ _ "word_of_nat n"]) (simp_all add: word_le_nat_alt word_less_nat_alt)
  qed (auto simp: word_le_nat_alt word_less_nat_alt)
  moreover have "inj_on unat {k :: 'a word. a \<le> k \<and> k < b}" by (rule inj_onI) (simp add: word_unat_eq_iff)
  ultimately show ?thesis by (metis card_atLeastLessThan card_image)
qed

section \<open>Byte addressed memory\<close>

definition load64 :: "memory \<Rightarrow> u64 \<Rightarrow> u64" where
  "load64 m a = word_rcat (rev (map (\<lambda>i. m (a + of_nat i)) [0..<8]))"

definition load32 :: "memory \<Rightarrow> u64 \<Rightarrow> u32" where
  "load32 m a = word_rcat (rev (map (\<lambda>i. m (a + of_nat i)) [0..<4]))"

definition store64 :: "memory \<Rightarrow> u64 \<Rightarrow> u64 \<Rightarrow> memory" where
  "store64 m a v = (\<lambda>x. if x - a < 8 then ucast (drop_bit (8 * unat (x - a)) v) else m x)"

definition store32 :: "memory \<Rightarrow> u64 \<Rightarrow> u32 \<Rightarrow> memory" where
  "store32 m a v = (\<lambda>x. if x - a < 4 then ucast (drop_bit (8 * unat (x - a)) v) else m x)"

definition store8 :: "memory \<Rightarrow> u64 \<Rightarrow> u8 \<Rightarrow> memory" where
  "store8 m a v = m(a := v)"

definition memset :: "memory \<Rightarrow> u64 \<Rightarrow> u8 \<Rightarrow> u64 \<Rightarrow> memory" where
  "memset m a c n = (\<lambda>x. if x - a < n then c else m x)"

text \<open>The \<open>n\<close> bytes at \<open>a\<close> and the \<open>k\<close> bytes at \<open>b\<close> have no byte in common.\<close>

definition apart :: "u64 \<Rightarrow> u64 \<Rightarrow> u64 \<Rightarrow> u64 \<Rightarrow> bool" where
  "apart a n b k \<longleftrightarrow> n \<le> b - a \<and> k \<le> a - b"

text \<open>Two memories agree on the \<open>n\<close> bytes at \<open>a\<close>.\<close>

definition agree :: "memory \<Rightarrow> memory \<Rightarrow> u64 \<Rightarrow> u64 \<Rightarrow> bool" where
  "agree m m' a n \<longleftrightarrow> (\<forall>x. x - a < n \<longrightarrow> m' x = m x)"

subsection \<open>Reads after writes\<close>

lemma apart_sym: "apart a n b k \<longleftrightarrow> apart b k a n"
  by (auto simp: apart_def)

lemma apart_outside:
  assumes "apart a n b k" and "x - b < k" and "0 < n"
  shows "\<not> x - a < n"
  using assms unfolding apart_def by uint_arith

lemma apart_mono: "apart a n b k \<Longrightarrow> n' \<le> n \<Longrightarrow> k' \<le> k \<Longrightarrow> apart a n' b k'"
  by (auto simp: apart_def)

lemma apart_shift_left:
  assumes "apart t n a k" and "x \<le> n" and "c \<le> n - x" and "0 < c"
  shows "apart (t + x) c a k"
proof -
  have n: "unat n \<le> unat (a - t)" and k: "unat k \<le> unat (t - a)" and x: "unat x \<le> unat n"
    using assms(1,2) by (simp_all add: apart_def word_le_nat_alt)
  have c: "unat c \<le> unat n - unat x" "0 < unat c"
    using assms(2-4) by (simp_all add: word_le_nat_alt unat_sub unat_gt_0)
  have nz: "a - t \<noteq> 0" using n x c by auto
  have sum: "unat (t - a) + unat (a - t) = 2 ^ 64"
  proof -
    have "unat (0 - w) = 2 ^ 64 - unat w" if "w \<noteq> 0" for w :: u64
      by (subst unat_sub_if') (use that in \<open>simp add: unat_eq_zero\<close>)
    moreover have "t - a = 0 - (a - t)" by simp
    moreover have "unat (a - t) < 2 ^ 64" using unsigned_less [of "a - t", where 'a = nat] by simp
    ultimately show ?thesis using nz by (metis le_add_diff_inverse2 less_imp_le)
  qed
  have "x \<le> a - t" using n x by (simp add: word_le_nat_alt)
  then have "unat (a - t - x) = unat (a - t) - unat x" by (rule unat_sub)
  then have 1: "c \<le> a - (t + x)" using n c by (simp add: word_le_nat_alt diff_diff_add)
  have "unat ((t - a) + x) = unat (t - a) + unat x"
    using sum n x c by (intro unat_add_lem [THEN iffD1]) simp
  then have 2: "k \<le> (t + x) - a" using k by (simp add: word_le_nat_alt algebra_simps)
  from 1 2 show ?thesis by (simp add: apart_def)
qed

lemma apart_shift:
  assumes "apart t n a k" "x \<le> n" "y \<le> k" "c \<le> n - x" "d \<le> k - y" "0 < c" "0 < d"
  shows "apart (t + x) c (a + y) d"
  using apart_shift_left [of a k "t + x" c y d] apart_shift_left [of t n a k x c] assms
  by (simp add: apart_sym)

lemma bit_load64:
  "bit (load64 m a) n \<longleftrightarrow> n < 64 \<and> bit (m (a + of_nat (n div 8))) (n mod 8)"
proof -
  have "n < 64 \<longleftrightarrow> n div 8 < 8" by auto
  moreover have "bit (horner_sum uint (2 ^ LENGTH(8)) (map (\<lambda>i. m (a + word_of_nat i)) [0..<8])) n
    \<longleftrightarrow> n div 8 < 8 \<and> bit (m (a + of_nat (n div 8))) (n mod 8)"
    by (subst bit_horner_sum_uint_exp_iff) (auto simp: nth_append simp del: upt_rec_numeral)
  ultimately show ?thesis
    by (simp add: load64_def word_rcat_def bit_word_of_int_iff  del: upt_rec_numeral)
qed

lemma bit_load32:
  "bit (load32 m a) n \<longleftrightarrow> n < 32 \<and> bit (m (a + of_nat (n div 8))) (n mod 8)"
proof -
  have "n < 32 \<longleftrightarrow> n div 8 < 4" by auto
  moreover have "bit (horner_sum uint (2 ^ LENGTH(8)) (map (\<lambda>i. m (a + word_of_nat i)) [0..<4])) n
    \<longleftrightarrow> n div 8 < 4 \<and> bit (m (a + of_nat (n div 8))) (n mod 8)"
    by (subst bit_horner_sum_uint_exp_iff) (auto simp: nth_append simp del: upt_rec_numeral)
  ultimately show ?thesis
    by (simp add: load32_def word_rcat_def bit_word_of_int_iff  del: upt_rec_numeral)
qed

lemma of_nat_less_len: "n < 64 \<Longrightarrow> unat (word_of_nat (n div 8) :: u64) = n div 8"
  by (simp add: unsigned_of_nat take_bit_nat_eq_self_iff)

lemma load64_store64_same [simp, mem_simps]: "load64 (store64 m a v) a = v"
proof (rule bit_word_eqI)
  fix n assume "n < LENGTH(64)"
  then have n: "n < 64" and "n div 8 < 8" by auto
  moreover from this have "word_of_nat (n div 8) < (8 :: u64)" by (simp add: word_less_nat_alt of_nat_less_len)
  moreover have "8 * (n div 8) + n mod 8 = n" by simp
  ultimately show "bit (load64 (store64 m a v) a) n = bit v n"
    by (simp add: bit_load64 store64_def bit_ucast_iff bit_drop_bit_eq of_nat_less_len)
qed

lemma load32_store32_same [simp, mem_simps]: "load32 (store32 m a v) a = v"
proof (rule bit_word_eqI)
  fix n assume "n < LENGTH(32)"
  then have n: "n < 32" and "n div 8 < 4" by auto
  moreover from this have "word_of_nat (n div 8) < (4 :: u64)" by (simp add: word_less_nat_alt of_nat_less_len)
  moreover have "8 * (n div 8) + n mod 8 = n" by simp
  ultimately show "bit (load32 (store32 m a v) a) n = bit v n"
    by (simp add: bit_load32 store32_def bit_ucast_iff bit_drop_bit_eq of_nat_less_len)
qed

lemma offset_less:
  assumes "k < n" and "n \<le> 2 ^ 63"
  shows "(a + word_of_nat k :: u64) - a < word_of_nat n"
proof -
  from assms have "k < 2 ^ 64" and "n < 2 ^ 64" by simp_all
  with assms(1) show ?thesis
    by (simp add: word_less_nat_alt unsigned_of_nat take_bit_nat_eq_self)
qed

lemma agree_load64: "agree m m' a 8 \<Longrightarrow> load64 m' a = load64 m a"
  unfolding load64_def agree_def using offset_less [of _ 8 a] by (auto intro!: arg_cong [where f=word_rcat])

lemma agree_load32: "agree m m' a 4 \<Longrightarrow> load32 m' a = load32 m a"
  unfolding load32_def agree_def using offset_less [of _ 4 a] by (auto intro!: arg_cong [where f=word_rcat])

lemma agree_store64 [intro]: "apart b 8 a n \<Longrightarrow> agree m (store64 m b v) a n"
  unfolding agree_def store64_def using apart_outside [of b 8 a n] by auto

lemma agree_store32 [intro]: "apart b 4 a n \<Longrightarrow> agree m (store32 m b v) a n"
  unfolding agree_def store32_def using apart_outside [of b 4 a n] by auto

lemma agree_store8 [intro]: "apart b 1 a n \<Longrightarrow> agree m (store8 m b v) a n"
  unfolding agree_def store8_def using apart_outside [of b 1 a n] by auto

lemma agree_memset [intro]: "apart b k a n \<Longrightarrow> agree m (memset m b c k) a n"
  unfolding agree_def memset_def using apart_outside [of b k a n] by (cases "k = 0") (auto simp: word_gt_0)

lemma agree_refl [simp]: "agree m m a n"
  by (simp add: agree_def)

lemma agree_trans: "agree m m' a n \<Longrightarrow> agree m' m'' a n \<Longrightarrow> agree m m'' a n"
  by (simp add: agree_def)

lemma agree_mono: "agree m m' a n \<Longrightarrow> k \<le> n \<Longrightarrow> agree m m' a k"
  by (auto simp: agree_def)

lemma agree_sub:
  assumes "agree m m' a n" and "b - a \<le> n" and "k \<le> n - (b - a)"
  shows "agree m m' b k"
  unfolding agree_def
proof (intro allI impI)
  fix x assume "x - b < k"
  with assms(2,3) have "x - a < n" by uint_arith
  with assms(1) show "m' x = m x" by (simp add: agree_def)
qed

lemma load64_store64_apart [mem_simps]: "apart b 8 a 8 \<Longrightarrow> load64 (store64 m b v) a = load64 m a"
  by (rule agree_load64) auto
lemma load64_memset_apart [mem_simps]: "apart b n a 8 \<Longrightarrow> load64 (memset m b c n) a = load64 m a"
  by (rule agree_load64) auto

lemma load64_memset_zero: 
  assumes "a - b \<le> n" "8 \<le> n - (a - b)" shows "load64 (memset m b 0 n) a = 0"
proof (rule bit_word_eqI)
  fix k assume "k < LENGTH(64)"
  then have k: "k < 64" by auto
  have "(a + word_of_nat (k div 8)) - a < (8::u64)" using offset_less[of "k div 8" 8 a] k by simp
  with assms have "(a + word_of_nat (k div 8)) - b < n" by uint_arith
  then show "bit (load64 (memset m b 0 n) a) k = bit 0 k"
    by (simp add: bit_load64 memset_def)
qed

lemma load32_store32_apart [mem_simps]: "apart b 4 a 4 \<Longrightarrow> load32 (store32 m b v) a = load32 m a"
  by (rule agree_load32) auto

lemma load64_store32_apart [mem_simps]: "apart b 4 a 8 \<Longrightarrow> load64 (store32 m b v) a = load64 m a"
  by (rule agree_load64) auto

lemma load32_store64_apart [mem_simps]: "apart b 8 a 4 \<Longrightarrow> load32 (store64 m b v) a = load32 m a"
  by (rule agree_load32) auto

lemma load64_store8_apart [mem_simps]: "apart b 1 a 8 \<Longrightarrow> load64 (store8 m b v) a = load64 m a"
  by (rule agree_load64) auto

lemma load32_store8_apart [mem_simps]: "apart b 1 a 4 \<Longrightarrow> load32 (store8 m b v) a = load32 m a"
  by (rule agree_load32) auto

lemma store64_byte_apart [mem_simps]: "apart b 8 a 1 \<Longrightarrow> store64 m b v a = m a"
  using agree_store64 [of b a 1 m v] by (simp add: agree_def)

lemma store32_byte_apart [mem_simps]: "apart b 4 a 1 \<Longrightarrow> store32 m b v a = m a"
  using agree_store32 [of b a 1 m v] by (simp add: agree_def)

lemma store8_byte [mem_simps]: "store8 m b v a = (if a = b then v else m a)"
  by (simp add: store8_def)

lemma store8_same [simp]: "store8 m b v b = v"
  by (simp add: store8_def)

subsection \<open>Memory on sets of byte positions\<close>

text \<open>
  Objects that do not wrap around the end of the address space are described by the natural numbers
  of their bytes, where disjointness is a matter of linear arithmetic.
\<close>

definition agree_on :: "memory \<Rightarrow> memory \<Rightarrow> nat set \<Rightarrow> bool" where
  "agree_on m m' A \<longleftrightarrow> (\<forall>x. unat x \<in> A \<longrightarrow> m' x = m x)"

lemma agree_on_refl [simp]: "agree_on m m A"
  by (simp add: agree_on_def)

lemma agree_on_trans: "agree_on m m' A \<Longrightarrow> agree_on m' m'' A \<Longrightarrow> agree_on m m'' A"
  by (simp add: agree_on_def)

lemma agree_on_mono: "agree_on m m' A \<Longrightarrow> B \<subseteq> A \<Longrightarrow> agree_on m m' B"
  by (auto simp: agree_on_def)

lemma unat_offset: "unat (a :: u64) + unat n < 2 ^ 64 \<Longrightarrow> unat (a + n) = unat a + unat n"
  by (intro unat_add_lem [THEN iffD1]) simp

lemma in_range_iff:
  assumes "unat (a :: u64) + unat n \<le> 2 ^ 64"
  shows "x - a < n \<longleftrightarrow> unat x \<in> {unat a..<unat a + unat n}"
proof -
  have x: "unat x < 2 ^ 64" using unsigned_less [of x, where 'a = nat] by simp
  show ?thesis using assms x by (simp add: word_less_nat_alt unat_sub_if') linarith
qed

lemma agree_on_iff:
  assumes "unat a + unat n \<le> 2 ^ 64"
  shows "agree m m' a n \<longleftrightarrow> agree_on m m' {unat a..<unat a + unat n}"
  by (simp add: agree_def agree_on_def in_range_iff [OF assms])

lemma load64_on: "agree_on m m' {unat a..<unat a + 8} \<Longrightarrow> unat a + 8 \<le> 2 ^ 64 \<Longrightarrow> load64 m' a = load64 m a"
  using agree_on_iff [of a 8 m m'] by (simp add: agree_load64)

lemma load32_on: "agree_on m m' {unat a..<unat a + 4} \<Longrightarrow> unat a + 4 \<le> 2 ^ 64 \<Longrightarrow> load32 m' a = load32 m a"
  using agree_on_iff [of a 4 m m'] by (simp add: agree_load32)

lemma store64_on: "{unat a..<unat a + 8} \<inter> A = {} \<Longrightarrow> unat a + 8 \<le> 2 ^ 64 \<Longrightarrow> agree_on m (store64 m a v) A"
  using in_range_iff [of a 8] by (auto simp: agree_on_def store64_def)

lemma store32_on: "{unat a..<unat a + 4} \<inter> A = {} \<Longrightarrow> unat a + 4 \<le> 2 ^ 64 \<Longrightarrow> agree_on m (store32 m a v) A"
  using in_range_iff [of a 4] by (auto simp: agree_on_def store32_def)

lemma store8_on: "unat a \<notin> A \<Longrightarrow> agree_on m (store8 m a v) A"
  by (auto simp: agree_on_def store8_def)

lemma memset_on:
  "{unat a..<unat a + unat n} \<inter> A = {} \<Longrightarrow> unat a + unat n \<le> 2 ^ 64 \<Longrightarrow> agree_on m (memset m a c n) A"
  using in_range_iff [of a n] by (auto simp: agree_on_def memset_def)

lemma agree_on_store64 [intro]:
  "agree_on m m0 A \<Longrightarrow> {unat a..<unat a + 8} \<inter> A = {} \<Longrightarrow> unat a + 8 \<le> 2 ^ 64 \<Longrightarrow> agree_on m (store64 m0 a v) A"
  by (rule agree_on_trans [OF _ store64_on])

lemma agree_on_store32 [intro]:
  "agree_on m m0 A \<Longrightarrow> {unat a..<unat a + 4} \<inter> A = {} \<Longrightarrow> unat a + 4 \<le> 2 ^ 64 \<Longrightarrow> agree_on m (store32 m0 a v) A"
  by (rule agree_on_trans [OF _ store32_on])

lemma agree_on_store8 [intro]: "agree_on m m0 A \<Longrightarrow> unat a \<notin> A \<Longrightarrow> agree_on m (store8 m0 a v) A"
  by (rule agree_on_trans [OF _ store8_on])

lemma apart_nat:
  assumes "unat a + unat n \<le> unat b \<or> unat b + unat k \<le> unat a" and "0 < n" and "0 < k"
    and "unat a + unat n \<le> 2 ^ 64" and "unat b + unat k \<le> 2 ^ 64"
  shows "apart a n b k"
  using assms by (auto simp: apart_def word_le_nat_alt word_less_nat_alt unat_sub_if')

text \<open>Fields of one object, and of two objects of 32 bytes that are apart.\<close>

lemma one_le_u64 [addr_simps]: "1 \<le> (x :: u64) \<longleftrightarrow> x \<noteq> 0"
  by (simp add: word_le_nat_alt Suc_le_eq unat_gt_0)

lemma apart_same [addr_simps]:
  "c \<le> y - x \<Longrightarrow> d \<le> x - y \<Longrightarrow> apart (t + x) c (t + y) d"
  "c \<le> y \<Longrightarrow> d \<le> - y \<Longrightarrow> apart t c (t + y) d"
  "c \<le> - x \<Longrightarrow> d \<le> x \<Longrightarrow> apart (t + x) c t d"
  by (simp_all add: apart_def)

definition apart32 :: "u64 \<Rightarrow> u64 \<Rightarrow> bool" where
  "apart32 a b \<longleftrightarrow> apart a 32 b 32"

lemma apart32_sym: "apart32 a b \<longleftrightarrow> apart32 b a"
  by (simp add: apart32_def apart_sym)

lemma apart32_neq: "apart32 a b \<Longrightarrow> a \<noteq> b"
  by (auto simp: apart32_def apart_def)

lemma apart32_nat:
  "unat a + 32 \<le> unat b \<or> unat b + 32 \<le> unat a \<Longrightarrow> unat a + 32 \<le> 2 ^ 64 \<Longrightarrow> unat b + 32 \<le> 2 ^ 64 \<Longrightarrow>
   apart32 a b"
  unfolding apart32_def by (rule apart_nat) simp_all

lemma apart_fields [addr_simps]:
  "apart32 t a \<Longrightarrow> x \<le> 32 \<Longrightarrow> y \<le> 32 \<Longrightarrow> c \<le> 32 - x \<Longrightarrow> d \<le> 32 - y \<Longrightarrow> 0 < c \<Longrightarrow> 0 < d \<Longrightarrow>
     apart (t + x) c (a + y) d"
  "apart32 t a \<Longrightarrow> x \<le> 32 \<Longrightarrow> c \<le> 32 - x \<Longrightarrow> d \<le> 32 \<Longrightarrow> 0 < c \<Longrightarrow> 0 < d \<Longrightarrow> apart (t + x) c a d"
  "apart32 t a \<Longrightarrow> y \<le> 32 \<Longrightarrow> c \<le> 32 \<Longrightarrow> d \<le> 32 - y \<Longrightarrow> 0 < c \<Longrightarrow> 0 < d \<Longrightarrow> apart t c (a + y) d"
  "apart32 t a \<Longrightarrow> c \<le> 32 \<Longrightarrow> d \<le> 32 \<Longrightarrow> 0 < c \<Longrightarrow> 0 < d \<Longrightarrow> apart t c a d"
  using apart_shift [of t 32 a 32 x y c d] apart_shift [of t 32 a 32 x 0 c d]
    apart_shift [of t 32 a 32 0 y c d] apart_shift [of t 32 a 32 0 0 c d]
  by (simp_all add: apart32_def)

section \<open>Sequencing\<close>

text \<open>
  Results of code that may fault and may not return: \<open>None\<close> when it does not return. \<open>then_do\<close>
  runs the next statement on the result of the one before.
\<close>

definition then_do :: "(fault + 'a) option \<Rightarrow> ('a \<Rightarrow> (fault + 'b) option) \<Rightarrow> (fault + 'b) option" where
  "then_do r f = (case r of None \<Rightarrow> None | Some (Inl e) \<Rightarrow> Some (Inl e) | Some (Inr x) \<Rightarrow> f x)"

definition bind_sum :: "fault + 'a \<Rightarrow> ('a \<Rightarrow> fault + 'b) \<Rightarrow> fault + 'b" where
  "bind_sum r f = (case r of Inl e \<Rightarrow> Inl e | Inr x \<Rightarrow> f x)"

lemma then_do_simps [simp]:
  "then_do None f = None" "then_do (Some (Inl e)) f = Some (Inl e)" "then_do (Some (Inr x)) f = f x"
  by (simp_all add: then_do_def)

lemma bind_sum_simps [simp]: "bind_sum (Inl e) f = Inl e" "bind_sum (Inr x) f = f x"
  by (simp_all add: bind_sum_def)

lemma bind_sum_Inr_iff: "bind_sum r f = Inr y \<longleftrightarrow> (\<exists>x. r = Inr x \<and> f x = Inr y)"
  by (cases r) simp_all

lemma then_do_Inr_iff: "then_do r f = Some (Inr y) \<longleftrightarrow> (\<exists>x. r = Some (Inr x) \<and> f x = Some (Inr y))"
  by (auto simp: then_do_def split: option.splits sum.splits)

section \<open>Loops\<close>

text \<open>
  The loop \<open>for (i = a; i < b; i += d)\<close> over a machine word, whose body \<open>f\<close> may fault. It is
  \<open>None\<close> when it does not end, which is so when the index wraps around below \<open>b\<close> for ever.
\<close>

partial_function (option) for_loop ::
    "('i::len word \<Rightarrow> 's \<Rightarrow> fault + 's) \<Rightarrow> 'i word \<Rightarrow> 'i word \<Rightarrow> 'i word \<Rightarrow> 's \<Rightarrow> (fault + 's) option" where
  [code]: "for_loop f d i b s =
     (if i < b then (case f i s of Inl e \<Rightarrow> Some (Inl e) | Inr s' \<Rightarrow> for_loop f d (i + d) b s')
      else Some (Inr s))"

text \<open>The body run on the elements of a list, up to the first fault.\<close>

primrec run_list :: "('a \<Rightarrow> 's \<Rightarrow> fault + 's) \<Rightarrow> 'a list \<Rightarrow> 's \<Rightarrow> fault + 's" where
  "run_list f [] s = Inr s"
| "run_list f (x # xs) s = (case f x s of Inl e \<Rightarrow> Inl e | Inr s' \<Rightarrow> run_list f xs s')"

text \<open>The values the index takes.\<close>

definition for_range :: "'i::len word \<Rightarrow> 'i word \<Rightarrow> 'i word \<Rightarrow> 'i word list" where
  "for_range d i b = map (\<lambda>k. i + of_nat k * d) [0..<(unat b - unat i + unat d - 1) div unat d]"

lemma run_list_append:
  "run_list f (xs @ ys) s = (case run_list f xs s of Inl e \<Rightarrow> Inl e | Inr s' \<Rightarrow> run_list f ys s')"
  by (induction xs arbitrary: s) (auto split: sum.split)

lemma then_do_run_list:
  "then_do (Some (run_list f xs s)) (\<lambda>s'. Some (run_list f ys s')) = Some (run_list f (xs @ ys) s)"
  by (simp add: run_list_append then_do_def split: sum.split)

lemma run_list_map: "run_list f (map g xs) s = run_list (\<lambda>x. f (g x)) xs s"
  by (induction xs arbitrary: s) (auto split: sum.split)

lemma run_list_cong:
  "(\<And>x s. x \<in> set xs \<Longrightarrow> f x s = g x s) \<Longrightarrow> run_list f xs s = run_list g xs s"
  by (induction xs arbitrary: s) (auto split: sum.split)

lemma for_range_empty [simp]: "\<not> i < b \<Longrightarrow> 0 < d \<Longrightarrow> for_range d i b = []"
  by (simp add: for_range_def word_less_nat_alt)

lemma for_range_Cons:
  assumes "i < b" and "0 < d" and "unat b + unat d \<le> 2 ^ LENGTH('i)"
  shows "for_range d (i :: 'i::len word) b = i # for_range d (i + d) b"
proof -
  let ?n = "(unat b - unat i + unat d - 1) div unat d"
  have d: "0 < unat d" and ib: "unat i < unat b"
    using assms(1,2) by (simp_all add: word_less_nat_alt)
  have id: "unat (i + d) = unat i + unat d"
    using assms(3) ib by (intro unat_add_lem [THEN iffD1]) simp
  have "(unat b - (unat i + unat d) + unat d - 1) div unat d = ?n - 1"
  proof (cases "unat i + unat d \<le> unat b")
    case True
    then have "unat b - unat i + unat d - 1 = (unat b - (unat i + unat d) + unat d - 1) + unat d"
      using d by simp
    then have "?n = (unat b - (unat i + unat d) + unat d - 1) div unat d + 1"
      using d by (simp only: div_add_self2)
    then show ?thesis by linarith
  next
    case False
    then have "unat b - unat i + unat d - 1 = (unat b - unat i - 1) + unat d"
      and "unat b - unat i - 1 < unat d" and "unat b - (unat i + unat d) = 0"
      using ib d by simp_all
    then show ?thesis using d by (simp only: div_add_self2 div_less)
  qed
  moreover have "0 < ?n" using ib d by (simp add: div_greater_zero_iff)
  ultimately have n: "?n = Suc ((unat b - unat (i + d) + unat d - 1) div unat d)"
    by (simp add: id)
  show ?thesis
    unfolding for_range_def n upt_conv_Cons [OF zero_less_Suc] map_Suc_upt [symmetric]
    by (simp add: algebra_simps)
qed

text \<open>A loop whose bound leaves room for one more step ends, and runs its body on the range.\<close>

lemma for_loop_run:
  assumes "0 < d" and "unat b + unat d \<le> 2 ^ LENGTH('i)"
  shows "for_loop f d (i :: 'i::len word) b s = Some (run_list f (for_range d i b) s)"
proof (induction "unat b - unat i" arbitrary: i s rule: less_induct)
  case less
  show ?case
  proof (cases "i < b")
    case True
    have "unat (i + d) = unat i + unat d"
      using assms(2) True by (intro unat_add_lem [THEN iffD1]) (simp add: word_less_nat_alt)
    then have "unat b - unat (i + d) < unat b - unat i"
      using True assms(1) by (simp add: word_less_nat_alt)
    then show ?thesis
      using True less for_range_Cons [OF True assms]
      by (subst for_loop.simps) (simp split: sum.split)
  next
    case False
    then show ?thesis using assms(1) by (subst for_loop.simps) simp
  qed
qed

section \<open>Invariants of step relations\<close>

locale step_invariant =
  fixes step :: "'s \<Rightarrow> 's \<Rightarrow> bool" and inv :: "'s \<Rightarrow> bool"
  assumes step_inv: "step s s' \<Longrightarrow> inv s \<Longrightarrow> inv s'"
begin

lemma reachable_inv: "step\<^sup>*\<^sup>* s s' \<Longrightarrow> inv s \<Longrightarrow> inv s'"
  by (induction rule: rtranclp_induct) (auto intro: step_inv)

end

end
