(* ===== verification/Exchange_Sort.thy ===== *)
theory Exchange_Sort
  imports Prelude "HOL-Library.Multiset"
begin

text \<open>
  The kernel sorts two arrays, the bootloader's memory map and the symbol table of the crash
  handler, with the same pair of nested loops: for every position \<open>i\<close>, compare with every later
  position \<open>j\<close> and exchange the two when a condition on them holds. The loops are written here
  once over that condition; the locale states what a condition must satisfy for the result to have
  no pair left to exchange.
\<close>

section \<open>The loops\<close>

function exchange_inner :: "('a \<Rightarrow> 'a \<Rightarrow> bool) \<Rightarrow> nat \<Rightarrow> nat \<Rightarrow> 'a list \<Rightarrow> 'a list" where
  "exchange_inner sw i j xs =
     (if j < length xs
      then exchange_inner sw i (Suc j)
             (if sw (xs ! i) (xs ! j) then xs[i := xs ! j, j := xs ! i] else xs)
      else xs)"
  by pat_completeness auto
termination
  by (relation "measure (\<lambda>(sw, i, j, xs). length xs - j)") auto

declare exchange_inner.simps [simp del]

lemma length_exchange_inner [simp]: "length (exchange_inner sw i j xs) = length xs"
  by (induction sw i j xs rule: exchange_inner.induct)
    (subst exchange_inner.simps, simp)

function exchange_outer :: "('a \<Rightarrow> 'a \<Rightarrow> bool) \<Rightarrow> nat \<Rightarrow> 'a list \<Rightarrow> 'a list" where
  "exchange_outer sw i xs =
     (if i < length xs then exchange_outer sw (Suc i) (exchange_inner sw i (Suc i) xs) else xs)"
  by pat_completeness auto
termination
  by (relation "measure (\<lambda>(sw, i, xs). length xs - i)") auto

declare exchange_outer.simps [simp del]

lemma set_drop_nth: "y \<in> set (drop n xs) \<longleftrightarrow> (\<exists>k. n \<le> k \<and> k < length xs \<and> y = xs ! k)"
proof
  assume "y \<in> set (drop n xs)"
  then obtain i where "i < length xs - n" and "y = xs ! (n + i)"
    by (auto simp: in_set_conv_nth)
  then show "\<exists>k. n \<le> k \<and> k < length xs \<and> y = xs ! k"
    by (intro exI [of _ "n + i"]) simp
next
  assume "\<exists>k. n \<le> k \<and> k < length xs \<and> y = xs ! k"
  then obtain k where "n \<le> k" and "k < length xs" and "y = xs ! k" by blast
  then show "y \<in> set (drop n xs)"
    by (auto simp: in_set_conv_nth intro!: exI [of _ "k - n"])
qed

section \<open>Permutation\<close>

lemma mset_exchange_inner: "i < j \<Longrightarrow> mset (exchange_inner sw i j xs) = mset xs"
proof (induction sw i j xs rule: exchange_inner.induct)
  case (1 sw i j xs)
  show ?case
  proof (cases "j < length xs")
    case True
    with "1.prems" have "mset (xs[i := xs ! j, j := xs ! i]) = mset xs"
      by (simp add: mset_swap)
    with True "1.IH" "1.prems" show ?thesis
      by (subst exchange_inner.simps) (auto split: if_splits)
  qed (subst exchange_inner.simps, simp)
qed

lemma take_exchange_inner: "k \<le> i \<Longrightarrow> i < j \<Longrightarrow> take k (exchange_inner sw i j xs) = take k xs"
proof (induction sw i j xs rule: exchange_inner.induct)
  case (1 sw i j xs)
  then show ?case
    by (subst exchange_inner.simps) auto
qed

lemma mset_exchange_outer: "mset (exchange_outer sw i xs) = mset xs"
proof (induction sw i xs rule: exchange_outer.induct)
  case (1 sw i xs)
  then show ?case
    by (subst exchange_outer.simps) (simp add: mset_exchange_inner)
qed

lemma length_exchange_outer [simp]: "length (exchange_outer sw i xs) = length xs"
  by (metis mset_exchange_outer size_mset)

lemma take_exchange_outer: "k \<le> i \<Longrightarrow> take k (exchange_outer sw i xs) = take k xs"
proof (induction sw i xs rule: exchange_outer.induct)
  case (1 sw i xs)
  then show ?case
    by (subst exchange_outer.simps) (simp add: take_exchange_inner)
qed

lemma set_drop_exchange_outer:
  assumes "k \<le> i"
  shows "mset (drop k (exchange_outer sw i xs)) = mset (drop k xs)"
proof -
  have "mset (take k xs) + mset (drop k (exchange_outer sw i xs)) = mset (take k xs) + mset (drop k xs)"
    by (metis assms append_take_drop_id mset_append mset_exchange_outer take_exchange_outer)
  then show ?thesis by simp
qed

section \<open>Order\<close>

locale exchange_order =
  fixes sw :: "'a \<Rightarrow> 'a \<Rightarrow> bool"
  assumes sw_irrefl: "\<not> sw x x"
    and sw_step: "sw x y \<Longrightarrow> \<not> sw x z \<Longrightarrow> \<not> sw y z"
begin

lemma sw_asym: "sw x y \<Longrightarrow> \<not> sw y x"
  using sw_irrefl sw_step by blast

definition settled :: "nat \<Rightarrow> 'a list \<Rightarrow> bool" where
  "settled a xs \<longleftrightarrow> (\<forall>y \<in> set (drop (Suc a) xs). \<not> sw (xs ! a) y)"

lemma settled_nth:
  "settled a xs \<longleftrightarrow> (\<forall>k. a < k \<and> k < length xs \<longrightarrow> \<not> sw (xs ! a) (xs ! k))"
  unfolding settled_def Ball_def set_drop_nth by (auto simp: Suc_le_eq)

lemma inner_settles:
  "i < j \<Longrightarrow> j \<le> length xs \<Longrightarrow> \<forall>k. i < k \<and> k < j \<longrightarrow> \<not> sw (xs ! i) (xs ! k) \<Longrightarrow>
   settled i (exchange_inner sw i j xs)"
proof (induction "length xs - j" arbitrary: j xs)
  case 0
  then show ?case by (subst exchange_inner.simps) (simp add: settled_nth)
next
  case (Suc d)
  let ?ys = "if sw (xs ! i) (xs ! j) then xs[i := xs ! j, j := xs ! i] else xs"
  have "\<not> sw (?ys ! i) (?ys ! k)" if "i < k" and "k < Suc j" for k
  proof (cases "sw (xs ! i) (xs ! j)")
    case True
    have "\<not> sw (xs ! j) (xs ! k)" if "k \<noteq> j"
      using Suc.prems \<open>i < k\<close> \<open>k < Suc j\<close> that by (intro sw_step [OF True]) simp
    with True Suc.prems Suc.hyps(2) that show ?thesis
      by (cases "k = j") (simp_all add: sw_asym)
  next
    case False
    with Suc.prems that show ?thesis by (cases "k = j") auto
  qed
  moreover have "d = length ?ys - Suc j" and "i < Suc j" and "Suc j \<le> length ?ys"
    using Suc.hyps(2) Suc.prems by auto
  ultimately have "settled i (exchange_inner sw i (Suc j) ?ys)"
    using Suc.hyps(1) by blast
  moreover have "j < length xs" using Suc.hyps(2) by simp
  ultimately show ?case
    by (subst exchange_inner.simps) simp
qed

lemma settled_perm:
  assumes "settled a xs" and "take (Suc a) ys = take (Suc a) xs" and "mset ys = mset xs"
    and "a < length xs"
  shows "settled a ys"
proof -
  have "mset (drop (Suc a) ys) = mset (drop (Suc a) xs)"
    by (metis (no_types) assms(2,3) add_left_imp_eq append_take_drop_id mset_append)
  then have "set (drop (Suc a) ys) = set (drop (Suc a) xs)"
    by (metis set_mset_mset)
  moreover from assms(2,4) have "ys ! a = xs ! a"
    by (metis lessI nth_take)
  ultimately show ?thesis
    using assms(1) by (simp add: settled_def)
qed

lemma outer_settles:
  "\<forall>a < i. a < length xs \<longrightarrow> settled a xs \<Longrightarrow>
   \<forall>a < length xs. settled a (exchange_outer sw i xs)"
proof (induction "length xs - i" arbitrary: i xs)
  case 0
  then show ?case by (subst exchange_outer.simps) auto
next
  case (Suc d)
  let ?ys = "exchange_inner sw i (Suc i) xs"
  from Suc.hyps(2) have i: "i < length xs" by simp
  have "settled a ?ys" if "a < Suc i" for a
  proof (cases "a = i")
    case True
    with i show ?thesis by (auto intro!: inner_settles)
  next
    case False
    with that have "a < i" by simp
    with Suc.prems i have "settled a xs" by simp
    moreover have "take (Suc a) ?ys = take (Suc a) xs"
      using \<open>a < i\<close> by (simp add: take_exchange_inner)
    moreover have "mset ?ys = mset xs"
      by (simp add: mset_exchange_inner)
    moreover have "a < length xs"
      using \<open>a < i\<close> i by simp
    ultimately show ?thesis by (rule settled_perm)
  qed
  moreover have "d = length ?ys - Suc i" using Suc.hyps(2) by simp
  ultimately have "\<forall>a < length ?ys. settled a (exchange_outer sw (Suc i) ?ys)"
    using Suc.hyps(1) by blast
  then show ?case using i by (subst exchange_outer.simps) simp
qed

lemma exchange_sorted: "sorted_wrt (\<lambda>x y. \<not> sw x y) (exchange_outer sw 0 xs)"
  using outer_settles [of 0 xs] unfolding sorted_wrt_iff_nth_less settled_nth by simp

end

end
