(* ===== verification/Bootloader.thy ===== *)
theory Bootloader
  imports Exchange_Sort
begin

text \<open>
  The bootloader interface, \<open>include/bootloader/limine.h\<close> and \<open>kernel/bootloader/limine.cc\<close>: the
  memory map the bootloader hands over, the boot context the kernel copies it into, and the
  exchange loop \<open>sort_memmap\<close> that decides which region the frame allocator uses.

  The header \<open>limine.h\<close> of the bootloader project is not part of this repository. The kernel reads
  three of its memory map types by name, so the type of an entry is one of those three names or any
  other number; a response the bootloader did not fill in is a null pointer, here \<open>None\<close>. The framebuffer
  response is copied without being read, so it is kept as the address it is, 0 when it is null.
\<close>

section \<open>Data\<close>

datatype memmap_type =
    LIMINE_MEMMAP_USABLE
  | LIMINE_MEMMAP_BOOTLOADER_RECLAIMABLE
  | LIMINE_MEMMAP_FRAMEBUFFER
  | LIMINE_MEMMAP_OTHER u64

record limine_memmap_entry =
  me_base :: u64
  me_length :: u64
  me_type :: memmap_type

text \<open>The global \<open>boot_ctx\<close>, with the memory it describes.\<close>

record boot_state =
  mem :: memory
  boot_name :: string
  boot_version :: string
  memmap_entries :: "limine_memmap_entry list"
  hhdm_addr :: u64
  kern_address_virt :: u64
  kern_address_phys :: u64
  fb_info :: u64
  kernel_file :: u64
  rsdp_addr :: u64

text \<open>The responses of the bootloader the kernel reads: a null response is \<open>None\<close>.\<close>

record limine_responses =
  info_response :: "(string \<times> string) option"
  memmap_response :: "limine_memmap_entry list option"
  hhdm_response :: "u64 option"
  kernaddr_response :: "(u64 \<times> u64) option"
  fb_response :: u64
  kernel_file_response :: "u64 option"
  rsdp_response :: "u64 option"

section \<open>Operations\<close>

definition PHYS2VIRT :: "'a boot_state_scheme \<Rightarrow> u64 \<Rightarrow> u64" where
  "PHYS2VIRT s a = hhdm_addr s + a"

definition VIRT2PHYS :: "'a boot_state_scheme \<Rightarrow> u64 \<Rightarrow> u64" where
  "VIRT2PHYS s a = a - hhdm_addr s"

text \<open>The condition of the exchange in \<open>sort_memmap\<close>.\<close>

definition memmap_swap :: "limine_memmap_entry \<Rightarrow> limine_memmap_entry \<Rightarrow> bool" where
  "memmap_swap x y \<longleftrightarrow> me_type x \<noteq> LIMINE_MEMMAP_USABLE \<and> me_length x < me_length y"

definition sort_memmap :: "'a boot_state_scheme \<Rightarrow> 'a boot_state_scheme" where
  "sort_memmap s = s\<lparr>memmap_entries := exchange_outer memmap_swap 0 (memmap_entries s)\<rparr>"

definition gather :: "limine_responses \<Rightarrow> 'a boot_state_scheme \<Rightarrow> fault + 'a boot_state_scheme" where
  "gather r s =
     (case info_response r of None \<Rightarrow> Inl NullDeref | Some (nm, ver) \<Rightarrow>
      (case memmap_response r of None \<Rightarrow> Inl NullDeref | Some entries \<Rightarrow>
      (case hhdm_response r of None \<Rightarrow> Inl NullDeref | Some hhdm \<Rightarrow>
      (case kernaddr_response r of None \<Rightarrow> Inl NullDeref | Some (vbase, pbase) \<Rightarrow>
      (case kernel_file_response r of None \<Rightarrow> Inl NullDeref | Some file \<Rightarrow>
      (case rsdp_response r of None \<Rightarrow> Inl NullDeref | Some rsdp \<Rightarrow>
         Inr (sort_memmap (s\<lparr>boot_name := nm, boot_version := ver, memmap_entries := entries,
                hhdm_addr := hhdm, kern_address_virt := vbase, kern_address_phys := pbase, fb_info := fb_response r,
                kernel_file := file, rsdp_addr := rsdp - hhdm\<rparr>))))))))"

section \<open>What the exchange achieves\<close>

interpretation memmap_order: exchange_order memmap_swap
  by unfold_locales (auto simp: memmap_swap_def)

lemma sort_memmap_mset: "mset (memmap_entries (sort_memmap s)) = mset (memmap_entries s)"
  by (simp add: sort_memmap_def mset_exchange_outer)

lemma sort_memmap_sorted:
  "sorted_wrt (\<lambda>x y. me_type x = LIMINE_MEMMAP_USABLE \<or> me_length y \<le> me_length x)
     (memmap_entries (sort_memmap s))"
proof -
  have "(\<lambda>x y. \<not> memmap_swap x y) =
        (\<lambda>x y. me_type x = LIMINE_MEMMAP_USABLE \<or> me_length y \<le> me_length x)"
    by (auto simp: memmap_swap_def fun_eq_iff)
  then show ?thesis
    using memmap_order.exchange_sorted [of "memmap_entries s"] by (simp add: sort_memmap_def)
qed

lemma exchange_inner_usable:
  "0 < j \<Longrightarrow> me_type (xs ! 0) = LIMINE_MEMMAP_USABLE \<Longrightarrow> exchange_inner memmap_swap 0 j xs = xs"
proof (induction "length xs - j" arbitrary: j)
  case 0
  then show ?case by (subst exchange_inner.simps) simp
next
  case (Suc d)
  then show ?case
    by (subst exchange_inner.simps) (simp add: memmap_swap_def)
qed

text \<open>
  (C20) \<open>BootloaderCtx::gather\<close>: when the bootloader filled in the six responses the call reads, it returns with
  every field of the boot context copied: name and version, the offset of the direct map, the two bases of the
  kernel, the framebuffer response as it is, null or not, the kernel file, and the physical address of the
  ACPI root pointer. The memory map of the boot context is a permutation of the bootloader's in which every
  entry is either usable memory or at least as long as every entry after it, which is not the order by usable
  size the comment on \<open>sort_memmap\<close> speaks of.
\<close>

theorem gather_memmap:
  assumes "info_response r = Some (nm, ver)" and "memmap_response r = Some entries"
    and "hhdm_response r = Some hhdm" and "kernaddr_response r = Some (vbase, pbase)"
    and "kernel_file_response r = Some file" and "rsdp_response r = Some rsdp"
  shows "\<exists>s'. gather r s = Inr s' \<and> mset (memmap_entries s') = mset entries \<and>
           sorted_wrt (\<lambda>x y. me_type x = LIMINE_MEMMAP_USABLE \<or> me_length y \<le> me_length x)
             (memmap_entries s') \<and>
           boot_name s' = nm \<and> boot_version s' = ver \<and> hhdm_addr s' = hhdm \<and> kern_address_virt s' = vbase \<and>
           kern_address_phys s' = pbase \<and> fb_info s' = fb_response r \<and> kernel_file s' = file \<and>
           rsdp_addr s' = rsdp - hhdm \<and> mem s' = mem s"
proof -
  let ?t = "s\<lparr>boot_name := nm, boot_version := ver, memmap_entries := entries, hhdm_addr := hhdm, kern_address_virt := vbase,
    kern_address_phys := pbase, fb_info := fb_response r, kernel_file := file, rsdp_addr := rsdp - hhdm\<rparr>"
  have "gather r s = Inr (sort_memmap ?t)" using assms by (simp add: gather_def)
  then show ?thesis
    using sort_memmap_mset [of ?t] sort_memmap_sorted [of ?t] by (simp add: sort_memmap_def)
qed

text \<open>
  \<open>sort_memmap\<close> is commented as sorting the map in reverse by usable memory size. It never
  moves a usable first entry, however small that entry is beside the other usable regions, so the
  first entry, from which \<open>Mem::Frame::init\<close> takes the frames, stays the bootloader's first one.
\<close>

theorem sort_memmap_keeps_usable_head:
  assumes "memmap_entries s = e # es" and "me_type e = LIMINE_MEMMAP_USABLE"
  shows "\<exists>es'. memmap_entries (sort_memmap s) = e # es'"
proof -
  have "exchange_outer memmap_swap 0 (e # es) = exchange_outer memmap_swap 1 (e # es)"
    using assms(2) by (subst exchange_outer.simps) (simp add: exchange_inner_usable)
  then have "take 1 (exchange_outer memmap_swap 0 (e # es)) = [e]"
    by (simp add: take_exchange_outer)
  then show ?thesis
    using assms(1) by (cases "exchange_outer memmap_swap 0 (e # es)") (auto simp: sort_memmap_def)
qed

section \<open>Witnesses\<close>

definition ex_memmap :: "limine_memmap_entry list" where
  "ex_memmap = [\<lparr>me_base = 0x1000, me_length = 0x9f000, me_type = LIMINE_MEMMAP_USABLE\<rparr>,
     \<lparr>me_base = 0xa0000, me_length = 0x60000, me_type = LIMINE_MEMMAP_OTHER 1\<rparr>,
     \<lparr>me_base = 0x100000, me_length = 0x7fee0000, me_type = LIMINE_MEMMAP_USABLE\<rparr>]"

definition ex_responses :: limine_responses where
  "ex_responses = \<lparr>info_response = Some (''Limine'', ''9.3.0''), memmap_response = Some ex_memmap,
     hhdm_response = Some 0xffff800000000000,
     kernaddr_response = Some (0xffffffff80000000, 0x7ec00000), fb_response = 0xffff80007e900000,
     kernel_file_response = Some 0xffff80007ea00000, rsdp_response = Some 0xffff8000000f52e0\<rparr>"

definition ex_boot :: boot_state where
  "ex_boot = \<lparr>mem = (\<lambda>_. 0), boot_name = [], boot_version = [], memmap_entries = ex_memmap,
     hhdm_addr = 0, kern_address_virt = 0, kern_address_phys = 0, fb_info = 0, kernel_file = 0, rsdp_addr = 0\<rparr>"

theorem gather_memmap_witness:
  "\<exists>s'. gather ex_responses ex_boot = Inr s' \<and> mset (memmap_entries s') = mset ex_memmap \<and>
     boot_name s' = ''Limine'' \<and> kern_address_phys s' = 0x7ec00000 \<and> fb_info s' = 0xffff80007e900000 \<and> rsdp_addr s' = 0xf52e0"
proof -
  have responses: "info_response ex_responses = Some (''Limine'', ''9.3.0'')"
    "memmap_response ex_responses = Some ex_memmap" "hhdm_response ex_responses = Some 0xffff800000000000"
    "kernaddr_response ex_responses = Some (0xffffffff80000000, 0x7ec00000)"
    "kernel_file_response ex_responses = Some 0xffff80007ea00000"
    "rsdp_response ex_responses = Some 0xffff8000000f52e0"
    by (simp_all add: ex_responses_def)
  have "fb_response ex_responses = 0xffff80007e900000" by (simp add: ex_responses_def)
  then show ?thesis using gather_memmap [OF responses, of ex_boot] by auto
qed

text \<open>The first region stays in front although the third is usable and far larger.\<close>

theorem sort_memmap_keeps_usable_head_witness:
  "\<exists>es'. memmap_entries (sort_memmap ex_boot) =
     \<lparr>me_base = 0x1000, me_length = 0x9f000, me_type = LIMINE_MEMMAP_USABLE\<rparr> # es'"
  using sort_memmap_keeps_usable_head [of ex_boot] by (simp add: ex_boot_def ex_memmap_def)

end
