(* ===== verification/Frames.thy ===== *)
theory Frames
  imports Bootloader
begin

unbundle bit_operations_syntax

text \<open>
  The physical frame allocator, \<open>include/mem/frames.h\<close> and \<open>kernel/mem/frames/frames.cc\<close>: a byte
  per frame that says whether it is in use, and the position from which the next search starts.
  The allocator hands out kernel virtual addresses (\<open>base_addr\<close> is the higher half address of the
  first memory map entry) and clears every frame it hands out.

  Integer widths are the code's: frame numbers are 32 bit, and the product of a frame number and
  \<open>FRAME_SIZE\<close> is taken at 32 bits before it is added to the 64 bit base. The byte array \<open>frames\<close>
  is private to this component and is kept beside the memory, as a function of the frame number.
\<close>

section \<open>State and operations\<close>

abbreviation FRAME_SIZE :: "'a::len word" where
  "FRAME_SIZE \<equiv> 0x1000"

record frame_state = boot_state +
  frames :: "u32 \<Rightarrow> bool"
  nframes :: u64
  latest_frame :: u32
  available_frames :: u32
  base_addr :: u64

text \<open>The search loop of \<open>alloc\<close>.\<close>

function next_free :: "(u32 \<Rightarrow> bool) \<Rightarrow> u32 \<Rightarrow> u32 \<Rightarrow> u32" where
  "next_free fs avail i = (if i < avail \<and> fs i then next_free fs avail (i + 1) else i)"
  by pat_completeness auto
termination
  by (relation "measure (\<lambda>(fs, avail, i). unat avail - unat i)") (auto, unat_arith)

declare next_free.simps [simp del]

definition frame_addr :: "'a frame_state_scheme \<Rightarrow> u32 \<Rightarrow> u64" where
  "frame_addr s k = base_addr s + ucast (k * FRAME_SIZE)"

definition Frame_alloc :: "'a frame_state_scheme \<Rightarrow> u64 \<times> 'a frame_state_scheme" where
  "Frame_alloc s =
     (let l = next_free (frames s) (available_frames s) (latest_frame s) in
      if l = available_frames s then (0, s\<lparr>latest_frame := l\<rparr>)
      else (let frame = frame_addr s l in
        (frame, s\<lparr>frames := (frames s)(l := True), latest_frame := l + 1,
                  mem := memset (mem s) frame 0 FRAME_SIZE\<rparr>)))"

text \<open>The search loop of \<open>allocs\<close>: the pair of \<open>start_frame\<close> and \<open>frame_count\<close> when it ends.\<close>

function allocs_scan ::
    "(u32 \<Rightarrow> bool) \<Rightarrow> u32 \<Rightarrow> u64 \<Rightarrow> u32 \<Rightarrow> u32 \<Rightarrow> u32 \<Rightarrow> u32 \<times> u32" where
  "allocs_scan fs avail cnt i start n =
     (if i < avail then
        (let (start', n') = (if fs i then (i, 1) else (start, n + 1)) in
         if ucast n' = cnt then (start', n') else allocs_scan fs avail cnt (i + 1) start' n')
      else (start, n))"
  by pat_completeness auto
termination
  by (relation "measure (\<lambda>(fs, avail, cnt, i, start, n). unat avail - unat i)") (auto, unat_arith+)

declare allocs_scan.simps [simp del]

text \<open>The loop that marks \<open>k\<close> frames from \<open>i\<close> on.\<close>

primrec mark_frames :: "(u32 \<Rightarrow> bool) \<Rightarrow> u32 \<Rightarrow> nat \<Rightarrow> (u32 \<Rightarrow> bool)" where
  "mark_frames fs i 0 = fs"
| "mark_frames fs i (Suc k) = mark_frames (fs(i := True)) (i + 1) k"

definition Frame_allocs :: "u64 \<Rightarrow> 'a frame_state_scheme \<Rightarrow> u64 \<times> 'a frame_state_scheme" where
  "Frame_allocs cnt s =
     (let (start, n) = allocs_scan (frames s) (available_frames s) cnt (latest_frame s)
                         (latest_frame s) 0 in
      if ucast n < cnt then (0, s)
      else (let frame = frame_addr s start in
        (frame, s\<lparr>frames := mark_frames (frames s) start (unat cnt),
                  latest_frame := latest_frame s + 1,
                  mem := memset (mem s) frame 0 (cnt * FRAME_SIZE)\<rparr>)))"

definition Frame_free :: "u64 \<Rightarrow> 'a frame_state_scheme \<Rightarrow> 'a frame_state_scheme" where
  "Frame_free frame s =
     (let frame_num = ucast (frame - base_addr s) div FRAME_SIZE in
      s\<lparr>frames := (frames s)(frame_num := False), latest_frame := frame_num\<rparr>)"

definition Frame_init :: "'a frame_state_scheme \<Rightarrow> fault + 'a frame_state_scheme" where
  "Frame_init s =
     (case memmap_entries s of
        alloc_entry # bitmap_entry # _ \<Rightarrow>
          (let n = me_length bitmap_entry div FRAME_SIZE in
           Inr (s\<lparr>nframes := n, frames := (\<lambda>i. if ucast i < n then False else frames s i),
                  base_addr := PHYS2VIRT s (me_base alloc_entry),
                  available_frames := ucast (me_length alloc_entry div FRAME_SIZE)\<rparr>))
      | _ \<Rightarrow> Inl OutOfBounds)"

section \<open>The search\<close>

lemma next_free_spec:
  "i \<le> avail \<Longrightarrow> i \<le> next_free fs avail i \<and> next_free fs avail i \<le> avail \<and>
     (\<forall>k. i \<le> k \<and> k < next_free fs avail i \<longrightarrow> fs k) \<and>
     (next_free fs avail i < avail \<longrightarrow> \<not> fs (next_free fs avail i))"
proof (induction fs avail i rule: next_free.induct)
  case (1 fs avail i)
  show ?case
  proof (cases "i < avail \<and> fs i")
    case True
    then have le: "i + 1 \<le> avail" and lt: "i < i + 1" by unat_arith+
    have eq: "next_free fs avail i = next_free fs avail (i + 1)"
      using True by (simp add: next_free.simps [of fs avail i])
    have "fs k" if "i \<le> k" "k < next_free fs avail (i + 1)" for k
    proof (cases "k = i")
      case False
      with that lt have "i + 1 \<le> k" by unat_arith
      with that "1.IH" True le show ?thesis by blast
    qed (use True in simp)
    with "1.IH" True le lt eq show ?thesis by auto
  next
    case False
    with "1.prems" show ?thesis
      by (auto simp: next_free.simps [of fs avail i])
  qed
qed

lemma next_free_ge: "i \<le> avail \<Longrightarrow> i \<le> next_free fs avail i"
  and next_free_le: "i \<le> avail \<Longrightarrow> next_free fs avail i \<le> avail"
  and next_free_used: "i \<le> avail \<Longrightarrow> i \<le> k \<Longrightarrow> k < next_free fs avail i \<Longrightarrow> fs k"
  and next_free_free: "i \<le> avail \<Longrightarrow> next_free fs avail i \<noteq> avail \<Longrightarrow> \<not> fs (next_free fs avail i)"
  using next_free_spec [of i avail fs] by auto

text \<open>Frames \<open>a\<close> up to (not including) \<open>b\<close> are free.\<close>

definition run_free :: "(u32 \<Rightarrow> bool) \<Rightarrow> nat \<Rightarrow> nat \<Rightarrow> bool" where
  "run_free fs a b \<longleftrightarrow> (\<forall>k. a \<le> unat k \<and> unat k < b \<longrightarrow> \<not> fs k)"

lemma run_free_empty [simp]: "b \<le> a \<Longrightarrow> run_free fs a b"
  by (auto simp: run_free_def)

lemma run_free_Suc: "run_free fs a (unat i) \<Longrightarrow> \<not> fs i \<Longrightarrow> run_free fs a (Suc (unat i))"
  by (auto simp: run_free_def less_Suc_eq simp flip: word_unat_eq_iff)

lemma run_free_at: "run_free fs (unat i) b \<Longrightarrow> unat i < b \<Longrightarrow> \<not> fs i"
  by (simp add: run_free_def)

lemma run_free_mono: "run_free fs a b \<Longrightarrow> a \<le> a' \<Longrightarrow> b' \<le> b \<Longrightarrow> run_free fs a' b'"
  by (auto simp: run_free_def)

text \<open>One turn of the search loop of \<open>allocs\<close>.\<close>

lemma allocs_scan_used:
  "i < avail \<Longrightarrow> fs i \<Longrightarrow> unat cnt \<noteq> 1 \<Longrightarrow>
   allocs_scan fs avail cnt i start n = allocs_scan fs avail cnt (i + 1) i 1"
  by (simp add: allocs_scan.simps [of fs avail cnt i] ucast_eq_u64_iff)

lemma allocs_scan_skip:
  "i < avail \<Longrightarrow> \<not> fs i \<Longrightarrow> unat (n + 1) \<noteq> unat cnt \<Longrightarrow>
   allocs_scan fs avail cnt i start n = allocs_scan fs avail cnt (i + 1) start (n + 1)"
  by (simp add: allocs_scan.simps [of fs avail cnt i] ucast_eq_u64_iff)

lemma allocs_scan_stop:
  "i < avail \<Longrightarrow> \<not> fs i \<Longrightarrow> unat (n + 1) = unat cnt \<Longrightarrow>
   allocs_scan fs avail cnt i start n = (start, n + 1)"
  by (simp add: allocs_scan.simps [of fs avail cnt i] ucast_eq_u64_iff)

lemma allocs_scan_one:
  "i < avail \<Longrightarrow> fs i \<Longrightarrow> unat cnt = 1 \<Longrightarrow> allocs_scan fs avail cnt i start n = (i, 1)"
  by (simp add: allocs_scan.simps [of fs avail cnt i] ucast_eq_u64_iff)

lemma allocs_scan_end: "\<not> i < avail \<Longrightarrow> allocs_scan fs avail cnt i start n = (start, n)"
  by (simp add: allocs_scan.simps [of fs avail cnt i])

lemma scan_free:
  "run_free fs (unat i) (unat i + j) \<Longrightarrow> 0 < j \<Longrightarrow> unat i + j \<le> unat avail \<Longrightarrow>
   unat n + j = unat cnt \<Longrightarrow> unat n \<le> unat i \<Longrightarrow>
   \<exists>m. allocs_scan fs avail cnt i start n = (start, m) \<and> unat m = unat cnt"
proof (induction j arbitrary: i n)
  case 0
  then show ?case by simp
next
  case (Suc j)
  then have i: "i < avail" by (simp add: word_less_nat_alt)
  have fi: "\<not> fs i" by (rule run_free_at [OF Suc.prems(1)]) simp
  from i have ui: "unat (i + 1) = Suc (unat i)" by (simp add: unat_inc)
  have "n < avail" using Suc.prems(5) i by (simp add: word_less_nat_alt)
  then have un: "unat (n + 1) = Suc (unat n)" by (rule unat_inc)
  show ?case
  proof (cases "j = 0")
    case True
    with Suc.prems i fi un show ?thesis by (simp add: allocs_scan_stop)
  next
    case False
    have "run_free fs (unat (i + 1)) (unat (i + 1) + j)"
      by (rule run_free_mono [OF Suc.prems(1)]) (simp_all add: ui)
    then have "\<exists>m. allocs_scan fs avail cnt (i + 1) start (n + 1) = (start, m) \<and> unat m = unat cnt"
      using False Suc.prems(3-5) ui un by (intro Suc.IH) simp_all
    with False Suc.prems(4) i fi un show ?thesis by (simp add: allocs_scan_skip)
  qed
qed

text \<open>A run of frames in use is skipped one by one, each becoming the new start.\<close>

lemma scan_used:
  "\<forall>k. unat i \<le> unat k \<and> unat k < unat i + Suc j \<longrightarrow> fs k \<Longrightarrow> unat i + Suc j \<le> unat avail \<Longrightarrow>
   unat cnt \<noteq> 1 \<Longrightarrow>
   allocs_scan fs avail cnt i start n =
     allocs_scan fs avail cnt (i + of_nat (Suc j)) (i + of_nat j) 1"
proof (induction j arbitrary: i start n)
  case 0
  then show ?case by (simp add: allocs_scan_used word_less_nat_alt)
next
  case (Suc j)
  then have i: "i < avail" by (simp add: word_less_nat_alt)
  then have ui: "unat (i + 1) = Suc (unat i)" by (simp add: unat_inc)
  have "allocs_scan fs avail cnt i start n = allocs_scan fs avail cnt (i + 1) i 1"
    using Suc.prems i by (simp add: allocs_scan_used)
  also have "\<dots> = allocs_scan fs avail cnt (i + 1 + of_nat (Suc j)) (i + 1 + of_nat j) 1"
    using Suc.prems by (intro Suc.IH) (simp_all add: ui)
  finally show ?case by (simp add: algebra_simps)
qed

text \<open>
  Where the loop ends: either it found \<open>cnt\<close> frames of which all but the first are free (the first
  is free only when it is the frame the search started from), or it ran out of frames.
\<close>

lemma scan_result:
  assumes "s0 \<le> start" and "unat start \<le> unat i" and "i \<le> avail"
    and "unat n + unat start = unat i" and "unat n < unat cnt"
    and "run_free fs (Suc (unat start)) (unat i)"
    and "fs start \<and> unat start < unat i \<or> start = s0 \<and> run_free fs (unat start) (unat i)"
    and "allocs_scan fs avail cnt i start n = (st, m)"
  shows "s0 \<le> st \<and>
    (unat m = unat cnt \<and> unat st + unat cnt \<le> unat avail \<and>
       run_free fs (Suc (unat st)) (unat st + unat cnt) \<and>
       (fs st \<or> st = s0 \<and> run_free fs (unat st) (unat st + unat cnt)) \<or>
     unat m < unat cnt)"
  using assms
proof (induction "unat avail - unat i" arbitrary: i start n)
  case 0
  then have "\<not> i < avail" by (simp add: word_less_nat_alt)
  with 0 show ?case by (simp add: allocs_scan_end)
next
  case (Suc d)
  from Suc.hyps(2) have i: "i < avail" by (simp add: word_less_nat_alt)
  then have ui: "unat (i + 1) = Suc (unat i)" by (rule unat_inc)
  from Suc.prems(4) i have "n < avail" by (simp add: word_less_nat_alt)
  then have un: "unat (n + 1) = Suc (unat n)" by (rule unat_inc)
  have d: "d = unat avail - unat (i + 1)" and le: "i + 1 \<le> avail"
    using Suc.hyps(2) ui by (simp_all add: word_le_nat_alt)
  note IH = Suc.hyps(1) [OF d _ _ le]
  consider "fs i" "unat cnt = 1" | "fs i" "unat cnt \<noteq> 1"
    | "\<not> fs i" "unat (n + 1) = unat cnt" | "\<not> fs i" "unat (n + 1) \<noteq> unat cnt" by blast
  then show ?case
  proof cases
    case 1
    with Suc.prems i show ?thesis
      by (auto simp: allocs_scan_one word_less_nat_alt word_le_nat_alt)
  next
    case 2
    have "s0 \<le> i" using Suc.prems(1,2) by (simp add: word_le_nat_alt)
    with 2 Suc.prems i show ?thesis
      by (intro IH [of i 1]) (simp_all add: allocs_scan_used ui)
  next
    case 3
    with Suc.prems(8) i have st: "st = start" and m: "unat m = unat cnt"
      by (auto simp: allocs_scan_stop)
    from 3 Suc.prems(4) un st have sum: "unat st + unat cnt = Suc (unat i)" by simp
    have "run_free fs (Suc (unat st)) (Suc (unat i))"
      using Suc.prems(6) 3 st by (simp add: run_free_Suc)
    moreover have "fs st \<or> st = s0 \<and> run_free fs (unat st) (Suc (unat i))"
      using Suc.prems(7) 3 st by (auto simp: run_free_Suc)
    ultimately show ?thesis
      using Suc.prems(1) st m i unfolding sum by (simp add: word_less_nat_alt)
  next
    case 4
    with Suc.prems i un show ?thesis
      by (intro IH [of start "n + 1"]) (auto simp: allocs_scan_skip ui run_free_Suc)
  qed
qed

section \<open>Frame addresses\<close>

lemma unat_frame_offset:
  assumes "unat (k :: u32) < 2 ^ 20"
  shows "unat (k * FRAME_SIZE) = 4096 * unat k"
proof -
  have "4096 * unat k < 2 ^ 32" using assms by simp
  then show ?thesis by (simp add: unat_word_ariths mult.commute)
qed

lemma frame_addr_apart:
  assumes "unat k < 2 ^ 20" and "unat l < 2 ^ 20" and "k \<noteq> l"
  shows "apart (frame_addr s k) FRAME_SIZE (frame_addr s l) FRAME_SIZE"
proof -
  have "unat k \<noteq> unat l" using assms(3) by (simp flip: word_unat_eq_iff)
  then have "FRAME_SIZE \<le> frame_addr s l - frame_addr s k" and "FRAME_SIZE \<le> frame_addr s k - frame_addr s l"
    using assms(1,2) by (auto simp: frame_addr_def word_le_nat_alt unat_sub_if' unat_frame_offset)
  then show ?thesis by (simp add: apart_def)
qed

text \<open>
  The allocator's invariant. Frame numbers stay below \<open>2 ^ 20\<close>, the range in which the 32 bit
  product with \<open>FRAME_SIZE\<close> does not wrap, and the frames do not run past the end of the address
  space.
\<close>

definition frame_wf :: "'a frame_state_scheme \<Rightarrow> bool" where
  "frame_wf s \<longleftrightarrow> unat (available_frames s) \<le> 2 ^ 20 \<and> base_addr s \<noteq> 0 \<and>
     unat (base_addr s) + 4096 * unat (available_frames s) \<le> 2 ^ 64 \<and>
     latest_frame s \<le> available_frames s"

text \<open>The addresses of the frames in use.\<close>

definition taken :: "'a frame_state_scheme \<Rightarrow> u64 set" where
  "taken s = frame_addr s ` {k. k < available_frames s \<and> frames s k}"

lemma frame_number_small: "frame_wf s \<Longrightarrow> k < available_frames s \<Longrightarrow> unat k < 2 ^ 20"
  by (simp add: frame_wf_def word_less_nat_alt)

lemma unat_frame_addr:
  assumes "frame_wf s" and "k < available_frames s"
  shows "unat (frame_addr s k) = unat (base_addr s) + 4096 * unat k"
proof -
  have "unat k < 2 ^ 20" using assms by (rule frame_number_small)
  moreover have "unat (base_addr s) + 4096 * unat k < 2 ^ 64"
    using assms by (simp add: frame_wf_def word_less_nat_alt)
  ultimately show ?thesis
    by (simp add: frame_addr_def unat_word_ariths unat_frame_offset)
qed

lemma frame_addr_nonzero: "frame_wf s \<Longrightarrow> k < available_frames s \<Longrightarrow> frame_addr s k \<noteq> 0"
  by (metis add_is_0 frame_wf_def unat_eq_zero unat_frame_addr)

lemma frame_addr_inj:
  "frame_wf s \<Longrightarrow> k < available_frames s \<Longrightarrow> l < available_frames s \<Longrightarrow>
   frame_addr s k = frame_addr s l \<longleftrightarrow> k = l"
  by (metis add_left_cancel mult_cancel1 unat_frame_addr word_unat_eq_iff zero_neq_numeral)

lemma taken_iff:
  "frame_wf s \<Longrightarrow> k < available_frames s \<Longrightarrow> frame_addr s k \<in> taken s \<longleftrightarrow> frames s k"
  by (auto simp: taken_def frame_addr_inj)

section \<open>The contract of the allocator\<close>

text \<open>
  What a client of single frame allocation relies on, for an allocator over states \<open>'s\<close>: an address
  it returns is of a frame that was not in use, cleared, and apart from every frame in use.
\<close>

locale page_frames =
  fixes alloc :: "'s \<Rightarrow> u64 \<times> 's"
    and inv :: "'s \<Rightarrow> bool"
    and used :: "'s \<Rightarrow> u64 set"
    and mm :: "'s \<Rightarrow> memory"
  assumes alloc_inv: "inv s \<Longrightarrow> alloc s = (p, s') \<Longrightarrow> inv s'"
    and alloc_new: "inv s \<Longrightarrow> alloc s = (p, s') \<Longrightarrow> p \<noteq> 0 \<Longrightarrow>
                      p \<notin> used s \<and> used s' = insert p (used s)"
    and alloc_null: "inv s \<Longrightarrow> alloc s = (0, s') \<Longrightarrow> used s' = used s \<and> mm s' = mm s"
    and alloc_clear: "inv s \<Longrightarrow> alloc s = (p, s') \<Longrightarrow> p \<noteq> 0 \<Longrightarrow> mm s' = memset (mm s) p 0 FRAME_SIZE"
    and used_apart: "inv s \<Longrightarrow> p \<in> used s \<Longrightarrow> q \<in> used s \<Longrightarrow> p \<noteq> q \<Longrightarrow>
                       apart p FRAME_SIZE q FRAME_SIZE"
begin

lemma alloc_apart:
  assumes "inv s" and "alloc s = (p, s')" and "p \<noteq> 0" and "q \<in> used s"
  shows "apart p FRAME_SIZE q FRAME_SIZE"
  using assms alloc_inv alloc_new used_apart [of s' p q] by blast

lemma alloc_keeps:
  assumes "inv s" and "alloc s = (p, s')" and "q \<in> used s"
  shows "agree (mm s) (mm s') q FRAME_SIZE"
proof (cases "p = 0")
  case True
  with assms alloc_null show ?thesis by fastforce
next
  case False
  with assms alloc_clear alloc_apart show ?thesis by (metis agree_memset)
qed

lemma alloc_zero:
  assumes "inv s" and "alloc s = (p, s')" and "p \<noteq> 0" and "i < 512"
  shows "load64 (mm s') (p + 8 * word_of_nat i) = 0"
proof -
  have "unat (8 * word_of_nat i :: u64) = 8 * i"
    using assms(4) by (simp add: unat_word_ariths unsigned_of_nat take_bit_nat_eq_self)
  then have "(p + 8 * word_of_nat i) - p \<le> FRAME_SIZE" and "8 \<le> FRAME_SIZE - ((p + 8 * word_of_nat i) - p)"
    using assms(4) by (simp_all add: word_le_nat_alt unat_sub_if')
  then show ?thesis
    using alloc_clear [OF assms(1-3)] by (simp only: load64_memset_zero)
qed

lemma alloc_used_mono: "inv s \<Longrightarrow> alloc s = (p, s') \<Longrightarrow> used s \<subseteq> used s'"
  using alloc_new alloc_null by (cases "p = 0") blast+

end

section \<open>Single frames\<close>

lemma Frame_alloc_cases [consumes 2, case_names found exhausted]:
  assumes "frame_wf s" and "Frame_alloc s = (p, s')"
  obtains (found) l where "l < available_frames s" and "latest_frame s \<le> l" and "\<not> frames s l"
      and "p = frame_addr s l" and "\<And>k. latest_frame s \<le> k \<Longrightarrow> k < l \<Longrightarrow> frames s k"
      and "s' = s\<lparr>frames := (frames s)(l := True), latest_frame := l + 1,
                 mem := memset (mem s) p 0 FRAME_SIZE\<rparr>"
    | (exhausted) "\<And>k. latest_frame s \<le> k \<Longrightarrow> k < available_frames s \<Longrightarrow> frames s k"
      and "p = 0" and "s' = s\<lparr>latest_frame := available_frames s\<rparr>"
proof (cases "next_free (frames s) (available_frames s) (latest_frame s) = available_frames s")
  case True
  have le: "latest_frame s \<le> available_frames s" using assms(1) by (simp add: frame_wf_def)
  show ?thesis
  proof (rule exhausted)
    show "frames s k" if "latest_frame s \<le> k" "k < available_frames s" for k
      using next_free_used [OF le that(1), of "frames s"] that(2) True by simp
  qed (use True assms(2) in \<open>auto simp: Frame_alloc_def Let_def\<close>)
next
  case False
  have le: "latest_frame s \<le> available_frames s" using assms(1) by (simp add: frame_wf_def)
  let ?l = "next_free (frames s) (available_frames s) (latest_frame s)"
  show ?thesis
    using False assms(2) next_free_ge [OF le, of "frames s"] next_free_le [OF le, of "frames s"]
      next_free_free [OF le False] next_free_used [OF le]
    by (intro found [of ?l]) (auto simp: Frame_alloc_def Let_def)
qed

lemma frame_wf_latest: "frame_wf s \<Longrightarrow> l \<le> available_frames s \<Longrightarrow> frame_wf (s\<lparr>latest_frame := l\<rparr>)"
  by (simp add: frame_wf_def)

lemma frame_addr_cong [simp]:
  "frame_addr (s\<lparr>frames := fs\<rparr>) = frame_addr s"
  "frame_addr (s\<lparr>latest_frame := l\<rparr>) = frame_addr s"
  "frame_addr (s\<lparr>mem := m\<rparr>) = frame_addr s"
  by (simp_all add: frame_addr_def fun_eq_iff)

lemma frame_wf_cong [simp]:
  "frame_wf (s\<lparr>frames := fs\<rparr>) = frame_wf s"
  "frame_wf (s\<lparr>mem := m\<rparr>) = frame_wf s"
  by (simp_all add: frame_wf_def)

lemma taken_cong [simp]:
  "taken (s\<lparr>latest_frame := l\<rparr>) = taken s"
  "taken (s\<lparr>mem := m\<rparr>) = taken s"
  by (simp_all add: taken_def)

lemma taken_mark:
  "l < available_frames s \<Longrightarrow> taken (s\<lparr>frames := (frames s)(l := True)\<rparr>) = insert (frame_addr s l) (taken s)"
  by (auto simp: taken_def)

lemma taken_clear:
  assumes "frame_wf s" and "l < available_frames s"
  shows "taken (s\<lparr>frames := (frames s)(l := False)\<rparr>) = taken s - {frame_addr s l}"
  using assms by (auto simp: taken_def frame_addr_inj)

interpretation fa: page_frames Frame_alloc frame_wf taken mem
proof
  fix s :: "'a frame_state_scheme" and p s'
  assume wf: "frame_wf s" and al: "Frame_alloc s = (p, s')"
  show "frame_wf s'"
    using wf al by (cases rule: Frame_alloc_cases) (use wf in \<open>auto simp: frame_wf_def inc_le\<close>)
  show "p \<notin> taken s \<and> taken s' = insert p (taken s)" if "p \<noteq> 0"
    using wf al by (cases rule: Frame_alloc_cases) (use that wf in \<open>auto simp: taken_iff taken_mark\<close>)
  show "mem s' = memset (mem s) p 0 FRAME_SIZE" if "p \<noteq> 0"
    using wf al by (cases rule: Frame_alloc_cases) (use that in auto)
next
  fix s s' :: "'a frame_state_scheme"
  assume wf: "frame_wf s" and al: "Frame_alloc s = (0, s')"
  show "taken s' = taken s \<and> mem s' = mem s"
    using wf al by (cases rule: Frame_alloc_cases) (use wf in \<open>auto simp: frame_addr_nonzero dest: sym\<close>)
next
  fix s :: "'a frame_state_scheme" and p q
  assume wf: "frame_wf s" and "p \<in> taken s" "q \<in> taken s" "p \<noteq> q"
  then show "apart p FRAME_SIZE q FRAME_SIZE"
    by (auto simp: taken_def intro!: frame_addr_apart dest!: frame_number_small [OF wf])
qed

lemma frame_num_of_addr:
  assumes "frame_wf s" and "k < available_frames s"
  shows "ucast (frame_addr s k - base_addr s) div FRAME_SIZE = (k :: u32)"
proof -
  have small: "unat k < 2 ^ 20" using assms by (rule frame_number_small)
  have "ucast (frame_addr s k - base_addr s) = k * FRAME_SIZE"
    by (simp add: frame_addr_def)
  moreover have "unat (k * FRAME_SIZE div FRAME_SIZE) = unat k"
    using small by (simp add: unat_div unat_frame_offset)
  ultimately show ?thesis by (simp flip: word_unat_eq_iff)
qed

lemma Frame_free_frame:
  assumes "frame_wf s" and "k < available_frames s"
  shows "Frame_free (frame_addr s k) s = s\<lparr>frames := (frames s)(k := False), latest_frame := k\<rparr>"
  using frame_num_of_addr [OF assms] by (simp add: Frame_free_def Let_def)

lemma frame_wf_free:
  "frame_wf s \<Longrightarrow> k < available_frames s \<Longrightarrow> frame_wf (Frame_free (frame_addr s k) s)"
  by (simp add: Frame_free_frame frame_wf_def)

text \<open>
  (C1) \<open>Mem::Frame::alloc\<close>: while a frame from the search position on is free, the call returns the
  address of a frame that was not in use, now in use and cleared, and leaves every other frame in
  use as it was; otherwise it returns the null pointer and changes neither memory nor the frames in
  use. The allocator's invariant is kept in both cases.
\<close>

theorem Frame_alloc_correct:
  assumes "frame_wf s" and "Frame_alloc s = (p, s')"
  shows "frame_wf s' \<and>
    (if \<exists>k. latest_frame s \<le> k \<and> k < available_frames s \<and> \<not> frames s k
     then p \<noteq> 0 \<and> p \<notin> taken s \<and> taken s' = insert p (taken s) \<and>
          (\<forall>x. mem s' x = (if x - p < FRAME_SIZE then 0 else mem s x)) \<and>
          (\<forall>q \<in> taken s. apart p FRAME_SIZE q FRAME_SIZE)
     else p = 0 \<and> taken s' = taken s \<and> mem s' = mem s)"
  using assms
proof (cases rule: Frame_alloc_cases)
  case (found l)
  then have "p \<noteq> 0" using assms(1) by (simp add: frame_addr_nonzero)
  moreover have "\<exists>k. latest_frame s \<le> k \<and> k < available_frames s \<and> \<not> frames s k"
    using found by blast
  ultimately show ?thesis
    using fa.alloc_inv [OF assms] fa.alloc_new [OF assms] fa.alloc_apart [OF assms]
      fa.alloc_clear [OF assms] by (simp add: memset_def)
next
  case exhausted
  then show ?thesis
    using fa.alloc_inv [OF assms] by auto
qed

text \<open>
  (C13) \<open>Mem::Frame::free\<close> gives a frame back: it is no longer in use, no other frame changes, and the
  next \<open>alloc\<close> returns that same frame, cleared.
\<close>

theorem Frame_free_alloc:
  assumes "frame_wf s" and "k < available_frames s"
  shows "taken (Frame_free (frame_addr s k) s) = taken s - {frame_addr s k} \<and>
         frame_wf (Frame_free (frame_addr s k) s) \<and>
         (\<exists>s'. Frame_alloc (Frame_free (frame_addr s k) s) = (frame_addr s k, s') \<and>
            taken s' = insert (frame_addr s k) (taken s) \<and>
            mem s' = memset (mem s) (frame_addr s k) 0 FRAME_SIZE)"
proof -
  let ?t = "Frame_free (frame_addr s k) s"
  have "next_free ((frames s)(k := False)) (available_frames s) k = k"
    by (simp add: next_free.simps)
  then have "Frame_alloc ?t = (frame_addr s k, s\<lparr>frames := (frames s)(k := True), latest_frame := k + 1,
      mem := memset (mem s) (frame_addr s k) 0 FRAME_SIZE\<rparr>)"
    using less_imp_neq [OF assms(2)] by (simp add: Frame_free_frame [OF assms] Frame_alloc_def Let_def)
  then show ?thesis
    using frame_wf_free [OF assms] assms
    by (simp add: Frame_free_frame taken_clear taken_mark)
qed

text \<open>The number of free frames the search has not passed: what \<open>alloc\<close> can still hand out.\<close>

definition free_ahead :: "'a frame_state_scheme \<Rightarrow> nat" where
  "free_ahead s = card {k. latest_frame s \<le> k \<and> k < available_frames s \<and> \<not> frames s k}"

lemma free_ahead_alloc:
  assumes "frame_wf s" and "Frame_alloc s = (p, s')" and "0 < free_ahead s"
  shows "p \<noteq> 0" and "free_ahead s = Suc (free_ahead s')"
proof -
  let ?A = "\<lambda>s. {k. latest_frame s \<le> k \<and> k < available_frames s \<and> \<not> frames s k}"
  have "?A s \<noteq> {}" using assms(3) unfolding free_ahead_def by (intro notI) simp
  with assms(1,2) have "p \<noteq> 0 \<and> free_ahead s = Suc (free_ahead s')"
  proof (cases rule: Frame_alloc_cases)
    case (found l)
    have "?A s' = ?A s - {l}"
    proof -
      have "k \<in> ?A s' \<longleftrightarrow> k \<in> ?A s - {l}" for k
      proof -
        have "l + 1 \<le> k \<longleftrightarrow> l < k" using unat_inc [OF found(1)] by (simp add: word_le_nat_alt word_less_nat_alt Suc_le_eq)
        then show ?thesis using found(2,5,6) by auto
      qed
      then show ?thesis by blast
    qed
    moreover have "l \<in> ?A s" using found by simp
    then have "card (?A s) = Suc (card (?A s - {l}))" by (intro card.remove) simp_all
    ultimately show ?thesis
      using found(1,4) assms(1) unfolding free_ahead_def by (simp add: frame_addr_nonzero)
  qed auto
  then show "p \<noteq> 0" and "free_ahead s = Suc (free_ahead s')" by auto
qed

text \<open>
  The frames from \<open>u\<close> on are free and those between the search position and \<open>u\<close> in use, as after any sequence of
  allocations from an empty allocator. After a call of \<open>alloc\<close> that finds a frame, \<open>u\<close> is the search position.
\<close>

definition frontier :: "'a frame_state_scheme \<Rightarrow> u32 \<Rightarrow> bool" where
  "frontier s u \<longleftrightarrow> latest_frame s \<le> u \<and> u \<le> available_frames s \<and>
     (\<forall>k. latest_frame s \<le> k \<and> k < u \<longrightarrow> frames s k) \<and> (\<forall>k. u \<le> k \<and> k < available_frames s \<longrightarrow> \<not> frames s k)"

definition ahead_free :: "'a frame_state_scheme \<Rightarrow> bool" where
  "ahead_free s \<longleftrightarrow> frontier s (latest_frame s)"

lemma alloc_frontier:
  assumes wf: "frame_wf s" and al: "Frame_alloc s = (p, s')" and fr: "frontier s u" and u: "u < available_frames s"
  shows "ahead_free s'"
  using wf al
proof (cases rule: Frame_alloc_cases)
  case (found l)
  have "l = u"
  proof (rule ccontr)
    assume "l \<noteq> u"
    then consider "l < u" | "u < l" by force
    then show False using fr u found(2,3,5) by cases (auto simp: frontier_def)
  qed
  moreover have "unat (l + 1) = Suc (unat l)" using found(1) by (rule unat_inc)
  ultimately show ?thesis
    using fr found(1) by (auto simp: found(6) ahead_free_def frontier_def word_le_nat_alt word_less_nat_alt)
next
  case exhausted
  then show ?thesis by (auto simp: ahead_free_def frontier_def)
qed

lemma alloc_ahead_free:
  assumes "frame_wf s" and "Frame_alloc s = (p, s')" and "ahead_free s"
  shows "ahead_free s'"
proof (cases "latest_frame s < available_frames s")
  case True
  then show ?thesis using alloc_frontier [OF assms(1,2)] assms(3) by (simp add: ahead_free_def)
next
  case False
  from assms(1,2) show ?thesis
  proof (cases rule: Frame_alloc_cases)
    case (found l)
    then show ?thesis using False by (meson le_less_trans)
  next
    case exhausted
    then show ?thesis by (auto simp: ahead_free_def frontier_def)
  qed
qed

lemma free_ahead_frontier:
  assumes "frontier s u"
  shows "free_ahead s = unat (available_frames s) - unat u"
proof -
  have "{k. latest_frame s \<le> k \<and> k < available_frames s \<and> \<not> frames s k} = {k. u \<le> k \<and> k < available_frames s}"
    using assms by (auto simp: frontier_def not_le)
  then show ?thesis by (simp add: free_ahead_def card_word_range)
qed

section \<open>Runs of frames\<close>

lemma mark_frames_eq:
  "unat i + k \<le> 2 ^ 32 \<Longrightarrow>
   mark_frames fs i k = (\<lambda>j. fs j \<or> unat i \<le> unat j \<and> unat j < unat i + k)"
proof (induction k arbitrary: fs i)
  case 0
  then show ?case by auto
next
  case (Suc k)
  show ?case
  proof (cases "k = 0")
    case True
    then show ?thesis by (auto simp: fun_eq_iff word_unat_eq_iff)
  next
    case False
    then have "unat (i + 1) = Suc (unat i)" using Suc.prems by (simp add: unat_plus_if')
    with Suc.prems False show ?thesis
      by (auto simp: Suc.IH fun_eq_iff le_eq_less_or_eq Suc_le_eq simp flip: word_unat_eq_iff)
  qed
qed

lemma Frame_allocs_found:
  assumes "allocs_scan (frames s) (available_frames s) cnt (latest_frame s) (latest_frame s) 0 = (st, n)"
    and "unat n = unat cnt"
  shows "Frame_allocs cnt s = (frame_addr s st, s\<lparr>frames := mark_frames (frames s) st (unat cnt),
           latest_frame := latest_frame s + 1, mem := memset (mem s) (frame_addr s st) 0 (cnt * FRAME_SIZE)\<rparr>)"
  using assms by (simp add: Frame_allocs_def ucast_less_u64_iff Let_def)

lemma scan_start:
  assumes "frame_wf s" and "0 < unat cnt"
    and "allocs_scan (frames s) (available_frames s) cnt (latest_frame s) (latest_frame s) 0 = (st, n)"
  shows "latest_frame s \<le> st \<and>
    (unat n = unat cnt \<and> unat st + unat cnt \<le> unat (available_frames s) \<and>
       run_free (frames s) (Suc (unat st)) (unat st + unat cnt) \<and>
       (frames s st \<or> st = latest_frame s \<and> run_free (frames s) (unat st) (unat st + unat cnt)) \<or>
     unat n < unat cnt)"
  using assms by (intro scan_result) (auto simp: frame_wf_def)

text \<open>
  (C21) \<open>Mem::Frame::allocs\<close>, called for at least one frame: it either returns the null pointer and
  changes nothing, or marks and clears \<open>cnt\<close> consecutive frames inside the allocator's range, of
  which all but the first were free. The first one was free exactly when the search position itself
  starts a free run; otherwise the block begins with a frame that is in use.
\<close>

theorem Frame_allocs_run:
  assumes "frame_wf s" and "0 < unat cnt" and "Frame_allocs cnt s = (p, s')"
  shows "p = 0 \<and> s' = s \<or>
    (\<exists>st. latest_frame s \<le> st \<and> unat st + unat cnt \<le> unat (available_frames s) \<and>
       p = frame_addr s st \<and> p \<noteq> 0 \<and> frame_wf s' \<and>
       run_free (frames s) (Suc (unat st)) (unat st + unat cnt) \<and>
       (frames s st \<or> st = latest_frame s \<and> run_free (frames s) (unat st) (unat st + unat cnt)) \<and>
       frames s' = (\<lambda>k. frames s k \<or> unat st \<le> unat k \<and> unat k < unat st + unat cnt) \<and>
       mem s' = memset (mem s) p 0 (cnt * FRAME_SIZE))"
proof -
  obtain st n where scan:
    "allocs_scan (frames s) (available_frames s) cnt (latest_frame s) (latest_frame s) 0 = (st, n)"
    by fastforce
  note spec = scan_start [OF assms(1,2) scan]
  show ?thesis
  proof (cases "unat n < unat cnt")
    case True
    then show ?thesis
      using assms(3) scan by (simp add: Frame_allocs_def ucast_less_u64_iff)
  next
    case False
    with spec have n: "unat n = unat cnt" and fit: "unat st + unat cnt \<le> unat (available_frames s)"
      by auto
    then have st: "st < available_frames s" using assms(2) by (simp add: word_less_nat_alt)
    have "unat (latest_frame s + 1) \<le> unat (available_frames s)"
      using spec st unat_inc [of "latest_frame s" "available_frames s"]
      by (auto simp: word_le_nat_alt word_less_nat_alt)
    then have wf: "frame_wf (s\<lparr>latest_frame := latest_frame s + 1\<rparr>)"
      using assms(1) by (simp add: frame_wf_def word_le_nat_alt)
    have "unat st + unat cnt \<le> 2 ^ 32"
      using fit assms(1) by (simp add: frame_wf_def)
    then show ?thesis
      using spec n fit st wf assms(1,3) Frame_allocs_found [OF scan n]
      by (auto simp: mark_frames_eq frame_addr_nonzero frame_wf_def)
  qed
qed

text \<open>
  A run of frames in use at the search position: \<open>allocs\<close> returns a block that starts with the last
  of them.
\<close>

lemma Frame_allocs_after_used:
  assumes "\<forall>k. unat (latest_frame s) \<le> unat k \<and> unat k < unat (latest_frame s) + Suc u \<longrightarrow> frames s k"
    and "run_free (frames s) (unat (latest_frame s) + Suc u) (unat (latest_frame s) + u + unat cnt)"
    and "2 \<le> unat cnt" and "unat (latest_frame s) + u + unat cnt \<le> unat (available_frames s)"
  shows "Frame_allocs cnt s = (frame_addr s (latest_frame s + of_nat u),
           s\<lparr>frames := mark_frames (frames s) (latest_frame s + of_nat u) (unat cnt),
             latest_frame := latest_frame s + 1,
             mem := memset (mem s) (frame_addr s (latest_frame s + of_nat u)) 0 (cnt * FRAME_SIZE)\<rparr>)"
proof -
  let ?l = "latest_frame s" and ?a = "available_frames s"
  have lt: "unat ?l + Suc u < 2 ^ 32"
    using assms(3,4) unsigned_less [of ?a, where 'a = nat] by simp
  then have "unat (of_nat (Suc u) :: u32) = Suc u"
    by (simp add: unsigned_of_nat take_bit_nat_eq_self del: of_nat_Suc)
  with lt have nx: "unat (?l + of_nat (Suc u)) = unat ?l + Suc u"
    by (simp add: unat_plus_if' del: of_nat_Suc)
  have "allocs_scan (frames s) ?a cnt ?l ?l 0 =
        allocs_scan (frames s) ?a cnt (?l + of_nat (Suc u)) (?l + of_nat u) 1"
    using assms by (intro scan_used) simp_all
  moreover have "\<exists>m. allocs_scan (frames s) ?a cnt (?l + of_nat (Suc u)) (?l + of_nat u) 1 =
      (?l + of_nat u, m) \<and> unat m = unat cnt"
    using assms(2-4) by (intro scan_free [where j = "unat cnt - 1"]) (simp_all add: nx del: of_nat_Suc)
  ultimately show ?thesis
    using Frame_allocs_found by metis
qed

lemma Frame_allocs_free_run:
  assumes "run_free (frames s) (unat (latest_frame s)) (unat (latest_frame s) + unat cnt)"
    and "0 < unat cnt" and "unat (latest_frame s) + unat cnt \<le> unat (available_frames s)"
  shows "Frame_allocs cnt s = (frame_addr s (latest_frame s),
           s\<lparr>frames := mark_frames (frames s) (latest_frame s) (unat cnt),
             latest_frame := latest_frame s + 1,
             mem := memset (mem s) (frame_addr s (latest_frame s)) 0 (cnt * FRAME_SIZE)\<rparr>)"
  using scan_free [OF assms, of 0 cnt "latest_frame s"] Frame_allocs_found by force

lemma frame_addr_diff:
  assumes "frame_wf s" and "unat k + n < unat (available_frames s)"
  shows "frame_addr s (k + of_nat n) = frame_addr s k + of_nat n * FRAME_SIZE"
proof -
  have k: "k < available_frames s" and n32: "n < 2 ^ 32" and n64: "n < 2 ^ 64"
    and fits: "unat (base_addr s) + 4096 * (unat k + n) < 2 ^ 64"
    using assms by (auto simp: word_less_nat_alt frame_wf_def)
  have un: "unat (of_nat n :: u32) = n" and un64: "unat (of_nat n :: u64) = n"
    using n32 n64 by (simp_all add: unsigned_of_nat take_bit_nat_eq_self)
  have kn: "unat (k + of_nat n) = unat k + n"
    using assms by (subst unat_plus_if') (simp add: un frame_wf_def)
  have "k + of_nat n < available_frames s" using assms(2) kn by (simp add: word_less_nat_alt)
  then have "unat (frame_addr s (k + of_nat n)) = unat (base_addr s) + 4096 * (unat k + n)"
    using unat_frame_addr [OF assms(1)] kn by simp
  moreover have "unat (of_nat n * FRAME_SIZE :: u64) = n * 4096"
    using fits by (simp add: unat_word_ariths un64)
  then have "unat (frame_addr s k + of_nat n * FRAME_SIZE) = unat (base_addr s) + 4096 * (unat k + n)"
    using unat_frame_addr [OF assms(1) k] fits by (subst unat_plus_if') simp
  ultimately show ?thesis by (simp add: word_unat_eq_iff)
qed

lemma allocs_second_block:
  assumes wf: "frame_wf s" and c: "2 \<le> unat c" and d: "2 \<le> unat d"
    and free: "run_free (frames s) (unat (latest_frame s)) (unat (latest_frame s) + unat c + unat d - 1)"
    and fits: "unat (latest_frame s) + unat c + unat d - 1 \<le> unat (available_frames s)"
    and first: "Frame_allocs c s = (p, s1)" and second: "Frame_allocs d s1 = (q, s2)"
  shows "p \<noteq> 0 \<and> q = p + (c - 1) * FRAME_SIZE \<and>
         \<not> apart p (c * FRAME_SIZE) q (d * FRAME_SIZE)"
proof -
  let ?l = "latest_frame s"
  have l: "?l < available_frames s" and small: "unat c \<le> 2 ^ 20"
    using c d fits wf by (auto simp: word_less_nat_alt frame_wf_def)
  have l1: "unat (?l + 1) = Suc (unat ?l)" using l by (rule unat_inc)
  have "run_free (frames s) (unat ?l) (unat ?l + unat c)"
    using free by (rule run_free_mono) (use d in simp_all)
  then have "Frame_allocs c s = (frame_addr s ?l, s\<lparr>frames := mark_frames (frames s) ?l (unat c),
      latest_frame := ?l + 1, mem := memset (mem s) (frame_addr s ?l) 0 (c * FRAME_SIZE)\<rparr>)"
    using c d fits by (intro Frame_allocs_free_run) simp_all
  with first have s1: "p = frame_addr s ?l" "s1 = s\<lparr>frames := mark_frames (frames s) ?l (unat c),
      latest_frame := ?l + 1, mem := memset (mem s) (frame_addr s ?l) 0 (c * FRAME_SIZE)\<rparr>"
    by auto
  have marked: "frames s1 = (\<lambda>k. frames s k \<or> unat ?l \<le> unat k \<and> unat k < unat ?l + unat c)"
  proof -
    have "unat ?l + unat c \<le> 2 ^ 32" using d fits wf by (auto simp: frame_wf_def)
    then show ?thesis using s1 by (simp add: mark_frames_eq)
  qed
  have lat: "latest_frame s1 = ?l + 1" and av: "available_frames s1 = available_frames s"
    using s1 by simp_all
  have "run_free (frames s) (unat ?l + unat c) (unat ?l + unat c + unat d - 1)"
    using free by (rule run_free_mono) simp_all
  then have "run_free (frames s1) (unat ?l + unat c) (unat ?l + unat c + unat d - 1)"
    by (auto simp: run_free_def marked)
  moreover have "unat ?l + unat c = Suc (unat ?l) + Suc (unat c - 2)"
    and "unat ?l + unat c + unat d - 1 = Suc (unat ?l) + (unat c - 2) + unat d"
    using c by simp_all
  ultimately have "run_free (frames s1) (unat (?l + 1) + Suc (unat c - 2)) (unat (?l + 1) + (unat c - 2) + unat d)"
    unfolding l1 by (simp only:)
  then have "fst (Frame_allocs d s1) = frame_addr s1 (latest_frame s1 + of_nat (unat c - 2))"
    using c d fits
    by (subst Frame_allocs_after_used [where u = "unat c - 2"]) (auto simp: marked lat av l1)
  with second have "q = frame_addr s1 (latest_frame s1 + of_nat (unat c - 2))" by simp
  also have "\<dots> = frame_addr s (?l + of_nat (unat c - 1))"
  proof -
    have "unat c - 1 = Suc (unat c - 2)" using c by simp
    then have "(of_nat (unat c - 1) :: u32) = 1 + of_nat (unat c - 2)" by (metis of_nat_Suc)
    then show ?thesis using s1 by (simp add: algebra_simps)
  qed
  also have "\<dots> = p + of_nat (unat c - 1) * FRAME_SIZE"
    using s1 wf d fits by (simp add: frame_addr_diff)
  also have "(of_nat (unat c - 1) :: u64) = c - 1"
    using c by (simp add: of_nat_diff)
  finally have q: "q = p + (c - 1) * FRAME_SIZE" .
  have "\<not> c * FRAME_SIZE \<le> q - p"
  proof -
    have "unat (c * FRAME_SIZE) = 4096 * unat c" and "unat ((c - 1) * FRAME_SIZE) = 4096 * (unat c - 1)"
      using small c by (simp_all add: unat_word_ariths unat_sub_if' mult.commute)
    then show ?thesis using q c by (simp add: word_le_nat_alt)
  qed
  then show ?thesis
    using q s1 wf l by (simp add: apart_def frame_addr_nonzero)
qed

text \<open>
  (C29) Two calls of \<open>allocs\<close> in a row, each for at least two frames, from a search position in front
  of enough free frames: the second block starts at the last frame of the first block, so the two
  blocks the kernel holds share a frame (and the second call clears it).
\<close>

theorem Frame_allocs_overlap:
  assumes wf: "frame_wf s" and c: "2 \<le> unat c" and d: "2 \<le> unat d"
    and free: "run_free (frames s) (unat (latest_frame s)) (unat (latest_frame s) + unat c + unat d - 1)"
    and fits: "unat (latest_frame s) + unat c + unat d - 1 \<le> unat (available_frames s)"
    and first: "Frame_allocs c s = (p, s1)" and second: "Frame_allocs d s1 = (q, s2)"
  shows "p \<noteq> 0 \<and> q = p + (c - 1) * FRAME_SIZE \<and>
         \<not> apart p (c * FRAME_SIZE) q (d * FRAME_SIZE)"
  using allocs_second_block [OF assms] .

text \<open>
  (C30) The product \<open>latest_frame * FRAME_SIZE\<close> is taken at 32 bits: from frame \<open>2 ^ 20\<close> (4 GiB) on it
  wraps, and \<open>alloc\<close> returns the address of frame \<open>k\<close> for frame \<open>2 ^ 20 + k\<close>, also when frame \<open>k\<close> is
  in use.
\<close>

theorem Frame_alloc_aliases:
  assumes "latest_frame s = 0x100000 + k" and "latest_frame s < available_frames s"
    and "\<not> frames s (latest_frame s)" and "k < available_frames s" and "frames s k"
  shows "fst (Frame_alloc s) = frame_addr s k \<and> fst (Frame_alloc s) \<in> taken s"
proof -
  have "next_free (frames s) (available_frames s) (latest_frame s) = latest_frame s"
    using assms(3) by (simp add: next_free.simps)
  then have "fst (Frame_alloc s) = frame_addr s (0x100000 + k)"
    using assms(1) less_imp_neq [OF assms(2)] by (simp add: Frame_alloc_def Let_def)
  also have "\<dots> = frame_addr s k"
  proof -
    have "(0x100000000 :: u32) = 0" by simp
    then have "(0x100000 + k) * FRAME_SIZE = k * FRAME_SIZE" by (simp add: distrib_right)
    then show ?thesis unfolding frame_addr_def by (simp only:)
  qed
  finally show ?thesis using assms(4,5) by (simp add: taken_def)
qed

text \<open>
  \<open>free\<close> moves the search position to the freed frame, forwards as well as back: with every frame
  above \<open>k\<close> in use, freeing a lower frame \<open>j\<close> and then \<open>k\<close> lets \<open>alloc\<close> return \<open>k\<close> once and then the
  null pointer, although frame \<open>j\<close> is free.
\<close>

theorem Frame_alloc_misses_freed:
  assumes wf: "frame_wf s" and j: "j < k" and k: "k < available_frames s"
    and above: "\<And>i. k < i \<Longrightarrow> i < available_frames s \<Longrightarrow> frames s i"
    and s1: "s1 = Frame_free (frame_addr s j) s" and s2: "s2 = Frame_free (frame_addr s k) s1"
    and al: "Frame_alloc s2 = (p, s3)" and al2: "Frame_alloc s3 = (q, s4)"
  shows "p = frame_addr s k \<and> q = 0 \<and> \<not> frames s4 j"
proof -
  have j': "j < available_frames s" using j k by simp
  have "frame_wf s1" using wf j' s1 by (simp add: frame_wf_free)
  moreover have "frame_addr s1 k = frame_addr s k" "available_frames s1 = available_frames s"
    using wf j' s1 by (simp_all add: Frame_free_frame)
  ultimately have "s2 = s1\<lparr>frames := (frames s1)(k := False), latest_frame := k\<rparr>"
    using s2 k Frame_free_frame [of s1 k] by simp
  moreover have "s1 = s\<lparr>frames := (frames s)(j := False), latest_frame := j\<rparr>"
    using wf j' s1 by (simp add: Frame_free_frame)
  ultimately have s2': "s2 = s\<lparr>frames := (frames s)(j := False, k := False), latest_frame := k\<rparr>"
    by simp
  have "next_free ((frames s)(j := False, k := False)) (available_frames s) k = k"
    by (simp add: next_free.simps)
  then have p: "p = frame_addr s k" and s3: "s3 = s\<lparr>frames := (frames s)(j := False, k := True),
      latest_frame := k + 1, mem := memset (mem s) p 0 FRAME_SIZE\<rparr>"
    using al less_imp_neq [OF k] by (auto simp: s2' Frame_alloc_def Let_def)
  have "frame_wf s3" using wf k by (simp add: s3 frame_wf_def inc_le)
  then have "q = 0 \<and> s4 = s3\<lparr>latest_frame := available_frames s3\<rparr>"
    using al2
  proof (cases rule: Frame_alloc_cases)
    case (found l)
    then have "k < l" using unat_inc [OF k] by (auto simp: s3 word_less_nat_alt word_le_nat_alt)
    with found above j show ?thesis by (simp add: s3 split: if_splits)
  qed simp
  with p j show ?thesis by (simp add: s3)
qed

text \<open>
  (C18) \<open>Mem::Frame::init\<close> at boot, when the first memory map entry holds at most \<open>2 ^ 20\<close> frames of the
  address space: the call returns and establishes the allocator's invariant. Only as many bytes of
  the array are cleared as the second entry has frames; above that number a frame's state is
  whatever the memory held before.
\<close>

theorem Frame_init_establishes:
  assumes "memmap_entries s = a # b # rest" and "latest_frame s = 0"
    and "unat (me_length a) div 4096 \<le> 2 ^ 20" and "hhdm_addr s + me_base a \<noteq> 0"
    and "unat (hhdm_addr s + me_base a) + unat (me_length a) \<le> 2 ^ 64"
  shows "\<exists>s'. Frame_init s = Inr s' \<and> frame_wf s' \<and>
           unat (available_frames s') = unat (me_length a) div 4096 \<and>
           (\<forall>k. frames s' k = (unat (me_length b) div 4096 \<le> unat k \<and> frames s k))"
proof -
  have avail: "unat (ucast (me_length a div FRAME_SIZE) :: u32) = unat (me_length a) div 4096"
    using assms(3) by (simp add: unsigned_ucast_eq unat_div take_bit_nat_eq_self)
  have "4096 * (unat (me_length a) div 4096) \<le> unat (me_length a)" by simp
  with assms(5) have fits: "unat (hhdm_addr s + me_base a) + 4096 * (unat (me_length a) div 4096) \<le> 2 ^ 64"
    by linarith
  show ?thesis
    using assms avail fits
    by (auto simp: Frame_init_def Let_def frame_wf_def PHYS2VIRT_def ucast_less_u64_iff unat_div)
qed

section \<open>Witnesses\<close>

text \<open>A small machine: eight frames from \<open>0xffff800000100000\<close>, the first two in use.\<close>

definition ex_frames :: frame_state where
  "ex_frames = \<lparr>mem = (\<lambda>_. 7), boot_name = ''Limine'', boot_version = ''9'',
     memmap_entries = [\<lparr>me_base = 0x100000, me_length = 0x8000, me_type = LIMINE_MEMMAP_USABLE\<rparr>,
                       \<lparr>me_base = 0x200000, me_length = 0x10000, me_type = LIMINE_MEMMAP_USABLE\<rparr>],
     hhdm_addr = 0xffff800000000000, kern_address_virt = 0xffffffff80000000,
     kern_address_phys = 0x400000, fb_info = 0, kernel_file = 0, rsdp_addr = 0,
     frames = (\<lambda>k. k < 2), nframes = 16, latest_frame = 0, available_frames = 8,
     base_addr = 0xffff800000100000\<rparr>"

lemma ex_frames_sel [simp]:
  "memmap_entries ex_frames = [\<lparr>me_base = 0x100000, me_length = 0x8000, me_type = LIMINE_MEMMAP_USABLE\<rparr>,
                       \<lparr>me_base = 0x200000, me_length = 0x10000, me_type = LIMINE_MEMMAP_USABLE\<rparr>]"
  "hhdm_addr ex_frames = 0xffff800000000000" "mem ex_frames = (\<lambda>_. 7)"
  "frames ex_frames = (\<lambda>k. k < 2)" "latest_frame ex_frames = 0" "available_frames ex_frames = 8"
  "base_addr ex_frames = 0xffff800000100000"
  by (simp_all add: ex_frames_def)

lemma ex_frames_wf [simp]: "frame_wf ex_frames"
  by (simp add: frame_wf_def)

theorem Frame_alloc_correct_witness:
  "frame_wf ex_frames \<and> fst (Frame_alloc ex_frames) = 0xffff800000102000 \<and>
   0xffff800000102000 \<notin> taken ex_frames \<and> frame_wf (snd (Frame_alloc ex_frames))"
proof -
  have p: "fst (Frame_alloc ex_frames) = 0xffff800000102000"
    by (simp add: Frame_alloc_def frame_addr_def next_free.simps)
  have "\<exists>k. latest_frame ex_frames \<le> k \<and> k < available_frames ex_frames \<and> \<not> frames ex_frames k"
    by (rule exI [of _ 5]) simp
  with p Frame_alloc_correct [OF ex_frames_wf prod.collapse [symmetric]] show ?thesis by auto
qed

theorem Frame_free_alloc_witness:
  "frame_wf ex_frames \<and> 1 < available_frames ex_frames \<and>
   taken (Frame_free 0xffff800000101000 ex_frames) = taken ex_frames - {0xffff800000101000}"
proof -
  have "frame_addr ex_frames 1 = 0xffff800000101000" by (simp add: frame_addr_def)
  with Frame_free_alloc [OF ex_frames_wf, of 1] show ?thesis by simp
qed

theorem Frame_allocs_run_witness:
  "frame_wf ex_frames \<and> fst (Frame_allocs 2 ex_frames) = 0xffff800000101000 \<and> frames ex_frames 1 \<and>
   frame_wf (snd (Frame_allocs 2 ex_frames))"
proof -
  have p: "fst (Frame_allocs 2 ex_frames) = 0xffff800000101000"
    by (simp add: Frame_allocs_def frame_addr_def allocs_scan.simps)
  have "0 < unat (2 :: u64)" by simp
  with p Frame_allocs_run [OF ex_frames_wf _ prod.collapse [symmetric], of 2] show ?thesis by auto
qed

definition ex_frames_two :: frame_state where
  "ex_frames_two = ex_frames\<lparr>latest_frame := 2\<rparr>"

theorem Frame_allocs_overlap_witness:
  "frame_wf ex_frames_two \<and> run_free (frames ex_frames_two) 2 6 \<and>
   fst (Frame_allocs 2 ex_frames_two) = 0xffff800000102000 \<and>
   fst (Frame_allocs 3 (snd (Frame_allocs 2 ex_frames_two))) = 0xffff800000103000"
proof -
  have wf: "frame_wf ex_frames_two" by (simp add: ex_frames_two_def frame_wf_def)
  have fr: "run_free (frames ex_frames_two) 2 6"
    by (simp add: ex_frames_two_def run_free_def word_less_nat_alt)
  have p: "fst (Frame_allocs 2 ex_frames_two) = 0xffff800000102000"
    by (simp add: ex_frames_two_def Frame_allocs_def frame_addr_def allocs_scan.simps)
  have "fst (Frame_allocs 3 (snd (Frame_allocs 2 ex_frames_two))) =
        fst (Frame_allocs 2 ex_frames_two) + (2 - 1) * FRAME_SIZE"
    using Frame_allocs_overlap [OF wf _ _ _ _ prod.collapse [symmetric] prod.collapse [symmetric], of 2 3] fr
    by (simp add: ex_frames_two_def)
  with wf fr p show ?thesis by simp
qed

definition ex_frames_big :: frame_state where
  "ex_frames_big = ex_frames\<lparr>available_frames := 0x200000, latest_frame := 0x100001\<rparr>"

theorem Frame_alloc_aliases_witness:
  "\<not> frames ex_frames_big 0x100001 \<and> frames ex_frames_big 1 \<and>
   fst (Frame_alloc ex_frames_big) = 0xffff800000101000 \<and> 0xffff800000101000 \<in> taken ex_frames_big"
  using Frame_alloc_aliases [of ex_frames_big 1] by (auto simp: ex_frames_big_def frame_addr_def)

definition ex_frames_full :: frame_state where
  "ex_frames_full = ex_frames\<lparr>frames := (\<lambda>_. True), latest_frame := 8\<rparr>"

theorem Frame_alloc_misses_freed_witness:
  "let s1 = Frame_free 0xffff800000101000 ex_frames_full; s2 = Frame_free 0xffff800000106000 s1;
       (p, s3) = Frame_alloc s2; (q, s4) = Frame_alloc s3
   in frame_wf ex_frames_full \<and> p = 0xffff800000106000 \<and> q = 0 \<and> \<not> frames s4 1"
proof -
  have wf: "frame_wf ex_frames_full" by (simp add: ex_frames_full_def frame_wf_def)
  have 1: "frame_addr ex_frames_full 1 = 0xffff800000101000"
    and 6: "frame_addr ex_frames_full 6 = 0xffff800000106000"
    by (simp_all add: ex_frames_full_def frame_addr_def)
  show ?thesis
    using Frame_alloc_misses_freed [OF wf, of 1 6, OF _ _ _ refl refl prod.collapse [symmetric] prod.collapse [symmetric]] wf
    unfolding 1 6 by (simp add: ex_frames_full_def Let_def case_prod_beta)
qed

theorem Frame_init_establishes_witness:
  "\<exists>s'. Frame_init ex_frames = Inr s' \<and> frame_wf s' \<and> unat (available_frames s') = 8 \<and>
     (\<forall>k. frames s' k = (16 \<le> unat k \<and> k < 2))"
  using Frame_init_establishes [of ex_frames] by simp
end
