(* ===== verification/Paging.thy ===== *)
theory Paging
  imports Frames "HOL-Library.Sublist"
begin

unbundle bit_operations_syntax

text \<open>
  Four level paging, \<open>include/mem/paging.h\<close> and \<open>kernel/mem/paging/paging.cc\<close>. The tables live in
  memory: a table is a frame of 512 entries of eight bytes, an entry with the present bit set holds
  the physical address of the next table, and the kernel reaches a physical address through the
  higher half map at \<open>hhdm_addr\<close>. \<open>map\<close> creates the missing tables with the frame allocator.

  Beside the tables the state has the translation buffer of the processor: it may cache the final
  entry of any present translation at any time (\<open>tlb_fill\<close>), and \<open>flush_tlb\<close> empties it.
  \<open>translate\<close> is the walk the hardware performs, the specification \<open>map\<close> and \<open>unmap\<close> are
  proved against.
\<close>

section \<open>Constants and rounding macros\<close>

definition PAGE_PRESENT :: u64 where "PAGE_PRESENT = 0x1"
definition PAGE_WRITE :: u64 where "PAGE_WRITE = 0x2"
definition PAGE_USER :: u64 where "PAGE_USER = 0x4"
definition PAGE_UNCACHE :: u64 where "PAGE_UNCACHE = 0x10"
definition PAGE_NX :: u64 where "PAGE_NX = push_bit 63 1"
definition PTE_MASK :: u64 where "PTE_MASK = 0x0000FFFFFFFFF000"

definition ROUND_DOWN :: "u64 \<Rightarrow> u64" where
  "ROUND_DOWN x = x AND NOT (0x1000 - 1)"

definition ROUND_UP :: "u64 \<Rightarrow> u64 \<Rightarrow> u64" where
  "ROUND_UP x y = (x + (y - 1)) div y"

definition ALIGN_UP :: "u64 \<Rightarrow> u64 \<Rightarrow> u64" where
  "ALIGN_UP x y = ROUND_UP x y * y"

definition ALIGN_DOWN :: "u64 \<Rightarrow> u64 \<Rightarrow> u64" where
  "ALIGN_DOWN x y = (x div y) * y"

section \<open>State and operations\<close>

record paging_state = frame_state +
  pml4 :: u64
  tlb :: "u64 \<Rightarrow> u64 option"
  cr3 :: u64
  cr4 :: u64
  cr0 :: u64

definition flush_tlb :: "'a paging_state_scheme \<Rightarrow> 'a paging_state_scheme" where
  "flush_tlb s = s\<lparr>tlb := Map.empty\<rparr>"

definition load_cr3 :: "u64 \<Rightarrow> 'a paging_state_scheme \<Rightarrow> 'a paging_state_scheme" where
  "load_cr3 t s = s\<lparr>cr3 := VIRT2PHYS s t, tlb := Map.empty\<rparr>"

definition enable_paging :: "'a paging_state_scheme \<Rightarrow> 'a paging_state_scheme" where
  "enable_paging s = s\<lparr>cr4 := cr4 s OR 0x20, cr0 := cr0 s OR 0x80000000\<rparr>"

definition pml_index :: "nat \<Rightarrow> u64 \<Rightarrow> u16" where
  "pml_index n virt = ucast (drop_bit n virt AND 0x1ff)"

definition slot :: "u64 \<Rightarrow> u16 \<Rightarrow> u64" where
  "slot t i = t + 8 * ucast i"

text \<open>One level of \<open>map\<close>: follow entry \<open>i\<close> of the table at \<open>t\<close>, or create the table it is to name.\<close>

definition pml_next ::
    "u64 \<Rightarrow> u16 \<Rightarrow> 'a paging_state_scheme \<Rightarrow> fault + (u64 \<times> 'a paging_state_scheme)" where
  "pml_next t i s =
     (if t = 0 then Inl NullDeref
      else (let e = load64 (mem s) (slot t i) in
        if e AND PAGE_PRESENT \<noteq> 0 then Inr (PHYS2VIRT s (e AND PTE_MASK), s)
        else (let (p, s1) = Frame_alloc s in
          Inr (p, s1\<lparr>mem := store64 (mem s1) (slot t i)
                     (VIRT2PHYS s1 p OR PAGE_PRESENT OR PAGE_WRITE)\<rparr>))))"

text \<open>The last level of \<open>map\<close>.\<close>

definition pml1_set ::
    "u64 \<Rightarrow> u16 \<Rightarrow> u64 \<Rightarrow> 'a paging_state_scheme \<Rightarrow> fault + 'a paging_state_scheme" where
  "pml1_set t i e s =
     (if t = 0 then Inl NullDeref
      else (let perm_mod = load64 (mem s) (slot t i) AND PAGE_PRESENT \<noteq> 0;
                s' = s\<lparr>mem := store64 (mem s) (slot t i) e\<rparr>
            in Inr (if perm_mod then flush_tlb s' else s')))"

definition Paging_map ::
    "u64 \<Rightarrow> u64 \<Rightarrow> u64 \<Rightarrow> 'a paging_state_scheme \<Rightarrow> fault + 'a paging_state_scheme" where
  "Paging_map phys virt flags s =
     (case pml_next (pml4 s) (pml_index 39 virt) s of Inl f \<Rightarrow> Inl f | Inr (pml3, s3) \<Rightarrow>
      (case pml_next pml3 (pml_index 30 virt) s3 of Inl f \<Rightarrow> Inl f | Inr (pml2, s2) \<Rightarrow>
      (case pml_next pml2 (pml_index 21 virt) s2 of Inl f \<Rightarrow> Inl f | Inr (pml1, s1) \<Rightarrow>
         pml1_set pml1 (pml_index 12 virt) (phys OR flags) s1)))"

text \<open>One level of \<open>unmap\<close>: \<open>None\<close> is the early return.\<close>

definition pml_step :: "'a paging_state_scheme \<Rightarrow> u64 \<Rightarrow> u16 \<Rightarrow> u64 option" where
  "pml_step s t i =
     (let e = load64 (mem s) (slot t i) in
      if e AND PAGE_PRESENT \<noteq> 0 then Some (PHYS2VIRT s (e AND PTE_MASK)) else None)"

definition Paging_unmap :: "u64 \<Rightarrow> 'a paging_state_scheme \<Rightarrow> fault + 'a paging_state_scheme" where
  "Paging_unmap virt s =
     (if pml4 s = 0 then Inl NullDeref else
      (case pml_step s (pml4 s) (pml_index 39 virt) of None \<Rightarrow> Inr s | Some pml3 \<Rightarrow>
      (case pml_step s pml3 (pml_index 30 virt) of None \<Rightarrow> Inr s | Some pml2 \<Rightarrow>
      (case pml_step s pml2 (pml_index 21 virt) of None \<Rightarrow> Inr s | Some pml1 \<Rightarrow>
         Inr (flush_tlb (s\<lparr>mem := store64 (mem s) (slot pml1 (pml_index 12 virt)) 0\<rparr>))))))"

section \<open>The hardware walk\<close>

text \<open>The table reached from the table at \<open>t\<close> through the entries \<open>p\<close>, if all are present.\<close>

fun table_at :: "memory \<Rightarrow> u64 \<Rightarrow> u64 \<Rightarrow> u16 list \<Rightarrow> u64 option" where
  "table_at m h t [] = Some t"
| "table_at m h t (i # p) =
     (let e = load64 m (slot t i) in
      if e AND PAGE_PRESENT \<noteq> 0 then table_at m h (h + (e AND PTE_MASK)) p else None)"

definition table_path :: "u64 \<Rightarrow> u16 list" where
  "table_path v = [pml_index 39 v, pml_index 30 v, pml_index 21 v]"

definition translate :: "'a paging_state_scheme \<Rightarrow> u64 \<Rightarrow> u64 option" where
  "translate s v =
     (case table_at (mem s) (hhdm_addr s) (pml4 s) (table_path v) of
        None \<Rightarrow> None
      | Some t \<Rightarrow> (let e = load64 (mem s) (slot t (pml_index 12 v)) in
                   if e AND PAGE_PRESENT \<noteq> 0 then Some e else None))"

text \<open>The page number of an address, and the hardware caching a translation.\<close>

definition vpn :: "u64 \<Rightarrow> u64" where
  "vpn v = drop_bit 12 v AND mask 36"

definition tlb_fill :: "u64 \<Rightarrow> 'a paging_state_scheme \<Rightarrow> 'a paging_state_scheme" where
  "tlb_fill v s = (case translate s v of None \<Rightarrow> s | Some e \<Rightarrow> s\<lparr>tlb := (tlb s)(vpn v \<mapsto> e)\<rparr>)"

section \<open>Table slots\<close>

lemma unat_slot: "unat (8 * ucast (i::u16) :: u64) = 8 * unat i"
proof -
  have i: "unat i < 2 ^ 16" using unsigned_less [of i, where 'a = nat] by simp
  then have "unat (ucast i :: u64) = unat i" by (simp add: unsigned_ucast_eq take_bit_nat_eq_self)
  with i show ?thesis by (simp add: unat_word_ariths)
qed
lemma slot_bound: "i < 512 \<Longrightarrow> (8 * ucast (i::u16) :: u64) \<le> 4088"
  by (simp add: word_le_nat_alt word_less_nat_alt unat_slot)

lemma slot_apart_same: "i \<noteq> j \<Longrightarrow> apart (slot t i) 8 (slot t j) 8"
proof -
  assume "i \<noteq> j"
  then have "unat i \<noteq> unat j" by (simp add: word_unat_eq_iff)
  moreover have "unat i < 65536" "unat j < 65536" using unsigned_less[of i, where 'a=nat] unsigned_less[of j, where 'a=nat] by simp_all
  ultimately show ?thesis
    by (auto simp: apart_def slot_def word_le_nat_alt unat_sub_if' unat_slot)
qed
lemma slot_apart:
  assumes "apart t FRAME_SIZE a FRAME_SIZE" and "i < 512" and "j < 512"
  shows "apart (slot t i) 8 (slot a j) 8"
  unfolding slot_def using assms(1)
proof (rule apart_shift)
  show "(8 :: u64) \<le> FRAME_SIZE - 8 * ucast i" 
    using assms(2) by (simp add: word_le_nat_alt unat_sub_if' unat_slot word_less_nat_alt)
  show "(8 :: u64) \<le> FRAME_SIZE - 8 * ucast j" 
    using assms(3) by (simp add: word_le_nat_alt unat_sub_if' unat_slot word_less_nat_alt)
qed (use assms in \<open>simp_all add: word_le_nat_alt unat_slot word_less_nat_alt\<close>)

section \<open>The shape of the tables\<close>

lemma table_at_append:
  "table_at m h t (p @ q) = Option.bind (table_at m h t p) (\<lambda>u. table_at m h u q)"
  by (induction p arbitrary: t) (auto simp: Let_def)

text \<open>A walk reads the slots on its path only.\<close>

lemma table_at_cong:
  "(\<And>r j u. prefix (r @ [j]) q \<Longrightarrow> table_at m h t r = Some u \<Longrightarrow>
      load64 m' (slot u j) = load64 m (slot u j)) \<Longrightarrow>
   table_at m' h t q = table_at m h t q"
proof (induction q arbitrary: t)
  case Nil
  then show ?case by simp
next
  case (Cons i q)
  have e: "load64 m' (slot t i) = load64 m (slot t i)"
    using Cons.prems [of "[]" i t] by simp
  show ?case
  proof (cases "load64 m (slot t i) AND PAGE_PRESENT = 0")
    case False
    let ?u = "h + (load64 m (slot t i) AND PTE_MASK)"
    have "load64 m' (slot u j) = load64 m (slot u j)"
      if "prefix (r @ [j]) q" and "table_at m h ?u r = Some u" for r j u
      using Cons.prems [of "i # r" j u] that False by (simp add: Let_def)
    then have "table_at m' h ?u q = table_at m h ?u q" by (rule Cons.IH)
    with False e show ?thesis by (simp add: Let_def)
  qed (simp add: e)
qed

definition pt_path :: "u16 list \<Rightarrow> bool" where
  "pt_path p \<longleftrightarrow> length p \<le> 3 \<and> (\<forall>i \<in> set p. i < 512)"

abbreviation tbl :: "'a paging_state_scheme \<Rightarrow> u16 list \<Rightarrow> u64 option" where
  "tbl s \<equiv> table_at (mem s) (hhdm_addr s) (pml4 s)"

text \<open>The physical addresses of the frames are frame aligned and fit into the 48 bits of an entry.\<close>

definition phys_ok :: "'a frame_state_scheme \<Rightarrow> bool" where
  "phys_ok s \<longleftrightarrow> unat (base_addr s - hhdm_addr s) mod 4096 = 0 \<and>
     unat (base_addr s - hhdm_addr s) + 4096 * unat (available_frames s) \<le> 2 ^ 48"

text \<open>
  The invariant of the page tables: every table on a path is a frame in use, and no table is on two
  paths, so that a store into one slot changes the translation of the addresses below it alone.
\<close>

definition pt_wf :: "'a paging_state_scheme \<Rightarrow> bool" where
  "pt_wf s \<longleftrightarrow> frame_wf s \<and> phys_ok s \<and>
     (\<forall>p a. pt_path p \<longrightarrow> tbl s p = Some a \<longrightarrow> a \<in> taken s) \<and>
     (\<forall>p q a. pt_path p \<longrightarrow> pt_path q \<longrightarrow> tbl s p = Some a \<longrightarrow> tbl s q = Some a \<longrightarrow> p = q)"

lemma pt_path_Nil [simp]: "pt_path []"
  by (simp add: pt_path_def)

lemma pt_path_prefix: "prefix p q \<Longrightarrow> pt_path q \<Longrightarrow> pt_path p"
  by (auto simp: pt_path_def prefix_def)

lemma pt_path_slot: "pt_path (r @ [j]) \<Longrightarrow> j < 512"
  by (simp add: pt_path_def)

lemma pt_taken: "pt_wf s \<Longrightarrow> pt_path p \<Longrightarrow> tbl s p = Some a \<Longrightarrow> a \<in> taken s"
  and pt_unique: "pt_wf s \<Longrightarrow> pt_path p \<Longrightarrow> pt_path q \<Longrightarrow> tbl s p = Some a \<Longrightarrow> tbl s q = Some a \<Longrightarrow> p = q"
  by (auto simp: pt_wf_def)

lemma pml4_taken: "pt_wf s \<Longrightarrow> pml4 s \<in> taken s"
  using pt_taken [of s "[]"] by simp

lemma taken_nonzero: "frame_wf s \<Longrightarrow> p \<in> taken s \<Longrightarrow> p \<noteq> 0"
  by (auto simp: taken_def frame_addr_nonzero)

lemma taken_phys:
  assumes "frame_wf s" and "phys_ok s" and "p \<in> taken s"
  obtains q where "unat (p - hhdm_addr s) = 4096 * q" and "4096 * q < 2 ^ 48"
proof -
  obtain k where k: "k < available_frames s" and p: "p = frame_addr s k"
    using assms(3) by (auto simp: taken_def)
  have ku: "unat (ucast (k * FRAME_SIZE) :: u64) = 4096 * unat k"
    using frame_number_small [OF assms(1) k] by (simp add: unat_frame_offset)
  obtain b where b: "unat (base_addr s - hhdm_addr s) = 4096 * b"
    using assms(2) by (auto simp: phys_ok_def mod_eq_0_iff_dvd dvd_def)
  have lt: "4096 * b + 4096 * unat k < 2 ^ 48"
    using assms(2) k b by (auto simp: phys_ok_def word_less_nat_alt)
  have "p - hhdm_addr s = (base_addr s - hhdm_addr s) + ucast (k * FRAME_SIZE)"
    by (simp add: p frame_addr_def)
  also have "unat \<dots> = 4096 * (b + unat k)"
    using lt by (subst unat_plus_if') (simp only: b ku, simp)
  finally show thesis using that [of "b + unat k"] lt by simp
qed

lemma PTE_MASK_bit: "bit PTE_MASK n \<longleftrightarrow> 12 \<le> n \<and> n < 48"
proof -
  have eq: "PTE_MASK = push_bit 12 (mask 36)"
    by (simp add: PTE_MASK_def mask_eq_exp_minus_1)
  have "bit (push_bit 12 (mask 36) :: u64) n \<longleftrightarrow> 12 \<le> n \<and> n < 48"
    unfolding bit_push_bit_iff bit_mask_iff possible_bit_word by auto
  then show ?thesis unfolding eq .
qed

lemma bit_below_48:
  assumes "unat (x :: u64) < 2 ^ 48" and "bit x n"
  shows "n < 48"
proof -
  have "take_bit 48 x = x"
    using assms(1) by (simp add: word_unat_eq_iff unsigned_take_bit_eq take_bit_nat_eq_self)
  then show ?thesis using assms(2) by (metis bit_take_bit_iff)
qed

lemma bit_above_12:
  assumes "unat (x :: u64) = 4096 * q" and "bit x n"
  shows "12 \<le> n"
proof -
  have "x = word_of_nat (unat x)" by simp
  also have "\<dots> = push_bit 12 (word_of_nat q)"
    by (simp add: assms(1) push_bit_eq_mult)
  finally show ?thesis using assms(2) by (metis bit_push_bit_iff)
qed

lemma present_or [simp]: "(x OR PAGE_PRESENT OR y) AND PAGE_PRESENT \<noteq> 0"
proof -
  have "bit ((x OR PAGE_PRESENT OR y) AND PAGE_PRESENT) 0"
    by (simp add: bit_and_iff bit_or_iff PAGE_PRESENT_def)
  then show ?thesis by (metis bit_0_eq bot_apply bot_bool_def)
qed

text \<open>The entry \<open>map\<close> writes for a new table leads the walk to that table.\<close>

lemma link_entry:
  assumes "frame_wf s" and "phys_ok s" and "p \<in> taken s"
  shows "hhdm_addr s + ((VIRT2PHYS s p OR PAGE_PRESENT OR PAGE_WRITE) AND PTE_MASK) = p"
    and "(VIRT2PHYS s p OR PAGE_PRESENT OR PAGE_WRITE) AND PAGE_PRESENT \<noteq> 0"
proof -
  let ?x = "p - hhdm_addr s"
  obtain q where q: "unat ?x = 4096 * q" and lt: "4096 * q < 2 ^ 48"
    using taken_phys [OF assms] .
  have "(?x OR PAGE_PRESENT OR PAGE_WRITE) AND PTE_MASK = ?x"
  proof (rule bit_word_eqI)
    fix n
    have "PAGE_PRESENT OR PAGE_WRITE = mask 2"
      by (simp add: PAGE_PRESENT_def PAGE_WRITE_def mask_eq_exp_minus_1)
    then have "bit (PAGE_PRESENT OR PAGE_WRITE) n \<Longrightarrow> n < 12"
      by (auto simp only: bit_mask_iff)
    then show "bit ((?x OR PAGE_PRESENT OR PAGE_WRITE) AND PTE_MASK) n = bit ?x n"
      using bit_below_48 [of ?x n] bit_above_12 [OF q, of n] q lt
      by (auto simp: bit_and_iff bit_or_iff PTE_MASK_bit)
  qed
  then show "hhdm_addr s + ((VIRT2PHYS s p OR PAGE_PRESENT OR PAGE_WRITE) AND PTE_MASK) = p"
    by (simp add: VIRT2PHYS_def)
qed (rule present_or)

section \<open>Stores into the tables\<close>

lemma slots_apart:
  assumes "pt_wf s" and "pt_path p" and "pt_path r" and "tbl s p = Some a" and "tbl s r = Some u"
    and "i < 512" and "j < 512" and "(r, j) \<noteq> (p, i)"
  shows "apart (slot a i) 8 (slot u j) 8"
proof (cases "u = a")
  case True
  with assms have "j \<noteq> i" using pt_unique by blast
  with True show ?thesis by (simp add: slot_apart_same)
next
  case False
  have "a \<in> taken s" and "u \<in> taken s" and "frame_wf s"
    using assms pt_taken by (auto simp: pt_wf_def)
  with False have "apart a FRAME_SIZE u FRAME_SIZE" by (metis fa.used_apart)
  then show ?thesis using assms(6,7) by (rule slot_apart)
qed

lemma load_slot_agree:
  assumes "agree m m' t FRAME_SIZE" and "i < 512"
  shows "load64 m' (slot t i) = load64 m (slot t i)"
proof (rule agree_load64, rule agree_sub [OF assms(1)])
  show "slot t i - t \<le> FRAME_SIZE" and "8 \<le> FRAME_SIZE - (slot t i - t)"
    using assms(2) by (simp_all add: slot_def word_le_nat_alt unat_sub_if' unat_slot word_less_nat_alt)
qed

lemma table_at_store:
  assumes "pt_wf s" and "pt_path p" and "tbl s p = Some a" and "i < 512" and "pt_path q"
    and "\<not> prefix (p @ [i]) q"
  shows "table_at (store64 (mem s) (slot a i) e) (hhdm_addr s) (pml4 s) q = tbl s q"
proof (rule table_at_cong)
  fix r j u
  assume rj: "prefix (r @ [j]) q" and u: "tbl s r = Some u"
  have path: "pt_path (r @ [j])" using rj assms(5) by (rule pt_path_prefix)
  then have "pt_path r" and "j < 512" by (auto simp: pt_path_def)
  moreover have "(r, j) \<noteq> (p, i)" using rj assms(6) by auto
  ultimately have "apart (slot a i) 8 (slot u j) 8"
    using slots_apart [OF assms(1,2) _ assms(3) u assms(4)] by blast
  then show "load64 (store64 (mem s) (slot a i) e) (slot u j) = load64 (mem s) (slot u j)"
    by (rule load64_store64_apart)
qed

lemma table_at_alloc:
  assumes "pt_wf s" and "Frame_alloc s = (f, s')" and "pt_path q"
  shows "table_at (mem s') (hhdm_addr s) (pml4 s) q = tbl s q"
proof (rule table_at_cong)
  fix r j u
  assume rj: "prefix (r @ [j]) q" and u: "tbl s r = Some u"
  have "pt_path (r @ [j])" using rj assms(3) by (rule pt_path_prefix)
  then have "pt_path r" and j: "j < 512" by (auto simp: pt_path_def)
  then have "u \<in> taken s" using assms(1) u pt_taken by blast
  moreover have "frame_wf s" using assms(1) by (simp add: pt_wf_def)
  ultimately have "agree (mem s) (mem s') u FRAME_SIZE"
    using assms(2) fa.alloc_keeps by blast
  then show "load64 (mem s') (slot u j) = load64 (mem s) (slot u j)"
    using j by (rule load_slot_agree)
qed

lemma Frame_alloc_paging:
  assumes "Frame_alloc s = (f, s')"
  shows "hhdm_addr s' = hhdm_addr s" "base_addr s' = base_addr s"
    "available_frames s' = available_frames s"
  using assms by (auto simp: Frame_alloc_def Let_def split: if_splits)

lemma Frame_alloc_pml4:
  assumes "Frame_alloc (s :: 'a paging_state_scheme) = (f, s')"
  shows "pml4 s' = pml4 s" "tlb s' = tlb s"
  using assms by (auto simp: Frame_alloc_def Let_def split: if_splits)

lemma pt_wf_alloc:
  assumes "pt_wf s" and "Frame_alloc s = (f, s')"
  shows "pt_wf s'"
proof -
  have "frame_wf s" using assms(1) by (simp add: pt_wf_def)
  note fs = fa.alloc_inv [OF this assms(2)] fa.alloc_used_mono [OF this assms(2)]
  have same: "tbl s' q = tbl s q" if "pt_path q" for q
    using table_at_alloc [OF assms that] Frame_alloc_paging [OF assms(2)] Frame_alloc_pml4 [OF assms(2)]
    by simp
  have "phys_ok s'"
    using assms(1) Frame_alloc_paging [OF assms(2)] by (simp add: pt_wf_def phys_ok_def)
  moreover have "a \<in> taken s'" if "pt_path p" "tbl s' p = Some a" for p a
    using that same [of p] fs(2) pt_taken [OF assms(1)] by auto
  moreover have "p = q" if "pt_path p" "pt_path q" "tbl s' p = Some a" "tbl s' q = Some a" for p q a
    using that same pt_unique [OF assms(1)] by simp
  ultimately show ?thesis
    using fs(1) unfolding pt_wf_def by blast
qed

text \<open>What \<open>map\<close> does at an absent entry: a new, empty table, and nothing else of the tables changes.\<close>

lemma new_table:
  assumes wf: "pt_wf s" and path: "pt_path (p @ [i])" and t: "tbl s p = Some t"
    and absent: "load64 (mem s) (slot t i) AND PAGE_PRESENT = 0"
    and al: "Frame_alloc s = (f, s1)" and f: "f \<noteq> 0"
    and s': "s' = s1\<lparr>mem := store64 (mem s1) (slot t i) (VIRT2PHYS s1 f OR PAGE_PRESENT OR PAGE_WRITE)\<rparr>"
  shows new_table_tbl: "pt_path q \<Longrightarrow> tbl s' q = (if q = p @ [i] then Some f else tbl s q)"
    and new_table_entry: "pt_path q \<Longrightarrow> tbl s q = Some u \<Longrightarrow> j < 512 \<Longrightarrow> (q, j) \<noteq> (p, i) \<Longrightarrow>
      load64 (mem s') (slot u j) = load64 (mem s) (slot u j)"
    and new_table_empty: "j < 512 \<Longrightarrow> load64 (mem s') (slot f j) = 0"
proof -
  have fw: "frame_wf s" using wf by (simp add: pt_wf_def)
  have wf1: "pt_wf s1" using wf al by (rule pt_wf_alloc)
  then have fw1: "frame_wf s1" "phys_ok s1" by (simp_all add: pt_wf_def)
  have fresh: "f \<notin> taken s" "f \<in> taken s1" using fa.alloc_new [OF fw al f] by auto
  note st1 = Frame_alloc_paging [OF al] Frame_alloc_pml4 [OF al]
  have tbl1: "tbl s1 q = tbl s q" if "pt_path q" for q
    using table_at_alloc [OF wf al that] st1 by simp
  have i: "i < 512" and pp: "pt_path p" using path by (auto simp: pt_path_def)
  have t1: "tbl s1 p = Some t" using tbl1 [OF pp] t by simp
  have keep: "load64 (mem s1) (slot u j) = load64 (mem s) (slot u j)"
    if "pt_path q" "tbl s q = Some u" "j < 512" for q u j
    using fa.alloc_keeps [OF fw al pt_taken [OF wf that(1,2)]] that(3) by (rule load_slot_agree)
  show entry: "load64 (mem s') (slot u j) = load64 (mem s) (slot u j)"
    if "pt_path q" "tbl s q = Some u" "j < 512" "(q, j) \<noteq> (p, i)" for q u j
    using slots_apart [OF wf1 pp that(1) t1 _ i that(3,4)] that tbl1 keep
    by (simp add: s' mem_simps)
  have "t \<in> taken s" using wf pp t by (rule pt_taken)
  then have "apart t FRAME_SIZE f FRAME_SIZE"
    using fa.alloc_apart [OF fw al f] by (metis apart_sym)
  then show empty: "load64 (mem s') (slot f j) = 0" if j: "j < 512" for j
    using slot_apart [OF _ i j] fa.alloc_zero [OF fw al f, of "unat j"] j
    by (simp add: s' slot_def mem_simps word_less_nat_alt)
  show "tbl s' q = (if q = p @ [i] then Some f else tbl s q)" if q: "pt_path q" for q
  proof (cases "prefix (p @ [i]) q")
    case False
    then show ?thesis
      using table_at_store [OF wf1 pp t1 i q] tbl1 [OF q] st1 by (auto simp: s')
  next
    case True
    then obtain r where r: "q = p @ i # r" by (auto simp: prefix_def)
    have "tbl s' p = Some t"
      using table_at_store [OF wf1 pp t1 i pp] t1 st1 by (auto simp: s' prefix_def)
    then have "tbl s' q = table_at (mem s') (hhdm_addr s) f r"
      using link_entry [OF fw1 fresh(2)] st1 by (simp add: r table_at_append s')
    moreover have "tbl s q = None" using t absent by (simp add: r table_at_append)
    moreover have "j < 512" if "r = j # r'" for j r'
      using q that by (simp add: r pt_path_def)
    ultimately show ?thesis by (cases r) (auto simp: r empty)
  qed
qed

text \<open>The bytes of the region the frames are taken from; the tables are written there only.\<close>

definition frame_region :: "'a frame_state_scheme \<Rightarrow> nat set" where
  "frame_region s = {unat (base_addr s)..<unat (base_addr s) + 4096 * unat (available_frames s)}"

lemma frame_in_region:
  assumes "frame_wf s" and "k < available_frames s"
  shows "{unat (frame_addr s k)..<unat (frame_addr s k) + 4096} \<subseteq> frame_region s" and "unat (frame_addr s k) + 4096 \<le> 2 ^ 64"
proof -
  have "unat k < unat (available_frames s)" using assms(2) by (simp add: word_less_nat_alt)
  then show "{unat (frame_addr s k)..<unat (frame_addr s k) + 4096} \<subseteq> frame_region s" and "unat (frame_addr s k) + 4096 \<le> 2 ^ 64"
    using unat_frame_addr [OF assms] assms(1) by (auto simp: frame_region_def frame_wf_def)
qed

lemma Frame_alloc_region:
  assumes wf: "frame_wf s" and al: "Frame_alloc s = (f, s')"
  shows "agree_on (mem s) (mem s') (- frame_region s)"
proof -
  let ?l = "next_free (frames s) (available_frames s) (latest_frame s)"
  show ?thesis
  proof (cases "?l = available_frames s")
    case False
    have "?l \<le> available_frames s" using wf next_free_spec by (simp add: frame_wf_def)
    then have "?l < available_frames s" using False by simp
    from frame_in_region [OF wf this] have "agree_on (mem s) (memset (mem s) (frame_addr s ?l) 0 FRAME_SIZE) (- frame_region s)"
      by (intro memset_on) auto
    then show ?thesis using al False by (auto simp: Frame_alloc_def Let_def)
  qed (use al in \<open>auto simp: Frame_alloc_def Let_def\<close>)
qed

lemma slot_store_region:
  assumes wf: "frame_wf s" and t: "t \<in> taken s" and i: "i < 512"
  shows "agree_on m (store64 m (slot t i) e) (- frame_region s)"
proof -
  obtain k where k: "t = frame_addr s k" "k < available_frames s" using t by (auto simp: taken_def)
  have i8: "unat (8 * ucast i :: u64) + 8 \<le> 4096" using unat_slot [of i] i by (simp add: word_less_nat_alt)
  note r = frame_in_region [OF wf k(2), folded k(1)]
  have "unat (slot t i) = unat t + unat (8 * ucast i :: u64)" unfolding slot_def using r(2) i8 by (intro unat_offset) simp
  then have "{unat (slot t i)..<unat (slot t i) + 8} \<subseteq> {unat t..<unat t + 4096}" "unat (slot t i) + 8 \<le> 2 ^ 64"
    using r(2) i8 by auto
  then show ?thesis using r(1) by (intro store64_on) blast+
qed

text \<open>One state extends another: the tables grow, no translation changes, no other frame in use does.\<close>

definition pt_extends :: "'a paging_state_scheme \<Rightarrow> 'a paging_state_scheme \<Rightarrow> bool" where
  "pt_extends s s' \<longleftrightarrow> pt_wf s' \<and> pml4 s' = pml4 s \<and> hhdm_addr s' = hhdm_addr s \<and> tlb s' = tlb s \<and>
     taken s \<subseteq> taken s' \<and> translate s' = translate s \<and> frame_region s' = frame_region s \<and>
     agree_on (mem s) (mem s') (- frame_region s) \<and> (\<forall>q u. pt_path q \<longrightarrow> tbl s q = Some u \<longrightarrow> tbl s' q = Some u)"

lemma pt_extends_refl: "pt_wf s \<Longrightarrow> pt_extends s s"
  by (simp add: pt_extends_def)

lemma pt_extends_trans: "pt_extends s s' \<Longrightarrow> pt_extends s' s'' \<Longrightarrow> pt_extends s s''"
  by (auto simp: pt_extends_def elim: agree_on_trans)

lemma pml_index_bound [simp]: "pml_index n v < 512"
proof -
  have "unat (drop_bit n v AND 0x1ff) < 512"
  proof -
    have "(0x1ff :: u64) = mask 9" by (simp add: mask_eq_exp_minus_1)
    then have "drop_bit n v AND 0x1ff = take_bit 9 (drop_bit n v)" by (simp add: take_bit_eq_mask)
    then show ?thesis
      using take_bit_nat_less_exp [of 9] by (simp add: unsigned_take_bit_eq)
  qed
  then show ?thesis
    by (simp add: pml_index_def word_less_nat_alt unsigned_ucast_eq take_bit_nat_eq_self)
qed

lemma table_path_ok [simp]: "pt_path (table_path v)"
  by (simp add: pt_path_def table_path_def)

lemma length_table_path [simp]: "length (table_path v) = 3"
  by (simp add: table_path_def)

lemma new_table_extends:
  assumes wf: "pt_wf s" and path: "pt_path (p @ [i])" and t: "tbl s p = Some t"
    and absent: "load64 (mem s) (slot t i) AND PAGE_PRESENT = 0"
    and al: "Frame_alloc s = (f, s1)" and f: "f \<noteq> 0"
    and s': "s' = s1\<lparr>mem := store64 (mem s1) (slot t i) (VIRT2PHYS s1 f OR PAGE_PRESENT OR PAGE_WRITE)\<rparr>"
  shows "pt_extends s s' \<and> tbl s' (p @ [i]) = Some f"
proof -
  note new = new_table [OF assms]
  have fw: "frame_wf s" using wf by (simp add: pt_wf_def)
  have wf1: "pt_wf s1" using wf al by (rule pt_wf_alloc)
  note fresh = fa.alloc_new [OF fw al f]
  note st1 = Frame_alloc_paging [OF al] Frame_alloc_pml4 [OF al]
  have none: "tbl s (p @ [i]) = None" using t absent by (simp add: table_at_append)
  have "length p < 3" using path by (simp add: pt_path_def)
  then have len: "table_path v \<noteq> p" for v by (metis length_table_path less_irrefl)
  have "frame_wf s'" "phys_ok s'" and taken: "taken s' = insert f (taken s)"
    using wf1 fresh by (simp_all add: pt_wf_def s' phys_ok_def)
  moreover have "a \<in> taken s'" if "pt_path q" "tbl s' q = Some a" for q a
    using that new(1) [OF that(1)] pt_taken [OF wf that(1)] taken by (auto split: if_splits)
  moreover have "q = r" if "pt_path q" "pt_path r" "tbl s' q = Some a" "tbl s' r = Some a" for q r a
    using that new(1) pt_unique [OF wf that(1,2)] pt_taken [OF wf] fresh
    by (auto split: if_splits)
  ultimately have "pt_wf s'" unfolding pt_wf_def by blast
  moreover have "translate s' v = translate s v" for v
    using new(1) [OF table_path_ok [of v]] new(2) [OF table_path_ok [of v]] new(3) none len
    by (auto simp: translate_def Let_def split: option.splits)
  moreover have "tbl s' q = Some u" if "pt_path q" "tbl s q = Some u" for q u
    using that new(1) [OF that(1)] none by auto
  moreover have "agree_on (mem s) (mem s') (- frame_region s)"
  proof (rule agree_on_trans [OF Frame_alloc_region [OF fw al]])
    have "t \<in> taken s1" using pt_taken [OF wf _ t] path fresh by (auto simp: pt_path_def)
    from slot_store_region [OF _ this] wf1 path st1
    show "agree_on (mem s1) (mem s') (- frame_region s)" by (simp add: pt_wf_def pt_path_def frame_region_def s')
  qed
  ultimately show ?thesis
    using new(1) [OF path] taken st1 by (auto simp: pt_extends_def s' frame_region_def fun_eq_iff)
qed

lemma pml_next_ok:
  assumes "pt_wf s" and "pt_path (p @ [i])" and "tbl s p = Some t"
    and "pml_next t i s = Inr (t', s')" and "t' \<noteq> 0"
  shows "pt_extends s s' \<and> tbl s' (p @ [i]) = Some t'"
proof (cases "load64 (mem s) (slot t i) AND PAGE_PRESENT = 0")
  case True
  obtain f s1 where al: "Frame_alloc s = (f, s1)" by fastforce
  have "t' = f \<and> s' = s1\<lparr>mem := store64 (mem s1) (slot t i) (VIRT2PHYS s1 f OR PAGE_PRESENT OR PAGE_WRITE)\<rparr>"
    using assms(4) True al by (auto simp: pml_next_def Let_def split: if_splits)
  with new_table_extends [OF assms(1-3) True al] assms(5) show ?thesis by blast
next
  case False
  with assms show ?thesis
    by (auto simp: pml_next_def Let_def PHYS2VIRT_def table_at_append pt_extends_refl split: if_splits)
qed

section \<open>Mapping and unmapping\<close>

lemma bit_pml_index: "bit (pml_index n v) k \<longleftrightarrow> k < 9 \<and> bit v (n + k)"
proof -
  have "(0x1ff :: u64) = mask 9" by (simp add: mask_eq_exp_minus_1)
  then have "pml_index n v = ucast (take_bit 9 (drop_bit n v))"
    by (simp add: pml_index_def take_bit_eq_mask)
  then show ?thesis by (auto simp: bit_ucast_iff bit_take_bit_iff bit_drop_bit_eq)
qed

lemma bit_vpn: "bit (vpn v) k \<longleftrightarrow> k < 36 \<and> bit v (12 + k)"
  by (simp add: vpn_def bit_take_bit_iff bit_drop_bit_eq flip: take_bit_eq_mask)

lemma all_shift: "(\<forall>k < m. P (n + k)) \<longleftrightarrow> (\<forall>k. n \<le> k \<and> k < n + m \<longrightarrow> P k)" for n :: nat
  by (metis add_less_cancel_left le_add1 le_iff_add)

lemma pml_index_eq:
  "pml_index n v = pml_index n w \<longleftrightarrow> (\<forall>k. n \<le> k \<and> k < n + 9 \<longrightarrow> bit v k = bit w k)"
  unfolding all_shift [symmetric, where P = "\<lambda>k. bit v k = bit w k"]
  by (metis bit_pml_index bit_eqI)

lemma vpn_eq: "vpn v = vpn w \<longleftrightarrow> (\<forall>k. 12 \<le> k \<and> k < 12 + 36 \<longrightarrow> bit v k = bit w k)"
  unfolding all_shift [symmetric, where P = "\<lambda>k. bit v k = bit w k"]
  by (metis bit_vpn bit_eqI)

lemma range_split:
  "a \<le> b \<Longrightarrow> b \<le> c \<Longrightarrow> (\<forall>k. a \<le> k \<and> k < c \<longrightarrow> P k) \<longleftrightarrow>
     (\<forall>k. a \<le> k \<and> k < b \<longrightarrow> P k) \<and> (\<forall>k. b \<le> k \<and> k < c \<longrightarrow> P k)" for a :: nat
  by (meson dual_order.trans less_le_trans not_le)

text \<open>The four indices and the page number are the same 36 bits.\<close>

lemma vpn_indices:
  "vpn v = vpn w \<longleftrightarrow> table_path v = table_path w \<and> pml_index 12 v = pml_index 12 w"
  unfolding vpn_eq table_path_def list.inject pml_index_eq
  by (subst range_split [of 12 21], simp, simp, subst range_split [of 21 30], simp, simp,
      subst range_split [of 30 39]) auto

text \<open>A store into a slot of a last level table.\<close>

lemma leaf_store_tbl:
  assumes wf: "pt_wf s" and t: "tbl s (table_path v) = Some t" and q: "pt_path q"
  shows "tbl (s\<lparr>mem := store64 (mem s) (slot t (pml_index 12 v)) e\<rparr>) q = tbl s q"
proof -
  have "\<not> prefix (table_path v @ [pml_index 12 v]) q"
    using q prefix_length_le by (fastforce simp: pt_path_def)
  from table_at_store [OF wf table_path_ok t pml_index_bound q this] show ?thesis by simp
qed

lemma leaf_store:
  assumes wf: "pt_wf s" and t: "tbl s (table_path v) = Some t"
    and s': "s' = s\<lparr>mem := store64 (mem s) (slot t (pml_index 12 v)) e\<rparr>"
  shows "pt_wf s' \<and>
    (\<forall>w. translate s' w = (if vpn w = vpn v then if e AND PAGE_PRESENT \<noteq> 0 then Some e else None
                           else translate s w))"
proof -
  have same: "tbl s' q = tbl s q" if "pt_path q" for q
    unfolding s' by (rule leaf_store_tbl [OF wf t that])
  have "frame_wf s'" "phys_ok s'" "taken s' = taken s"
    using wf by (simp_all add: pt_wf_def s' phys_ok_def)
  then have "pt_wf s'"
    using wf same unfolding pt_wf_def by simp
  moreover have "translate s' w = (if vpn w = vpn v then if e AND PAGE_PRESENT \<noteq> 0 then Some e else None
      else translate s w)" for w
  proof (cases "vpn w = vpn v")
    case True
    then show ?thesis using same [OF table_path_ok [of w]] t by (simp add: vpn_indices translate_def s' Let_def)
  next
    case False
    have "load64 (mem s') (slot u (pml_index 12 w)) = load64 (mem s) (slot u (pml_index 12 w))"
      if "tbl s (table_path w) = Some u" for u
      using slots_apart [OF wf _ _ t that, of "pml_index 12 v" "pml_index 12 w"] False
      by (auto simp: s' vpn_indices mem_simps)
    then show ?thesis
      using False same [OF table_path_ok [of w]] by (simp add: translate_def Let_def split: option.split)
  qed
  ultimately show ?thesis by blast
qed

text \<open>The three tables \<open>map\<close> walks or creates, as one chain of extensions.\<close>

lemma Paging_map_walk:
  assumes wf: "pt_wf s" and map: "Paging_map phys virt flags s = Inr s'"
  obtains s1 t where "pt_extends s s1" and "tbl s1 (table_path virt) = Some t"
    and "pml1_set t (pml_index 12 virt) (phys OR flags) s1 = Inr s'"
proof -
  from map obtain t3 s3 t2 s2 t1 s1 where
      1: "pml_next (pml4 s) (pml_index 39 virt) s = Inr (t3, s3)" and
      2: "pml_next t3 (pml_index 30 virt) s3 = Inr (t2, s2)" and
      3: "pml_next t2 (pml_index 21 virt) s2 = Inr (t1, s1)" and
      4: "pml1_set t1 (pml_index 12 virt) (phys OR flags) s1 = Inr s'"
    by (auto simp: Paging_map_def split: sum.splits)
  have nz: "t3 \<noteq> 0" "t2 \<noteq> 0" "t1 \<noteq> 0"
    using 2 3 4 by (auto simp: pml_next_def pml1_set_def split: if_splits)
  let ?a = "pml_index 39 virt" and ?b = "pml_index 30 virt" and ?c = "pml_index 21 virt"
  have a: "pt_extends s s3 \<and> tbl s3 ([] @ [?a]) = Some t3"
    using wf _ _ 1 nz(1) by (rule pml_next_ok) (simp_all add: pt_path_def)
  then have "pt_wf s3" by (simp add: pt_extends_def)
  then have b: "pt_extends s3 s2 \<and> tbl s2 ([?a] @ [?b]) = Some t2"
    by (rule pml_next_ok [OF _ _ _ 2 nz(2)]) (use a in \<open>simp_all add: pt_path_def\<close>)
  then have "pt_wf s2" by (simp add: pt_extends_def)
  then have c: "pt_extends s2 s1 \<and> tbl s1 ([?a, ?b] @ [?c]) = Some t1"
    by (rule pml_next_ok [OF _ _ _ 3 nz(3)]) (use b in \<open>simp_all add: pt_path_def\<close>)
  show thesis
  proof (rule that)
    show "pt_extends s s1" using a b c pt_extends_trans by blast
    show "tbl s1 (table_path virt) = Some t1" using c by (simp add: table_path_def)
  qed (rule 4)
qed

text \<open>
  The abstract view of the tables: the entry each virtual address is translated with. Addresses of
  one page share their entry, and an entry without the present bit translates nothing.
\<close>

definition pte :: "u64 \<Rightarrow> u64 option" where
  "pte e = (if e AND PAGE_PRESENT \<noteq> 0 then Some e else None)"

definition vm_map :: "u64 \<Rightarrow> u64 \<Rightarrow> u64 \<Rightarrow> (u64 \<Rightarrow> u64 option) \<Rightarrow> u64 \<Rightarrow> u64 option" where
  "vm_map phys virt flags T w = (if vpn w = vpn virt then pte (phys OR flags) else T w)"

definition vm_unmap :: "u64 \<Rightarrow> (u64 \<Rightarrow> u64 option) \<Rightarrow> u64 \<Rightarrow> u64 option" where
  "vm_unmap virt T w = (if vpn w = vpn virt then None else T w)"

text \<open>Cached translations are translations.\<close>

definition tlb_ok :: "'a paging_state_scheme \<Rightarrow> bool" where
  "tlb_ok s \<longleftrightarrow> (\<forall>v e. tlb s (vpn v) = Some e \<longrightarrow> translate s v = Some e)"

lemma translate_flush [simp]: "translate (flush_tlb s) = translate s"
  by (simp add: translate_def flush_tlb_def fun_eq_iff split: option.split)

lemma translate_vpn: "vpn v = vpn w \<Longrightarrow> translate s v = translate s w"
  by (simp add: translate_def vpn_indices split: option.split)

lemma pt_wf_tlb [simp]: "pt_wf (s\<lparr>tlb := b\<rparr>) = pt_wf s"
  by (simp add: pt_wf_def frame_wf_def phys_ok_def taken_def frame_addr_def cong: image_cong)

lemma pt_wf_flush [simp]: "pt_wf (flush_tlb s) = pt_wf s"
  by (simp add: flush_tlb_def)

lemma Paging_map_effect:
  assumes wf: "pt_wf s" and map: "Paging_map phys virt flags s = Inr s'"
  shows "pt_wf s'" and "translate s' = vm_map phys virt flags (translate s)"
    and "tlb_ok s \<Longrightarrow> tlb_ok s'" and "pml4 s' = pml4 s" and "hhdm_addr s' = hhdm_addr s"
    and "taken s \<subseteq> taken s'" and "frame_region s' = frame_region s" and "agree_on (mem s) (mem s') (- frame_region s)"
proof -
  obtain s1 t where ext: "pt_extends s s1" and t: "tbl s1 (table_path virt) = Some t"
    and set: "pml1_set t (pml_index 12 virt) (phys OR flags) s1 = Inr s'"
    using Paging_map_walk [OF wf map] .
  have wf1: "pt_wf s1" and same: "translate s1 = translate s" "tlb s1 = tlb s" "pml4 s1 = pml4 s"
      "hhdm_addr s1 = hhdm_addr s" "taken s \<subseteq> taken s1" "frame_region s1 = frame_region s"
      and on: "agree_on (mem s) (mem s1) (- frame_region s)"
    using ext by (simp_all add: pt_extends_def)
  define s2 where "s2 = s1\<lparr>mem := store64 (mem s1) (slot t (pml_index 12 virt)) (phys OR flags)\<rparr>"
  note leaf = leaf_store [OF wf1 t s2_def]
  have s': "s' = (if pte (load64 (mem s1) (slot t (pml_index 12 virt))) \<noteq> None then flush_tlb s2 else s2)"
    using set by (auto simp: pml1_set_def s2_def pte_def Let_def split: if_splits)
  show "pt_wf s'" using leaf by (simp add: s')
  show eff: "translate s' = vm_map phys virt flags (translate s)"
    using leaf same(1) by (auto simp: s' vm_map_def pte_def fun_eq_iff)
  show "pml4 s' = pml4 s" "hhdm_addr s' = hhdm_addr s" "taken s \<subseteq> taken s'"
    using same by (auto simp: s' s2_def flush_tlb_def taken_def frame_addr_def)
  have "t \<in> taken s1" "frame_wf s1" using pt_taken [OF wf1 table_path_ok t] wf1 by (simp_all add: pt_wf_def)
  from slot_store_region [OF this(2,1) pml_index_bound] same(6)
  have "agree_on (mem s1) (mem s2) (- frame_region s)" by (simp add: s2_def)
  then show "frame_region s' = frame_region s" "agree_on (mem s) (mem s') (- frame_region s)"
    using same(6) agree_on_trans [OF on] by (auto simp: s' s2_def flush_tlb_def frame_region_def)
  have "translate s virt = pte (load64 (mem s1) (slot t (pml_index 12 virt)))"
    using t unfolding same(1) [symmetric] by (simp add: translate_def pte_def)
  then have "tlb s' = (if translate s virt \<noteq> None then Map.empty else tlb s)"
    using same(2) by (auto simp: s' s2_def flush_tlb_def)
  then show "tlb_ok s'" if "tlb_ok s"
    using that translate_vpn [of _ virt s] unfolding tlb_ok_def eff vm_map_def
    by (metis option.distinct(1))
qed

text \<open>
  (C3) \<open>Mem::Paging::map\<close>, when it returns: the walk the processor performs finds the new entry
  \<open>phys | flags\<close> (none, when it lacks the present bit) at every address of the page of \<open>virt\<close>, and
  at every other address what it found before; the tables stay well formed, and a translation buffer
  that held only current translations still does.
\<close>

theorem Paging_map_correct:
  assumes "pt_wf s" and "tlb_ok s" and "Paging_map phys virt flags s = Inr s'"
  shows "pt_wf s' \<and> tlb_ok s' \<and>
    (\<forall>w. translate s' w =
       (if vpn w = vpn virt then if (phys OR flags) AND PAGE_PRESENT \<noteq> 0 then Some (phys OR flags) else None
        else translate s w))"
  using Paging_map_effect [OF assms(1,3)] assms(2) by (simp add: vm_map_def pte_def)

section \<open>When mapping returns\<close>

lemma pml_next_present:
  assumes "pt_wf s" and "pt_path (p @ [i])" and "tbl s p = Some t" and "tbl s (p @ [i]) = Some t'"
  shows "pml_next t i s = Inr (t', s)"
proof -
  have "t \<noteq> 0"
    using taken_nonzero [OF _ pt_taken [OF assms(1) _ assms(3)]] assms(1,2) by (simp add: pt_wf_def pt_path_def)
  with assms(3,4) show ?thesis
    by (auto simp: pml_next_def Let_def table_at_append PHYS2VIRT_def split: if_splits)
qed

text \<open>The tables there are, by their paths, and the tables an address needs.\<close>

definition tables :: "'a paging_state_scheme \<Rightarrow> u16 list set" where
  "tables s = {p. pt_path p \<and> tbl s p \<noteq> None}"

definition table_paths :: "u64 \<Rightarrow> u16 list set" where
  "table_paths v = {take 1 (table_path v), take 2 (table_path v), table_path v}"

text \<open>One level takes a frame exactly when its table is missing.\<close>

lemma pml_next_exact:
  assumes wf: "pt_wf s" and path: "pt_path (p @ [i])" and t: "tbl s p = Some t"
    and room: "card ({p @ [i]} - tables s) \<le> free_ahead s"
  obtains t' s' where "pml_next t i s = Inr (t', s')" and "pt_wf s'" and "tbl s' (p @ [i]) = Some t'"
    and "tables s' = insert (p @ [i]) (tables s)" and "free_ahead s = free_ahead s' + card ({p @ [i]} - tables s)"
proof (cases "tbl s (p @ [i])")
  case (Some t')
  then have "p @ [i] \<in> tables s" using path by (simp add: tables_def)
  then have "insert (p @ [i]) (tables s) = tables s" "{p @ [i]} - tables s = {}" by auto
  then show thesis using that [OF pml_next_present [OF wf path t Some] wf Some] by simp
next
  case None
  then have new: "{p @ [i]} - tables s = {p @ [i]}" by (auto simp: tables_def)
  have fw: "frame_wf s" using wf by (simp add: pt_wf_def)
  obtain f s1 where al: "Frame_alloc s = (f, s1)" by fastforce
  have "0 < free_ahead s" using room new by simp
  note fr = free_ahead_alloc [OF fw al this]
  have absent: "load64 (mem s) (slot t i) AND PAGE_PRESENT = 0" using None t by (simp add: table_at_append Let_def split: if_splits)
  define s' where "s' = s1\<lparr>mem := store64 (mem s1) (slot t i) (VIRT2PHYS s1 f OR PAGE_PRESENT OR PAGE_WRITE)\<rparr>"
  have "t \<noteq> 0" using taken_nonzero [OF fw pt_taken [OF wf _ t]] path by (simp add: pt_path_def)
  then have nx: "pml_next t i s = Inr (f, s')" using absent al by (simp add: pml_next_def s'_def)
  note ok = pml_next_ok [OF wf path t nx fr(1)]
  have "tables s' = insert (p @ [i]) (tables s)"
    using new_table_tbl [OF wf path t absent al fr(1) s'_def] path by (auto simp: tables_def)
  moreover have "free_ahead s = free_ahead s' + 1" using fr(2) by (simp add: s'_def free_ahead_def)
  ultimately show thesis using that [OF nx] ok new by (simp add: pt_extends_def)
qed

lemma card_new:
  "x \<noteq> y \<Longrightarrow> x \<noteq> z \<Longrightarrow> y \<noteq> z \<Longrightarrow>
   card ({x, y, z} - P) = card ({x} - P) + card ({y} - insert x P) + card ({z} - insert y (insert x P))"
  by (simp add: insert_Diff_if)

lemma Paging_map_exact:
  assumes wf: "pt_wf s" and room: "card (table_paths virt - tables s) \<le> free_ahead s"
  obtains s' where "Paging_map phys virt flags s = Inr s'" and "tables s' = tables s \<union> table_paths virt"
    and "free_ahead s = free_ahead s' + card (table_paths virt - tables s)"
proof -
  let ?a = "pml_index 39 virt" and ?b = "pml_index 30 virt" and ?c = "pml_index 21 virt"
  have paths: "pt_path ([] @ [?a])" "pt_path ([?a] @ [?b])" "pt_path ([?a, ?b] @ [?c])"
    by (simp_all add: pt_path_def)
  have tp: "table_paths virt = {[] @ [?a], [?a] @ [?b], [?a, ?b] @ [?c]}" by (simp add: table_paths_def table_path_def)
  have c: "card (table_paths virt - tables s) = card ({[] @ [?a]} - tables s) +
      card ({[?a] @ [?b]} - insert ([] @ [?a]) (tables s)) +
      card ({[?a, ?b] @ [?c]} - insert ([?a] @ [?b]) (insert ([] @ [?a]) (tables s)))"
    unfolding tp by (rule card_new) simp_all
  have t0: "tbl s [] = Some (pml4 s)" and r0: "card ({[] @ [?a]} - tables s) \<le> free_ahead s" using room c by simp_all
  obtain t3 s3 where 3: "pml_next (pml4 s) ?a s = Inr (t3, s3)" "pt_wf s3" "tbl s3 ([] @ [?a]) = Some t3"
      "tables s3 = insert ([] @ [?a]) (tables s)" "free_ahead s = free_ahead s3 + card ({[] @ [?a]} - tables s)"
    by (rule pml_next_exact [OF wf paths(1) t0 r0])
  have r3: "card ({[?a] @ [?b]} - tables s3) \<le> free_ahead s3" using room c 3(4,5) by simp
  obtain t2 s2 where 2: "pml_next t3 ?b s3 = Inr (t2, s2)" "pt_wf s2" "tbl s2 ([?a] @ [?b]) = Some t2"
      "tables s2 = insert ([?a] @ [?b]) (tables s3)" "free_ahead s3 = free_ahead s2 + card ({[?a] @ [?b]} - tables s3)"
    by (rule pml_next_exact [OF 3(2) paths(2) 3(3)[simplified append_Nil] r3])
  have r2: "card ({[?a, ?b] @ [?c]} - tables s2) \<le> free_ahead s2" using room c 3(4,5) 2(4,5) by simp
  obtain t1 s1 where 1: "pml_next t2 ?c s2 = Inr (t1, s1)" "pt_wf s1" "tbl s1 ([?a, ?b] @ [?c]) = Some t1"
      "tables s1 = insert ([?a, ?b] @ [?c]) (tables s2)" "free_ahead s2 = free_ahead s1 + card ({[?a, ?b] @ [?c]} - tables s2)"
    by (rule pml_next_exact [OF 2(2) paths(3) 2(3)[simplified append_Cons append_Nil] r2])
  have "t1 \<noteq> 0"
    using taken_nonzero [OF _ pt_taken [OF 1(2) paths(3) 1(3)]] 1(2) by (simp add: pt_wf_def)
  let ?s = "s1\<lparr>mem := store64 (mem s1) (slot t1 (pml_index 12 virt)) (phys OR flags)\<rparr>"
  obtain s' where s': "pml1_set t1 (pml_index 12 virt) (phys OR flags) s1 = Inr s'" "s' = ?s \<or> s' = flush_tlb ?s"
    using \<open>t1 \<noteq> 0\<close> by (simp add: pml1_set_def Let_def)
  have "tbl s1 (table_path virt) = Some t1" using 1(3) by (simp add: table_path_def)
  then have "tables ?s = tables s1" unfolding tables_def using leaf_store_tbl [OF 1(2)] by auto
  moreover have "tables (flush_tlb ?s) = tables ?s" by (simp add: tables_def flush_tlb_def)
  ultimately have "tables s' = tables s1" using s'(2) by auto
  moreover have "free_ahead s' = free_ahead s1" using s'(2) by (auto simp: free_ahead_def flush_tlb_def)
  moreover have "Paging_map phys virt flags s = Inr s'" using s'(1) 1 2 3 by (simp add: Paging_map_def)
  ultimately show thesis using that [of s'] 1(4,5) 2(4,5) 3(4,5) c by (auto simp: tp)
qed

lemma card_table_paths: "finite (table_paths v)" "card (table_paths v - P) \<le> 3"
proof -
  show fin: "finite (table_paths v)" by (simp add: table_paths_def)
  have "card (table_paths v - P) \<le> card (table_paths v)" by (intro card_mono fin) blast
  also have "\<dots> \<le> 3" unfolding table_paths_def by (simp add: card_insert_if)
  finally show "card (table_paths v - P) \<le> 3" .
qed

lemma Paging_map_room:
  assumes wf: "pt_wf s" and room: "3 \<le> free_ahead s"
  obtains s' where "Paging_map phys virt flags s = Inr s'" and "free_ahead s \<le> free_ahead s' + 3"
proof -
  have "card (table_paths virt - tables s) \<le> 3" by (rule card_table_paths)
  moreover from this have "card (table_paths virt - tables s) \<le> free_ahead s" using room by simp
  then obtain s' where "Paging_map phys virt flags s = Inr s'" "free_ahead s = free_ahead s' + card (table_paths virt - tables s)"
    using Paging_map_exact [OF wf] by metis
  ultimately show thesis using that by simp
qed

lemma pml_next_exhausted:
  assumes "pt_wf s" and "pt_path (p @ [i])" and "tbl s p = Some t" and "tbl s (p @ [i]) = None"
    and "free_ahead s = 0"
  shows "\<exists>s'. pml_next t i s = Inr (0, s')"
proof -
  have fw: "frame_wf s" using assms by (simp add: pt_wf_def)
  obtain f s1 where al: "Frame_alloc s = (f, s1)" by fastforce
  from fw al have "f = 0"
  proof (cases rule: Frame_alloc_cases)
    case (found l)
    then have "l \<in> {k. latest_frame s \<le> k \<and> k < available_frames s \<and> \<not> frames s k}" by simp
    with assms(5) show ?thesis by (auto simp: free_ahead_def)
  qed
  moreover have "t \<noteq> 0"
    using taken_nonzero [OF fw pt_taken [OF assms(1) _ assms(3)]] assms(2) by (simp add: pt_path_def)
  ultimately show ?thesis
    using assms(3,4) al by (auto simp: pml_next_def Let_def table_at_append split: if_splits)
qed

lemma Paging_map_exhausted:
  assumes wf: "pt_wf s" and full: "free_ahead s = 0" and none: "tbl s (table_path virt) = None"
  shows "Paging_map phys virt flags s = Inl NullDeref"
proof -
  let ?a = "pml_index 39 virt" and ?b = "pml_index 30 virt" and ?c = "pml_index 21 virt"
  have paths: "pt_path ([] @ [?a])" "pt_path ([?a] @ [?b])" "pt_path ([?a, ?b] @ [?c])"
    by (simp_all add: pt_path_def)
  have null [simp]: "pml_next 0 i u = Inl NullDeref" "pml1_set 0 i e u = Inl NullDeref"
    for i e and u :: "'a paging_state_scheme"
    by (simp_all add: pml_next_def pml1_set_def)
  show ?thesis
  proof (cases "tbl s [?a]")
    case None
    then show ?thesis
      using pml_next_exhausted [OF wf paths(1) _ _ full] by (auto simp: Paging_map_def)
  next
    case (Some t3)
    then have 3: "pml_next (pml4 s) ?a s = Inr (t3, s)"
      using pml_next_present [OF wf paths(1)] by simp
    show ?thesis
    proof (cases "tbl s [?a, ?b]")
      case None
      then show ?thesis
        using Some 3 pml_next_exhausted [OF wf paths(2) _ _ full] by (auto simp: Paging_map_def)
    next
      case (Some t2)
      then have "pml_next t3 ?b s = Inr (t2, s)"
        using \<open>tbl s [?a] = Some t3\<close> pml_next_present [OF wf paths(2)] by simp
      moreover have "\<exists>s'. pml_next t2 ?c s = Inr (0, s')"
        using pml_next_exhausted [OF wf paths(3) _ _ full] Some none by (simp add: table_path_def)
      ultimately show ?thesis using 3 by (auto simp: Paging_map_def)
    qed
  qed
qed

text \<open>
  (C31) \<open>Mem::Paging::map\<close> returns whenever three frames are left for the tables it may have to
  create. With no frame left it faults on the null pointer \<open>alloc\<close> hands it whenever the address
  needs a new table: the error of the allocator is not checked.
\<close>

theorem Paging_map_returns:
  assumes "pt_wf s"
  shows "(3 \<le> free_ahead s \<longrightarrow> (\<exists>s'. Paging_map phys virt flags s = Inr s')) \<and>
         (free_ahead s = 0 \<and> tbl s (table_path virt) = None \<longrightarrow>
            Paging_map phys virt flags s = Inl NullDeref)"
  using Paging_map_exhausted [OF assms] Paging_map_room [OF assms] by metis

lemma Paging_unmap_cases:
  assumes "pt_wf s"
  shows "Paging_unmap virt s = Inr (case tbl s (table_path virt) of None \<Rightarrow> s
           | Some t \<Rightarrow> flush_tlb (s\<lparr>mem := store64 (mem s) (slot t (pml_index 12 virt)) 0\<rparr>))"
proof -
  have "pml4 s \<noteq> 0"
    using taken_nonzero [OF _ pml4_taken [OF assms]] assms by (simp add: pt_wf_def)
  then show ?thesis
    by (simp add: Paging_unmap_def table_path_def pml_step_def PHYS2VIRT_def Let_def)
qed

lemma Paging_unmap_effect:
  assumes wf: "pt_wf s"
  obtains s' where "Paging_unmap virt s = Inr s'" and "pt_wf s'"
    and "translate s' = vm_unmap virt (translate s)" and "tlb_ok s \<Longrightarrow> tlb_ok s'"
proof (cases "tbl s (table_path virt)")
  case None
  then have "translate s w = None" if "vpn w = vpn virt" for w
    using that by (simp add: translate_def vpn_indices)
  then have "translate s = vm_unmap virt (translate s)" by (auto simp: vm_unmap_def)
  then show ?thesis
    using that [of s] Paging_unmap_cases [OF wf, of virt] None wf by simp
next
  case (Some t)
  define s1 where "s1 = s\<lparr>mem := store64 (mem s) (slot t (pml_index 12 virt)) 0\<rparr>"
  have "pt_wf s1" and "translate s1 = vm_unmap virt (translate s)"
    using leaf_store [OF wf Some s1_def] by (auto simp: vm_unmap_def)
  moreover have "tlb_ok (flush_tlb s1)" by (simp add: tlb_ok_def flush_tlb_def)
  ultimately show ?thesis
    using that [of "flush_tlb s1"] Paging_unmap_cases [OF wf, of virt] Some by (simp add: s1_def)
qed

text \<open>
  (C12) \<open>Mem::Paging::unmap\<close> returns, and afterwards no address of the page of \<open>virt\<close> is translated,
  neither by the tables nor by the translation buffer, and every other address as before.
\<close>

theorem Paging_unmap_correct:
  assumes "pt_wf s" and "tlb_ok s"
  shows "\<exists>s'. Paging_unmap virt s = Inr s' \<and> pt_wf s' \<and> tlb_ok s' \<and>
    (\<forall>w. if vpn w = vpn virt then translate s' w = None \<and> tlb s' (vpn w) = None
         else translate s' w = translate s w)"
proof -
  obtain s' where s': "Paging_unmap virt s = Inr s'" "pt_wf s'" "translate s' = vm_unmap virt (translate s)"
      "tlb_ok s'"
    using Paging_unmap_effect [OF assms(1)] assms(2) by metis
  moreover from s' have "tlb s' (vpn virt) = None"
    unfolding tlb_ok_def vm_unmap_def by (metis option.exhaust option.simps(3))
  ultimately show ?thesis by (auto simp: vm_unmap_def)
qed

section \<open>The page tables under any sequence of operations\<close>

inductive paging_step :: "'a paging_state_scheme \<Rightarrow> 'a paging_state_scheme \<Rightarrow> bool" where
  step_map: "Paging_map phys virt flags s = Inr s' \<Longrightarrow> paging_step s s'"
| step_unmap: "Paging_unmap virt s = Inr s' \<Longrightarrow> paging_step s s'"
| step_fill: "paging_step s (tlb_fill v s)"

lemma translate_tlb [simp]: "translate (s\<lparr>tlb := b\<rparr>) = translate s"
  by (simp add: translate_def fun_eq_iff split: option.split)

lemma tlb_fill_ok:
  assumes "tlb_ok s"
  shows "tlb_ok (tlb_fill v s)"
proof (cases "translate s v")
  case (Some e)
  have "translate s w = Some e" if "vpn w = vpn v" for w
    using translate_vpn [OF that, of s] Some by simp
  with Some assms show ?thesis by (simp add: tlb_fill_def tlb_ok_def)
qed (use assms in \<open>simp add: tlb_fill_def\<close>)

lemma tlb_fill_wf: "pt_wf s \<Longrightarrow> pt_wf (tlb_fill v s)"
  by (simp add: tlb_fill_def split: option.split)

interpretation pt: step_invariant paging_step "\<lambda>s. pt_wf s \<and> tlb_ok s"
proof
  fix s s' :: "'a paging_state_scheme"
  assume "paging_step s s'" and inv: "pt_wf s \<and> tlb_ok s"
  then show "pt_wf s' \<and> tlb_ok s'"
  proof cases
    case (step_map phys virt flags)
    with inv Paging_map_effect show ?thesis by blast
  next
    case (step_unmap virt)
    with inv show ?thesis by (metis Inr_inject Paging_unmap_effect)
  next
    case (step_fill v)
    with inv tlb_fill_ok tlb_fill_wf show ?thesis by blast
  qed
qed

text \<open>
  (C6) Through any interleaving of \<open>map\<close>, \<open>unmap\<close> and the processor filling its translation
  buffer, the tables stay well formed and the buffer never holds a stale translation: the flush in
  \<open>map\<close> when it replaces a present entry, and the one in \<open>unmap\<close>, are enough.
\<close>

theorem paging_coherent:
  assumes "paging_step\<^sup>*\<^sup>* s s'" and "pt_wf s" and "tlb_ok s" and "tlb s' (vpn v) = Some e"
  shows "pt_wf s' \<and> translate s' v = Some e"
  using pt.reachable_inv [OF assms(1)] assms(2-4) by (auto simp: tlb_ok_def)

section \<open>The contract of the virtual memory\<close>

text \<open>What the code that maps many pages relies on.\<close>

definition vm_run :: "(u64 \<times> u64 \<times> u64) list \<Rightarrow> (u64 \<Rightarrow> u64 option) \<Rightarrow> u64 \<Rightarrow> u64 option" where
  "vm_run rs T = foldl (\<lambda>T (phys, virt, flags). vm_map phys virt flags T) T rs"

lemma vm_run_Nil [simp]: "vm_run [] T = T"
  by (simp add: vm_run_def)

lemma vm_run_Cons [simp]: "vm_run ((p, v, f) # rs) T = vm_run rs (vm_map p v f T)"
  by (simp add: vm_run_def)

lemma vm_run_append: "vm_run (rs @ rs') T = vm_run rs' (vm_run rs T)"
  by (simp add: vm_run_def)

lemma vm_run_other:
  "(\<And>p v f. (p, v, f) \<in> set rs \<Longrightarrow> vpn v \<noteq> vpn w) \<Longrightarrow> vm_run rs T w = T w"
proof (induction rs arbitrary: T)
  case (Cons r rs)
  obtain p v f where r: "r = (p, v, f)" by (cases r)
  have "vpn v \<noteq> vpn w" using Cons.prems [of p v f] r by simp
  then have "vm_map p v f T w = T w" by (simp add: vm_map_def)
  moreover have "vm_run rs (vm_map p v f T) w = vm_map p v f T w"
    by (rule Cons.IH) (use Cons.prems in auto)
  ultimately show ?case using r by simp
qed simp

text \<open>Requests that agree on the entry of a page leave it with that entry.\<close>

lemma vm_run_hit:
  assumes "(p, v, f) \<in> set rs" and "vpn v = vpn w"
    and "\<And>p' v' f'. (p', v', f') \<in> set rs \<Longrightarrow> vpn v' = vpn w \<Longrightarrow> p' OR f' = e"
  shows "vm_run rs T w = pte e"
  using assms
proof (induction rs arbitrary: T rule: rev_induct)
  case (snoc r rs)
  obtain p' v' f' where r: "r = (p', v', f')" by (cases r)
  show ?case
  proof (cases "vpn v' = vpn w")
    case True
    with snoc.prems(3) [of p' v' f'] r show ?thesis by (simp add: vm_run_append vm_map_def)
  next
    case False
    with snoc.prems(1,2) r have "(p, v, f) \<in> set rs" by auto
    then have "vm_run rs T w = pte e"
      using snoc.prems by (intro snoc.IH) auto
    with False r show ?thesis by (simp add: vm_run_append vm_map_def)
  qed
qed simp

locale virtual_memory =
  fixes map_page :: "u64 \<Rightarrow> u64 \<Rightarrow> u64 \<Rightarrow> 's \<Rightarrow> fault + 's"
    and inv :: "'s \<Rightarrow> bool"
    and view :: "'s \<Rightarrow> u64 \<Rightarrow> u64 option"
    and room :: "'s \<Rightarrow> nat"
    and present :: "'s \<Rightarrow> 'p set" and need :: "u64 \<Rightarrow> 'p set"
  assumes map_ok: "inv s \<Longrightarrow> map_page p v f s = Inr s' \<Longrightarrow> inv s' \<and> view s' = vm_map p v f (view s)"
    and map_room: "inv s \<Longrightarrow> card (need v - present s) \<le> room s \<Longrightarrow> \<exists>s'. map_page p v f s = Inr s' \<and>
          present s' = present s \<union> need v \<and> room s = room s' + card (need v - present s)"
    and need_finite: "finite (need v)" and need_small: "card (need v - P) \<le> 3"
begin

definition needs :: "(u64 \<times> u64 \<times> u64) list \<Rightarrow> 'p set" where
  "needs rs = (\<Union>(p, v, f) \<in> set rs. need v)"

lemma needs_simps [simp]: "needs [] = {}" "needs ((p, v, f) # rs) = need v \<union> needs rs" "finite (needs rs)"
  by (auto simp: needs_def need_finite)

lemma card_needs: "card (needs rs - P) \<le> 3 * length rs"
proof (induction rs arbitrary: P)
  case (Cons r rs)
  obtain p v f where r: "r = (p, v, f)" by (cases r)
  have "card (needs (r # rs) - P) \<le> card (need v - P) + card (needs rs - P)"
    unfolding r needs_simps Un_Diff by (rule card_Un_le)
  then show ?case using Cons.IH [of P] need_small [of v P] by simp
qed simp

definition map_all :: "(u64 \<times> u64 \<times> u64) list \<Rightarrow> 's \<Rightarrow> fault + 's" where
  "map_all = run_list (\<lambda>(p, v, f). map_page p v f)"

lemma map_all_ok: "inv s \<Longrightarrow> map_all rs s = Inr s' \<Longrightarrow> inv s' \<and> view s' = vm_run rs (view s)"
proof (induction rs arbitrary: s)
  case (Cons r rs)
  obtain p v f where r: "r = (p, v, f)" by (cases r)
  with Cons.prems(2) obtain s1 where "map_page p v f s = Inr s1" and "map_all rs s1 = Inr s'"
    by (auto simp: map_all_def split: sum.splits)
  with map_ok [OF Cons.prems(1), of p v f s1] Cons.IH [of s1] r show ?case by simp
qed (simp add: map_all_def)

text \<open>A list of requests needs as many frames as the tables it shares have to be made.\<close>

lemma map_all_exact:
  "inv s \<Longrightarrow> card (needs rs - present s) \<le> room s \<Longrightarrow>
   \<exists>s'. map_all rs s = Inr s' \<and> room s = room s' + card (needs rs - present s)"
proof (induction rs arbitrary: s)
  case (Cons r rs)
  obtain p v f where r: "r = (p, v, f)" by (cases r)
  have "needs (r # rs) - present s = (need v - present s) \<union> (needs rs - (present s \<union> need v))" by (auto simp: r)
  moreover have "card \<dots> = card (need v - present s) + card (needs rs - (present s \<union> need v))"
    by (rule card_Un_disjoint) (auto simp: need_finite)
  ultimately have c: "card (needs (r # rs) - present s) = card (need v - present s) + card (needs rs - (present s \<union> need v))"
    by simp
  obtain s1 where s1: "map_page p v f s = Inr s1" "present s1 = present s \<union> need v"
      "room s = room s1 + card (need v - present s)"
    using map_room [OF Cons.prems(1), of v p f] Cons.prems(2) c by auto
  have "inv s1" using map_ok [OF Cons.prems(1) s1(1)] by simp
  then obtain s' where "map_all rs s1 = Inr s'" "room s1 = room s' + card (needs rs - present s1)"
    using Cons.IH [of s1] Cons.prems(2) c s1 by auto
  then show ?case using r s1 c by (simp add: map_all_def)
qed (simp add: map_all_def)

lemma map_all_tables:
  assumes "inv s" and "card (needs rs - present s) \<le> room s"
  obtains s' where "map_all rs s = Inr s'" and "inv s'" and "view s' = vm_run rs (view s)"
    and "room s = room s' + card (needs rs - present s)"
  using map_all_exact [OF assms] map_all_ok [OF assms(1)] by blast

lemma map_all_run:
  assumes "inv s" and "3 * length rs \<le> room s"
  obtains s' where "map_all rs s = Inr s'" and "inv s'" and "view s' = vm_run rs (view s)"
  using map_all_tables [OF assms(1), of rs] card_needs [of rs "present s"] assms(2) by auto

end

interpretation pg: virtual_memory Paging_map pt_wf translate free_ahead tables table_paths
proof
  fix s s' :: "'a paging_state_scheme" and p v f
  assume "pt_wf s" and "Paging_map p v f s = Inr s'"
  then show "pt_wf s' \<and> translate s' = vm_map p v f (translate s)"
    using Paging_map_effect by blast
next
  fix s :: "'a paging_state_scheme" and p v f
  assume "pt_wf s" and "card (table_paths v - tables s) \<le> free_ahead s"
  then show "\<exists>s'. Paging_map p v f s = Inr s' \<and> tables s' = tables s \<union> table_paths v \<and>
      free_ahead s = free_ahead s' + card (table_paths v - tables s)"
    using Paging_map_exact by metis
qed (rule card_table_paths)+

section \<open>Ranges of pages\<close>

definition Paging_map_range ::
    "u64 \<Rightarrow> u64 \<Rightarrow> u64 \<Rightarrow> u64 \<Rightarrow> 'a paging_state_scheme \<Rightarrow> (fault + u32 \<times> 'a paging_state_scheme) option" where
  "Paging_map_range phys virt sz flags s =
     (case for_loop (\<lambda>i. Paging_map (phys + i) (virt + i) flags) FRAME_SIZE 0 sz s of
        None \<Rightarrow> None
      | Some (Inl e) \<Rightarrow> Some (Inl e)
      | Some (Inr s') \<Rightarrow> Some (Inr (ucast (sz div FRAME_SIZE), s')))"

definition Paging_map_mmio ::
    "u64 \<Rightarrow> u64 \<Rightarrow> 'a paging_state_scheme \<Rightarrow> (fault + u64 \<times> 'a paging_state_scheme) option" where
  "Paging_map_mmio phys_addr sz s =
     (let aligned_phys = ROUND_DOWN phys_addr;
          offset = phys_addr - aligned_phys;
          aligned_size = ALIGN_UP (sz + offset) 0x1000;
          virt_addr = PHYS2VIRT s aligned_phys;
          flags = PAGE_PRESENT OR PAGE_WRITE OR PAGE_UNCACHE
      in case Paging_map_range aligned_phys virt_addr aligned_size flags s of
           None \<Rightarrow> None
         | Some (Inl e) \<Rightarrow> Some (Inl e)
         | Some (Inr (_, s')) \<Rightarrow> Some (Inr (virt_addr + offset, s')))"

lemma unat_vpn: "unat (vpn v) = unat v div 4096 mod 2 ^ 36"
  by (simp add: vpn_def take_bit_eq_mod drop_bit_eq_div unat_div unat_mod flip: take_bit_eq_mask)

lemma unat_vpn_offset:
  assumes "unat (virt :: u64) mod 4096 = 0"
  shows "unat (vpn (virt + off)) = (unat virt div 4096 + unat off div 4096) mod 2 ^ 36"
proof -
  obtain a where a: "unat virt = 4096 * a" using assms by auto
  have "unat (virt + off) = (4096 * a + unat off) mod (4096 * 2 ^ 52)"
    by (simp add: unat_word_ariths a)
  then have "unat (virt + off) div 4096 = (4096 * a + unat off) div 4096 mod 2 ^ 52"
    unfolding mod_mult2_eq by (simp only:)
  also have "(4096 * a + unat off) div 4096 = a + unat off div 4096" by simp
  finally have "unat (vpn (virt + off)) = (a + unat off div 4096) mod 2 ^ 52 mod 2 ^ 36"
    by (simp only: unat_vpn)
  also have "\<dots> = (a + unat off div 4096) mod 2 ^ 36"
    by (rule mod_mod_cancel) (simp add: le_imp_power_dvd)
  finally show ?thesis by (simp add: a)
qed

lemma mod_add_left_inj:
  assumes "(a + q) mod n = (a + k) mod n" and "q < n" and "k < (n :: nat)"
  shows "q = k"
proof -
  have "q = k" if eq: "(a + q) mod n = (a + k) mod n" and "k \<le> q" "q < n" for q k :: nat
  proof -
    have "n dvd q - k" using eq that(2) by (simp add: mod_eq_dvd_iff_nat)
    with that(2,3) show ?thesis by (metis diff_is_0_eq' dvd_imp_le le_antisym less_imp_diff_less linorder_not_le neq0_conv diff_is_0_eq)
  qed
  from this [of q k] this [of k q] assms show ?thesis by (metis nle_le)
qed

text \<open>Two offsets below \<open>2 ^ 48\<close> from an aligned address lie in one page when they have the same page part.\<close>

lemma vpn_offset_eq:
  assumes "unat (virt :: u64) mod 4096 = 0" and "unat x < 2 ^ 48" and "unat y < 2 ^ 48"
  shows "vpn (virt + x) = vpn (virt + y) \<longleftrightarrow> unat x div 4096 = unat y div 4096"
proof
  assume "vpn (virt + x) = vpn (virt + y)"
  then have "(unat virt div 4096 + unat x div 4096) mod 2 ^ 36 = (unat virt div 4096 + unat y div 4096) mod 2 ^ 36"
    using unat_vpn_offset [OF assms(1)] by metis
  then show "unat x div 4096 = unat y div 4096"
    by (rule mod_add_left_inj) (use assms(2,3) in \<open>simp_all add: less_mult_imp_div_less\<close>)
next
  assume "unat x div 4096 = unat y div 4096"
  then show "vpn (virt + x) = vpn (virt + y)"
    using unat_vpn_offset [OF assms(1)] by (metis word_unat_eq_iff)
qed

lemma unat_ROUND_DOWN: "unat (ROUND_DOWN x) = 4096 * (unat x div 4096)"
proof -
  have "ROUND_DOWN x = x AND NOT (mask 12)" by (simp add: ROUND_DOWN_def mask_eq_exp_minus_1)
  also have "\<dots> = push_bit 12 (drop_bit 12 x)"
    by (rule bit_word_eqI) (auto simp: bit_and_iff bit_not_iff bit_mask_iff bit_push_bit_iff bit_drop_bit_eq)
  also have "unat \<dots> = take_bit 64 (4096 * (unat x div 4096))"
    by (simp add: push_bit_eq_mult drop_bit_eq_div unat_word_ariths unat_div take_bit_eq_mod
        mod_mult_right_eq mult.commute)
  also have "\<dots> = 4096 * (unat x div 4096)"
  proof (rule take_bit_nat_eq_self)
    have "unat x < 2 ^ 64" using unsigned_less [of x, where 'a = nat] by simp
    then show "4096 * (unat x div 4096) < 2 ^ 64" by (metis le_less_trans times_div_less_eq_dividend)
  qed
  finally show ?thesis .
qed

lemma unat_ALIGN_UP:
  assumes "unat x + 4095 < 2 ^ 64"
  shows "unat (ALIGN_UP x 0x1000) = (unat x + 4095) div 4096 * 4096"
proof -
  have "unat (x + (0x1000 - 1)) = unat x + 4095"
    using assms by (subst unat_plus_if') simp
  moreover have "(unat x + 4095) div 4096 * 4096 < 2 ^ 64"
    using assms by (metis le_less_trans div_times_less_eq_dividend)
  ultimately show ?thesis
    by (simp add: ALIGN_UP_def ROUND_UP_def unat_word_ariths unat_div)
qed

text \<open>The requests of \<open>map_range\<close>.\<close>

definition range_requests :: "u64 \<Rightarrow> u64 \<Rightarrow> u64 \<Rightarrow> u64 \<Rightarrow> (u64 \<times> u64 \<times> u64) list" where
  "range_requests phys virt sz flags =
     map (\<lambda>i. (phys + i, virt + i, flags)) (for_range FRAME_SIZE 0 sz)"

lemma length_range_requests [simp]:
  "length (range_requests phys virt sz flags) = (unat sz + 4095) div 4096"
  by (simp add: range_requests_def for_range_def)

lemma map_loop_requests:
  assumes "unat sz + 4096 \<le> 2 ^ 64"
  shows "for_loop (\<lambda>i. Paging_map (phys + i) (virt + i) flags) FRAME_SIZE 0 sz s =
         Some (pg.map_all (range_requests phys virt sz flags) s)"
  using assms by (subst for_loop_run)
    (simp_all add: pg.map_all_def range_requests_def run_list_map)

lemma for_range_pages:
  "for_range FRAME_SIZE a (b :: u64) = map (\<lambda>k. a + of_nat k * FRAME_SIZE) [0..<(unat b - unat a + 4095) div 4096]"
proof -
  have u: "unat (FRAME_SIZE :: u64) = 4096" by simp
  have "unat b - unat a + 4096 - 1 = unat b - unat a + 4095" by simp
  then show ?thesis unfolding for_range_def u by (simp only:)
qed

lemma unat_page_offset: "4096 * k < 2 ^ 64 \<Longrightarrow> unat (of_nat k * FRAME_SIZE :: u64) = 4096 * k"
  by (simp add: unat_word_ariths unsigned_of_nat take_bit_nat_eq_self mult.commute)

lemma page_index:
  assumes "k < (unat (sz :: u64) + 4095) div 4096" and "unat sz \<le> 2 ^ 48"
  shows "unat (of_nat k * FRAME_SIZE :: u64) = 4096 * k" and "4096 * k < unat sz"
proof -
  show lt: "4096 * k < unat sz" using assms(1) by (simp add: less_eq_div_iff_mult_less_eq Suc_le_eq [symmetric])
  then have "4096 * k < 2 ^ 64" using assms(2) by simp
  then show "unat (of_nat k * FRAME_SIZE :: u64) = 4096 * k" by (rule unat_page_offset)
qed

lemma in_range_requests:
  "(p, v, f) \<in> set (range_requests phys virt sz flags) \<longleftrightarrow>
   (\<exists>k < (unat sz + 4095) div 4096.
      p = phys + of_nat k * FRAME_SIZE \<and> v = virt + of_nat k * FRAME_SIZE \<and> f = flags)"
  by (auto simp: range_requests_def for_range_def add.commute [of "unat sz"])

lemma vm_run_range:
  assumes virt: "unat virt mod 4096 = 0" and sz: "unat sz \<le> 2 ^ 48" and off: "off < sz"
  shows "vm_run (range_requests phys virt sz flags) T (virt + off) = pte ((phys + ROUND_DOWN off) OR flags)"
proof -
  note pi = page_index [OF _ sz]
  let ?k = "unat off div 4096"
  have k: "?k < (unat sz + 4095) div 4096"
    using off by (simp add: word_less_nat_alt div_less_iff_less_mult)
  have rd: "of_nat ?k * FRAME_SIZE = ROUND_DOWN off"
    using pi(1) [OF k] by (simp add: word_unat_eq_iff unat_ROUND_DOWN)
  have small: "unat off < 2 ^ 48" "unat (ROUND_DOWN off) < 2 ^ 48"
    using off sz by (simp_all add: word_less_nat_alt unat_ROUND_DOWN)
  show ?thesis
  proof (rule vm_run_hit)
    show "(phys + ROUND_DOWN off, virt + ROUND_DOWN off, flags) \<in> set (range_requests phys virt sz flags)"
      using k rd unfolding in_range_requests by metis
    show "vpn (virt + ROUND_DOWN off) = vpn (virt + off)"
      using vpn_offset_eq [OF virt small(2,1)] by (simp add: unat_ROUND_DOWN)
    fix p v f
    assume "(p, v, f) \<in> set (range_requests phys virt sz flags)" and same: "vpn v = vpn (virt + off)"
    then obtain j where j: "j < (unat sz + 4095) div 4096" and r: "p = phys + of_nat j * FRAME_SIZE"
        "v = virt + of_nat j * FRAME_SIZE" "f = flags"
      by (auto simp: in_range_requests)
    have "unat (of_nat j * FRAME_SIZE :: u64) < 2 ^ 48" using pi [OF j] sz by simp
    then have "j = ?k"
      using same vpn_offset_eq [OF virt _ small(1)] pi(1) [OF j] r(2) by simp
    then show "p OR f = (phys + ROUND_DOWN off) OR flags" using r rd by simp
  qed
qed

lemma vm_run_outside:
  assumes sz: "unat sz \<le> 2 ^ 48" and out: "\<forall>off < sz. vpn w \<noteq> vpn (virt + off)"
  shows "vm_run (range_requests phys virt sz flags) T w = T w"
proof (rule vm_run_other)
  fix p v f
  assume "(p, v, f) \<in> set (range_requests phys virt sz flags)"
  then obtain j where j: "j < (unat sz + 4095) div 4096" and v: "v = virt + of_nat j * FRAME_SIZE"
    by (auto simp: in_range_requests)
  have "of_nat j * FRAME_SIZE < sz" using page_index [OF j sz] by (simp add: word_less_nat_alt)
  with out v show "vpn v \<noteq> vpn w" by metis
qed

lemma Paging_map_range_run:
  assumes "pt_wf s" and "unat sz \<le> 2 ^ 48" and "3 * ((unat sz + 4095) div 4096) \<le> free_ahead s"
  obtains s' where "Paging_map_range phys virt sz flags s = Some (Inr (ucast (sz div FRAME_SIZE), s'))"
    and "pt_wf s'" and "translate s' = vm_run (range_requests phys virt sz flags) (translate s)"
proof -
  obtain s' where "pg.map_all (range_requests phys virt sz flags) s = Inr s'" and "pt_wf s'"
      and "translate s' = vm_run (range_requests phys virt sz flags) (translate s)"
    by (rule pg.map_all_run [OF assms(1), of "range_requests phys virt sz flags"]) (use assms(3) in simp_all)
  moreover have "unat sz + 4096 \<le> 2 ^ 64" using assms(2) by simp
  ultimately show thesis
    using that map_loop_requests [of sz phys virt flags s] by (simp add: Paging_map_range_def)
qed

text \<open>
  (C19) \<open>Mem::Paging::map_range\<close> on a page aligned virtual address, with room for the tables: it
  returns the number of whole pages of the range, and then each byte of the range is translated to
  the byte at the same offset of the physical range (the last, partial page included) and every
  page outside the range as before.
\<close>

theorem Paging_map_range_correct:
  assumes "pt_wf s" and "unat virt mod 4096 = 0" and "unat sz \<le> 2 ^ 48"
    and "3 * ((unat sz + 4095) div 4096) \<le> free_ahead s"
  shows "\<exists>s'. Paging_map_range phys virt sz flags s = Some (Inr (ucast (sz div FRAME_SIZE), s')) \<and> pt_wf s' \<and>
    (\<forall>off < sz. translate s' (virt + off) = pte ((phys + ROUND_DOWN off) OR flags)) \<and>
    (\<forall>w. (\<forall>off < sz. vpn w \<noteq> vpn (virt + off)) \<longrightarrow> translate s' w = translate s w)"
  using Paging_map_range_run [OF assms(1,3,4), of phys virt flags] vm_run_range [OF assms(2,3)]
    vm_run_outside [OF assms(3)] by metis

lemma ROUND_DOWN_le: "ROUND_DOWN x \<le> x"
  by (simp add: word_le_nat_alt unat_ROUND_DOWN)

lemma ROUND_DOWN_shift: "unat (a::u64) mod 4096 = 0 \<Longrightarrow> unat a + unat x < 2 ^ 64 \<Longrightarrow> ROUND_DOWN (a + x) = a + ROUND_DOWN x"
proof -
  assume "unat a mod 4096 = 0" and lt: "unat a + unat x < 2 ^ 64"
  then obtain q where q: "unat a = 4096 * q" by auto
  have "unat (a + x) = unat a + unat x" using lt by (subst unat_plus_if') simp
  moreover have "unat (a + ROUND_DOWN x) = unat a + 4096 * (unat x div 4096)"
    using lt times_div_less_eq_dividend [of 4096 "unat x"]
    by (subst unat_add_lem [THEN iffD1]) (simp_all add: unat_ROUND_DOWN)
  ultimately show ?thesis by (simp add: word_unat_eq_iff unat_ROUND_DOWN q)
qed

text \<open>
  \<open>Mem::Paging::map_mmio\<close> for device registers anywhere in the physical address space: it
  returns a pointer, and each of the \<open>sz\<close> bytes behind that pointer is translated, uncached and
  writable, to the frame that holds the same byte of the device.
\<close>

theorem Paging_map_mmio_correct:
  assumes wf: "pt_wf s" and h: "unat (hhdm_addr s) mod 4096 = 0" and fits: "unat phys_addr + unat sz \<le> 2 ^ 47"
    and room: "3 * (unat sz div 4096 + 2) \<le> free_ahead s"
  shows "\<exists>s'. Paging_map_mmio phys_addr sz s = Some (Inr (PHYS2VIRT s phys_addr, s')) \<and> pt_wf s' \<and>
    (\<forall>j < sz. translate s' (PHYS2VIRT s phys_addr + j) =
       Some (ROUND_DOWN (phys_addr + j) OR PAGE_PRESENT OR PAGE_WRITE OR PAGE_UNCACHE))"
proof -
  define ap where "ap = ROUND_DOWN phys_addr"
  define off where "off = phys_addr - ap"
  define asz where "asz = ALIGN_UP (sz + off) 0x1000"
  define fl where "fl = PAGE_PRESENT OR PAGE_WRITE OR PAGE_UNCACHE"
  define va where "va = PHYS2VIRT s ap"
  have uap: "unat ap = 4096 * (unat phys_addr div 4096)" by (simp add: ap_def unat_ROUND_DOWN)
  have uoff: "unat off = unat phys_addr mod 4096"
    using uap by (simp add: off_def ap_def unat_sub ROUND_DOWN_le minus_mult_div_eq_mod)
  then have loff: "unat off < 4096" by simp
  have usz: "unat (sz + off) = unat sz + unat off"
    using fits loff by (subst unat_add_lem [THEN iffD1]) simp_all
  have uasz: "unat asz = (unat sz + unat off + 4095) div 4096 * 4096"
    using fits loff by (simp add: asz_def unat_ALIGN_UP usz)
  have le: "unat asz \<le> 2 ^ 48" using fits loff uasz by simp
  have "(unat sz + unat off + 4095) div 4096 \<le> (unat sz + 2 * 4096) div 4096"
    by (rule div_le_mono) (use loff in simp)
  also have "\<dots> = unat sz div 4096 + 2" by simp
  finally have "3 * ((unat asz + 4095) div 4096) \<le> free_ahead s"
    using room by (simp add: uasz)
  then obtain s' where map: "Paging_map_range ap va asz fl s = Some (Inr (ucast (asz div FRAME_SIZE), s'))"
      and "pt_wf s'" and T: "translate s' = vm_run (range_requests ap va asz fl) (translate s)"
    by (rule Paging_map_range_run [OF wf le])
  have ret: "va + off + j = PHYS2VIRT s phys_addr + j" for j by (simp add: va_def off_def PHYS2VIRT_def)
  have "translate s' (PHYS2VIRT s phys_addr + j) = Some (ROUND_DOWN (phys_addr + j) OR fl)" if "j < sz" for j
  proof -
    have uj: "unat (off + j) = unat off + unat j"
      using that fits loff by (subst unat_add_lem [THEN iffD1]) (simp_all add: word_less_nat_alt)
    have lt: "off + j < asz" using that by (simp add: word_less_nat_alt uj uasz)
    have va: "unat va mod 4096 = 0"
    proof -
      have "4096 dvd (unat (hhdm_addr s) + unat ap) mod 2 ^ 64"
        using h uap by (intro dvd_mod dvd_add) (auto simp: mod_eq_0_iff_dvd)
      then show ?thesis by (simp add: va_def PHYS2VIRT_def unat_word_ariths mod_eq_0_iff_dvd)
    qed
    have "unat ap mod 4096 = 0" and "unat ap + unat (off + j) < 2 ^ 64"
      using that fits uap uoff uj by (simp_all add: word_less_nat_alt)
    then have "ap + ROUND_DOWN (off + j) = ROUND_DOWN (phys_addr + j)"
      using ROUND_DOWN_shift [of ap "off + j"] by (simp add: off_def)
    then show ?thesis
      using vm_run_range [OF va le lt, of ap fl] ret [of j] T by (simp add: algebra_simps pte_def fl_def)
  qed
  moreover have "Paging_map_mmio phys_addr sz s = Some (Inr (va + off, s'))"
    using map by (simp add: Paging_map_mmio_def Let_def flip: ap_def off_def asz_def fl_def va_def)
  ultimately show ?thesis using ret [of 0] \<open>pt_wf s'\<close> by (auto simp: fl_def)
qed

section \<open>Empty tables\<close>

lemma empty_tables:
  assumes "frame_wf s" and "phys_ok s" and "pml4 s \<in> taken s"
    and "\<And>i. i < 512 \<Longrightarrow> load64 (mem s) (slot (pml4 s) i) = 0"
  shows "pt_wf s" and "translate s v = None"
proof -
  have none: "tbl s p = (if p = [] then Some (pml4 s) else None)" if "pt_path p" for p
    using that assms(4) by (cases p) (auto simp: pt_path_def)
  then show "pt_wf s"
    using assms(1-3) by (auto simp: pt_wf_def split: if_splits)
  show "translate s v = None"
    using none [OF table_path_ok [of v]] by (simp add: translate_def table_path_def)
qed

section \<open>Witnesses\<close>

definition ex_paging :: paging_state where
  "ex_paging = frame_state.extend
     (ex_frames\<lparr>mem := (\<lambda>_. 0), available_frames := 64\<rparr>)
     (paging_state.fields 0xffff800000100000 Map.empty 0 0 0)"

lemma ex_paging_sel [simp]:
  "mem ex_paging = (\<lambda>_. 0)" "hhdm_addr ex_paging = 0xffff800000000000" "pml4 ex_paging = 0xffff800000100000"
  "frames ex_paging = (\<lambda>k. k < 2)" "latest_frame ex_paging = 0" "available_frames ex_paging = 64"
  "base_addr ex_paging = 0xffff800000100000" "tlb ex_paging = Map.empty"
  by (simp_all add: ex_paging_def ex_frames_def frame_state.defs paging_state.defs)

lemma ex_paging_wf [simp]: "pt_wf ex_paging" and ex_paging_none [simp]: "translate ex_paging v = None"
  and ex_paging_tlb [simp]: "tlb_ok ex_paging"
proof -
  have "frame_addr ex_paging 0 = pml4 ex_paging" by (simp add: frame_addr_def)
  then have "pml4 ex_paging \<in> taken ex_paging" unfolding taken_def by (intro image_eqI [of _ _ 0]) simp_all
  moreover have "frame_wf ex_paging" "phys_ok ex_paging" by (simp_all add: frame_wf_def phys_ok_def)
  moreover have "load64 (\<lambda>_. 0) a = 0" for a by (rule bit_word_eqI) (simp add: bit_load64)
  ultimately show "pt_wf ex_paging" and "translate ex_paging v = None"
    using empty_tables [of ex_paging] by simp_all
  show "tlb_ok ex_paging" by (simp add: tlb_ok_def)
qed

lemma ex_paging_room: "free_ahead ex_paging = 62"
  using card_word_range [of "2 :: u32" 64] by (simp add: free_ahead_def not_less conj_commute)

theorem Paging_map_returns_witness:
  "pt_wf ex_paging \<and> 3 \<le> free_ahead ex_paging \<and> (\<exists>s'. Paging_map 0x5000 0x400000 3 ex_paging = Inr s')"
  using Paging_map_returns [OF ex_paging_wf] by (simp add: ex_paging_room)

theorem Paging_map_correct_witness:
  "pt_wf ex_paging \<and> tlb_ok ex_paging \<and>
   (\<exists>s'. Paging_map 0x5000 0x400000 3 ex_paging = Inr s' \<and> translate s' 0x400123 = Some 0x5003 \<and>
      translate s' 0x401000 = None)"
proof -
  obtain s' where s': "Paging_map 0x5000 0x400000 3 ex_paging = Inr s'"
    using Paging_map_room [OF ex_paging_wf, of "0x5000" "0x400000" 3] by (auto simp: ex_paging_room)
  have "vpn 0x400123 = vpn 0x400000" "vpn 0x401000 \<noteq> vpn 0x400000" 
    by (simp_all add: word_unat_eq_iff unat_vpn)
  then show ?thesis
    using Paging_map_correct [OF ex_paging_wf ex_paging_tlb s'] s' by (auto simp: PAGE_PRESENT_def)
qed

theorem Paging_unmap_correct_witness:
  "\<exists>s'. Paging_unmap 0x400000 ex_paging = Inr s' \<and> pt_wf s' \<and> tlb_ok s' \<and> translate s' 0x400000 = None"
  using Paging_unmap_correct [OF ex_paging_wf ex_paging_tlb, of "0x400000"] by auto

theorem paging_coherent_witness:
  "\<exists>s s'. Paging_map 0x5000 0x400000 3 ex_paging = Inr s \<and> s' = tlb_fill 0x400000 s \<and>
     paging_step\<^sup>*\<^sup>* ex_paging s' \<and> tlb s' (vpn 0x400000) = Some 0x5003 \<and> translate s' 0x400000 = Some 0x5003"
proof -
  obtain s where s: "Paging_map 0x5000 0x400000 3 ex_paging = Inr s"
    using Paging_map_room [OF ex_paging_wf, of "0x5000" "0x400000" 3] by (auto simp: ex_paging_room)
  have "translate s 0x400000 = Some 0x5003"
    using Paging_map_effect(2) [OF ex_paging_wf s] by (simp add: vm_map_def pte_def PAGE_PRESENT_def)
  then have tlb: "tlb (tlb_fill 0x400000 s) (vpn 0x400000) = Some 0x5003" by (simp add: tlb_fill_def)
  have steps: "paging_step\<^sup>*\<^sup>* ex_paging (tlb_fill 0x400000 s)"
    using step_map [OF s] step_fill [of s "0x400000"]
    by (metis (mono_tags, opaque_lifting) converse_rtranclp_into_rtranclp rtranclp.rtrancl_refl)
  show ?thesis
    using paging_coherent [OF steps ex_paging_wf ex_paging_tlb tlb] s tlb steps by blast
qed

theorem Paging_map_range_correct_witness:
  "\<exists>s'. Paging_map_range 0x5000 0x400000 0x1800 3 ex_paging = Some (Inr (1, s')) \<and>
     translate s' (0x400000 + 0x17ff) = pte ((0x5000 + ROUND_DOWN 0x17ff) OR 3)"
proof -
  have "3 * ((unat (0x1800 :: u64) + 4095) div 4096) \<le> free_ahead ex_paging" by (simp add: ex_paging_room)
  moreover have "unat (0x400000 :: u64) mod 4096 = 0" "unat (0x1800 :: u64) \<le> 2 ^ 48" by simp_all
  moreover have "0x17ff < (0x1800 :: u64)" by simp
  ultimately show ?thesis
    using Paging_map_range_correct [OF ex_paging_wf, of "0x400000" "0x1800" "0x5000" 3] by fastforce
qed

theorem Paging_map_mmio_correct_witness:
  "\<exists>s'. Paging_map_mmio 0xfec00010 0x10 ex_paging = Some (Inr (0xffff8000fec00010, s')) \<and>
     translate s' (0xffff8000fec00010 + 4) = Some 0xfec00013"
proof -
  have "unat (hhdm_addr ex_paging) mod 4096 = 0" "unat (0xfec00010 :: u64) + unat (0x10 :: u64) \<le> 2 ^ 47"
    "3 * (unat (0x10 :: u64) div 4096 + 2) \<le> free_ahead ex_paging" "4 < (0x10 :: u64)"
    by (simp_all add: ex_paging_room)
  then show ?thesis
    using Paging_map_mmio_correct [OF ex_paging_wf, of "0xfec00010" "0x10"]
    by (auto simp: PHYS2VIRT_def ROUND_DOWN_def PAGE_PRESENT_def PAGE_WRITE_def PAGE_UNCACHE_def
        dest!: spec [of _ 4])
qed

end
