(* ===== verification/Heap.thy ===== *)
theory Heap
  imports Paging
begin

unbundle bit_operations_syntax

text \<open>
  The kernel heap, \<open>include/mem/heap.h\<close> and \<open>kernel/mem/heap/heap.cc\<close>: a list of heap pages, each a
  run of frames that holds a header and a list of segments, each a header of 32 bytes and its
  payload. \<open>kmalloc\<close> is first fit, splits the segment it takes, and adds a page when nothing fits;
  \<open>kfree\<close> marks a segment free and merges it with a free successor.

  Headers are read and written in memory at the offsets of the C structs: \<open>heap_page_t\<close> has \<open>addr\<close>
  at 0, \<open>first\<close> at 8, the 32 bit \<open>free_size\<close> at 16 and \<open>next\<close> at 24, \<open>heap_segment_t\<close> has \<open>addr\<close> at 0,
  \<open>size\<close> at 8, the byte \<open>free\<close> at 16 and \<open>next\<close> at 24; both take 32 bytes. The loops over the lists
  are \<open>None\<close> when they do not end.
\<close>

section \<open>State and operations\<close>

record heap_state = paging_state +
  heap :: u64

definition page_segments_init :: "u64 \<Rightarrow> memory \<Rightarrow> memory" where
  "page_segments_init page m0 =
     (let segment = load64 m0 page;
          m1 = store32 m0 (page + 16) (load32 m0 (page + 16) - 32);
          m2 = store64 m1 segment (segment + 32);
          m3 = store64 m2 (segment + 8) (ucast (load32 m2 (page + 16)));
          m4 = store8 m3 (segment + 16) 1;
          m5 = store64 m4 (segment + 24) 0
      in store64 m5 (page + 8) segment)"

text \<open>Without frames the code executes \<open>hlt\<close>; the execution ends there, at \<open>Halted\<close>.\<close>

definition create_heap_page :: "u64 \<Rightarrow> 'a heap_state_scheme \<Rightarrow> fault + (u64 \<times> 'a heap_state_scheme)" where
  "create_heap_page sz s =
     (let (alloc_size, num_pages) =
        (if sz + 32 + 32 \<le> FRAME_SIZE then (FRAME_SIZE, 1 :: u32)
         else (32 + 32 + sz, ucast (ROUND_UP (32 + 32 + sz) FRAME_SIZE)));
          (page, s1) = Frame_allocs (ucast num_pages) s
      in if page = 0 then Inl Halted
         else (let m1 = store64 (mem s1) page (page + 32);
                   m2 = store32 m1 (page + 16) (ucast (alloc_size - 32));
                   m3 = page_segments_init page m2;
                   m4 = store64 m3 (page + 24) 0
               in Inr (page, s1\<lparr>mem := m4\<rparr>)))"

definition alloc_segment :: "u64 \<Rightarrow> u64 \<Rightarrow> u64 \<Rightarrow> memory \<Rightarrow> u64 \<times> memory" where
  "alloc_segment page segment sz m =
     (let m' = (if load64 m (segment + 8) > sz + 32
                then (let fragment = load64 m segment + sz;
                          m1 = store64 m fragment (fragment + 32);
                          m2 = store64 m1 (fragment + 8) (load64 m1 (segment + 8) - sz - 32);
                          m3 = store8 m2 (fragment + 16) 1;
                          m4 = store64 m3 (fragment + 24) (load64 m3 (segment + 24));
                          m5 = store64 m4 (segment + 8) sz
                      in store64 m5 (segment + 24) fragment)
                else m);
          m6 = store32 m' (page + 16) (load32 m' (page + 16) - ucast (load64 m' (segment + 8)));
          m7 = store8 m6 (segment + 16) 0
      in (load64 m7 segment, m7))"

definition try_segment_merge :: "u64 \<Rightarrow> u64 \<Rightarrow> memory \<Rightarrow> memory" where
  "try_segment_merge page segment m =
     (let nx = load64 m (segment + 24) in
      if nx \<noteq> 0 \<and> m (nx + 16) \<noteq> 0
      then (let m1 = store64 m (segment + 8) (load64 m (segment + 8) + (load64 m (nx + 8) + 32));
                m2 = store64 m1 (segment + 24) (load64 m1 (nx + 24))
            in store32 m2 (page + 16) (load32 m2 (page + 16) + 32))
      else m)"

text \<open>The inner loop of \<open>kmalloc\<close>: the first segment that fits, 0 when there is none.\<close>

partial_function (option) find_fit :: "memory \<Rightarrow> u64 \<Rightarrow> u64 \<Rightarrow> u64 option" where
  [code]: "find_fit m sz segment =
     (if segment = 0 then Some 0
      else if m (segment + 16) \<noteq> 0 \<and> load64 m (segment + 8) \<ge> sz then Some segment
      else find_fit m sz (load64 m (segment + 24)))"

text \<open>The outer loop: the page and segment found, or the last page and 0.\<close>

partial_function (option) find_page :: "memory \<Rightarrow> u64 \<Rightarrow> u64 \<Rightarrow> (u64 \<times> u64) option" where
  [code]: "find_page m sz page =
     (case find_fit m sz (load64 m (page + 8)) of
        None \<Rightarrow> None
      | Some segment \<Rightarrow>
          if segment \<noteq> 0 then Some (page, segment)
          else if load64 m (page + 24) = 0 then Some (page, 0)
          else find_page m sz (load64 m (page + 24)))"

partial_function (option) kmalloc ::
    "u64 \<Rightarrow> 'a heap_state_scheme \<Rightarrow> (fault + (u64 \<times> 'a heap_state_scheme)) option" where
  [code]: "kmalloc sz s =
     (case (if heap s = 0 then (case create_heap_page sz s of Inl e \<Rightarrow> Inl e | Inr (p, s1) \<Rightarrow> Inr (s1\<lparr>heap := p\<rparr>))
            else Inr s) of
        Inl e \<Rightarrow> Some (Inl e)
      | Inr s1 \<Rightarrow>
          (case find_page (mem s1) sz (heap s1) of
             None \<Rightarrow> None
           | Some (page, segment) \<Rightarrow>
               if segment \<noteq> 0
               then (let (p, m) = alloc_segment page segment sz (mem s1) in Some (Inr (p, s1\<lparr>mem := m\<rparr>)))
               else (case create_heap_page sz s1 of
                       Inl e \<Rightarrow> Some (Inl e)
                     | Inr (p, s2) \<Rightarrow> kmalloc sz (s2\<lparr>mem := store64 (mem s2) (page + 24) p\<rparr>))))"

text \<open>The loops of \<open>kfree\<close>. The variable \<open>segment\<close> is set before the outer loop only.\<close>

partial_function (option) find_addr :: "memory \<Rightarrow> u64 \<Rightarrow> u64 \<Rightarrow> u64 option" where
  [code]: "find_addr m addr segment =
     (if segment = 0 then Some 0
      else if load64 m segment = addr then Some segment
      else find_addr m addr (load64 m (segment + 24)))"

partial_function (option) kfree_loop :: "memory \<Rightarrow> u64 \<Rightarrow> u64 \<Rightarrow> u64 \<Rightarrow> (u64 \<times> u64) option" where
  [code]: "kfree_loop m addr page segment =
     (if page = 0 then Some (0, 0)
      else case find_addr m addr segment of
             None \<Rightarrow> None
           | Some seg \<Rightarrow> if seg \<noteq> 0 then Some (page, seg)
                         else kfree_loop m addr (load64 m (page + 24)) 0)"

text \<open>What \<open>kfree\<close> does with the segment it found.\<close>

definition release_segment :: "u64 \<Rightarrow> u64 \<Rightarrow> memory \<Rightarrow> memory" where
  "release_segment page segment m =
     (let m1 = store8 m (segment + 16) 1;
          m2 = store32 m1 (page + 16) (load32 m1 (page + 16) + ucast (load64 m1 (segment + 8)))
      in try_segment_merge page segment m2)"

definition kfree :: "u64 \<Rightarrow> 'a heap_state_scheme \<Rightarrow> (fault + (bool \<times> 'a heap_state_scheme)) option" where
  "kfree addr s =
     (if heap s = 0 then Some (Inl NullDeref)
      else case kfree_loop (mem s) addr (heap s) (load64 (mem s) (heap s + 8)) of
             None \<Rightarrow> None
           | Some (page, segment) \<Rightarrow>
               if page = 0 then Some (Inr (False, s))
               else Some (Inr (True, s\<lparr>mem := release_segment page segment (mem s)\<rparr>)))"

section \<open>Segments\<close>

text \<open>A segment: the address of its header, its size and whether it is free.\<close>

type_synonym segment = "u64 \<times> u64 \<times> bool"

definition header :: "memory \<Rightarrow> segment \<Rightarrow> bool" where
  "header m x \<longleftrightarrow> (case x of (a, n, f) \<Rightarrow>
     load64 m a = a + 32 \<and> load64 m (a + 8) = n \<and> (m (a + 16) \<noteq> 0) = f)"

text \<open>The linked list of segments from \<open>p\<close> up to, not including, \<open>q\<close>.\<close>

fun segs :: "memory \<Rightarrow> u64 \<Rightarrow> segment list \<Rightarrow> u64 \<Rightarrow> bool" where
  "segs m p [] q \<longleftrightarrow> p = q"
| "segs m p (x # xs) q \<longleftrightarrow> p = fst x \<and> p \<noteq> 0 \<and> header m x \<and> segs m (load64 m (p + 24)) xs q"

lemma segs_append: "segs m p (xs @ ys) q \<longleftrightarrow> (\<exists>r. segs m p xs r \<and> segs m r ys q)"
  by (induction xs arbitrary: p) auto

text \<open>
  The segments of a page follow one another without a gap, from byte \<open>lo\<close> up to byte \<open>hi\<close>, which is
  what lets \<open>try_segment_merge\<close> add up the sizes of two of them.
\<close>

fun laid :: "nat \<Rightarrow> segment list \<Rightarrow> nat \<Rightarrow> bool" where
  "laid lo [] hi \<longleftrightarrow> lo = hi"
| "laid lo ((a, n, f) # xs) hi \<longleftrightarrow> unat a = lo \<and> laid (lo + 32 + unat n) xs hi"

lemma laid_append: "laid lo (xs @ ys) hi \<longleftrightarrow> (\<exists>mid. laid lo xs mid \<and> laid mid ys hi)"
  by (induction lo xs hi rule: laid.induct) auto

lemma laid_le: "laid lo xs hi \<Longrightarrow> lo \<le> hi"
  by (induction lo xs hi rule: laid.induct) auto

lemma laid_bounds: "laid lo xs hi \<Longrightarrow> (a, n, f) \<in> set xs \<Longrightarrow> lo \<le> unat a \<and> unat a + 32 + unat n \<le> hi"
  by (induction lo xs hi rule: laid.induct) (auto dest: laid_le)

definition header_bytes :: "segment \<Rightarrow> nat set" where
  "header_bytes x = {unat (fst x)..<unat (fst x) + 32}"

definition payload_bytes :: "segment \<Rightarrow> nat set" where
  "payload_bytes x = {unat (fst x) + 32..<unat (fst x) + 32 + unat (fst (snd x))}"

lemma header_on:
  assumes "agree_on m m' (header_bytes x)" and "unat (fst x) + 32 \<le> 2 ^ 64"
  shows "header m' x = header m x" and "load64 m' (fst x + 24) = load64 m (fst x + 24)"
proof -
  obtain a n f where x: "x = (a, n, f)" by (cases x)
  have u: "unat (a + 8) = unat a + 8" "unat (a + 16) = unat a + 16" "unat (a + 24) = unat a + 24"
    using assms(2) x by (simp_all add: unat_offset)
  have sub: "agree_on m m' {unat a + k..<unat a + k + j}" if "k + j \<le> 32" for k j
    using assms(1) that by (elim agree_on_mono) (auto simp: header_bytes_def x)
  have "load64 m' a = load64 m a"
    using sub [of 0 8] assms(2) x by (intro load64_on) simp_all
  moreover have "load64 m' (a + 8) = load64 m (a + 8)"
    using sub [of 8 8] assms(2) x u by (intro load64_on) simp_all
  moreover have "m' (a + 16) = m (a + 16)"
    using sub [of 16 1] u by (simp add: agree_on_def)
  ultimately show "header m' x = header m x" by (simp add: header_def x)
  show "load64 m' (fst x + 24) = load64 m (fst x + 24)"
    using sub [of 24 8] assms(2) x u by (intro load64_on) simp_all
qed

lemma segs_on:
  assumes "\<And>x. x \<in> set xs \<Longrightarrow> agree_on m m' (header_bytes x) \<and> unat (fst x) + 32 \<le> 2 ^ 64"
  shows "segs m' p xs q = segs m p xs q"
  using assms
proof (induction xs arbitrary: p)
  case (Cons x xs)
  have "agree_on m m' (header_bytes x)" "unat (fst x) + 32 \<le> 2 ^ 64" using Cons.prems by simp_all
  then have "header m' x = header m x" "load64 m' (fst x + 24) = load64 m (fst x + 24)"
    using header_on by blast+
  with Cons show ?case by auto
qed simp

text \<open>Different segments of a page have no byte in common.\<close>

lemma laid_disjoint:
  assumes "laid lo (ys @ x # zs) hi" and "y \<in> set ys \<union> set zs"
  shows "(header_bytes x \<union> payload_bytes x) \<inter> (header_bytes y \<union> payload_bytes y) = {}"
proof -
  obtain a n f b k g where x: "x = (a, n, f)" and y: "y = (b, k, g)" by (cases x, cases y)
  obtain mid where mid: "laid lo ys mid" "unat a = mid" "laid (mid + 32 + unat n) zs hi"
    using assms(1) by (auto simp: laid_append x)
  from assms(2) consider "y \<in> set ys" | "y \<in> set zs" by auto
  then have "unat b + 32 + unat k \<le> unat a \<or> unat a + 32 + unat n \<le> unat b"
    by cases (use mid laid_bounds y in blast)+
  then show ?thesis by (auto simp: x y header_bytes_def payload_bytes_def)
qed

section \<open>The loops\<close>

lemma find_fit_found:
  "segs m p (ys @ (a, n, True) # zs) q \<Longrightarrow> sz \<le> n \<Longrightarrow> (\<forall>(b, k, f) \<in> set ys. \<not> (f \<and> sz \<le> k)) \<Longrightarrow>
   find_fit m sz p = Some a"
proof (induction ys arbitrary: p)
  case Nil
  then show ?case by (subst find_fit.simps) (auto simp: header_def)
next
  case (Cons y ys)
  obtain b k f where y: "y = (b, k, f)" by (cases y)
  from Cons show ?case by (subst find_fit.simps) (auto simp: header_def y)
qed

lemma find_fit_none:
  "segs m p xs 0 \<Longrightarrow> (\<forall>(b, k, f) \<in> set xs. \<not> (f \<and> sz \<le> k)) \<Longrightarrow> find_fit m sz p = Some 0"
proof (induction xs arbitrary: p)
  case Nil
  then show ?case by (subst find_fit.simps) simp
next
  case (Cons y ys)
  obtain b k f where y: "y = (b, k, f)" by (cases y)
  from Cons show ?case by (subst find_fit.simps) (auto simp: header_def y)
qed

lemma find_addr_found:
  "segs m p (ys @ (a, n, f) # zs) q \<Longrightarrow> (\<forall>y \<in> set ys. fst y \<noteq> a) \<Longrightarrow> find_addr m (a + 32) p = Some a"
proof (induction ys arbitrary: p)
  case Nil
  then show ?case by (subst find_addr.simps) (auto simp: header_def)
next
  case (Cons y ys)
  obtain b k g where y: "y = (b, k, g)" by (cases y)
  from Cons show ?case by (subst find_addr.simps) (auto simp: header_def y)
qed

lemma find_addr_none:
  "segs m p xs 0 \<Longrightarrow> (\<forall>y \<in> set xs. fst y + 32 \<noteq> addr) \<Longrightarrow> find_addr m addr p = Some 0"
proof (induction xs arbitrary: p)
  case Nil
  then show ?case by (subst find_addr.simps) simp
next
  case (Cons y ys)
  obtain b k g where y: "y = (b, k, g)" by (cases y)
  from Cons show ?case by (subst find_addr.simps) (auto simp: header_def y)
qed

section \<open>The stores of the operations\<close>

text \<open>
  What the operations write, for headers of 32 bytes that are apart from one another. The bytes that
  change are the page's \<open>free_size\<close> and the headers named.
\<close>

lemma alloc_split_stores:
  assumes "apart32 a b" "apart32 q a" "apart32 q b"
    and "header m (a, n, True)" and "sz + 32 < n" and "b = a + 32 + sz"
    and "alloc_segment q a sz m = (p, m')"
  shows "p = a + 32" and "header m' (a, sz, False)" and "header m' (b, n - sz - 32, True)"
    and "load64 m' (a + 24) = b" and "load64 m' (b + 24) = load64 m (a + 24)"
    and "load64 m' (q + 8) = load64 m (q + 8)" and "load64 m' (q + 24) = load64 m (q + 24)"
proof -
  have sym: "apart32 b a" "apart32 a q" "apart32 b q" using assms(1-3) by (simp_all add: apart32_sym)
  have ne: "a \<noteq> b" using assms(1) by (rule apart32_neq)
  have m': "m' = (let m1 = store64 m b (b + 32);
                m2 = store64 m1 (b + 8) (n - sz - 32);
                m3 = store8 m2 (b + 16) 1;
                m4 = store64 m3 (b + 24) (load64 m (a + 24));
                m5 = store64 m4 (a + 8) sz;
                m' = store64 m5 (a + 24) b;
                m6 = store32 m' (q + 16) (load32 m' (q + 16) - ucast sz)
            in store8 m6 (a + 16) 0)" and p: "p = a + 32"
    using assms(1-3) sym ne assms(6) [symmetric] assms(4,5,7)
    by (simp_all add: alloc_segment_def header_def Let_def mem_simps addr_simps)
  show "p = a + 32" by (rule p)
  show "header m' (a, sz, False)" "header m' (b, n - sz - 32, True)" "load64 m' (a + 24) = b"
    "load64 m' (b + 24) = load64 m (a + 24)" "load64 m' (q + 8) = load64 m (q + 8)"
    "load64 m' (q + 24) = load64 m (q + 24)"
    using assms(1-4) sym ne by (simp_all add: m' header_def Let_def mem_simps addr_simps)
qed

lemma alloc_whole_stores:
  assumes "apart32 q a" and "header m (a, n, True)" and "\<not> sz + 32 < n"
    and "alloc_segment q a sz m = (p, m')"
  shows "p = a + 32" and "header m' (a, n, False)" and "load64 m' (a + 24) = load64 m (a + 24)"
    and "load64 m' (q + 8) = load64 m (q + 8)" and "load64 m' (q + 24) = load64 m (q + 24)"
proof -
  have sym: "apart32 a q" using assms(1) by (simp add: apart32_sym)
  have "p = a + 32 \<and> m' = store8 (store32 m (q + 16) (load32 m (q + 16) - ucast n)) (a + 16) 0"
    using assms(1) sym assms(2,3,4) by (simp add: alloc_segment_def header_def Let_def mem_simps addr_simps)
  then show "p = a + 32" "header m' (a, n, False)" "load64 m' (a + 24) = load64 m (a + 24)"
    "load64 m' (q + 8) = load64 m (q + 8)" "load64 m' (q + 24) = load64 m (q + 24)"
    using assms(1,2) sym by (simp_all add: header_def mem_simps addr_simps)
qed

lemma split_fits:
  assumes "unat (a :: u64) + 32 + unat n \<le> 2 ^ 64" and "sz \<le> n" and "a \<noteq> 0" and "sz + 32 < (n :: u64)"
  shows "unat sz + 32 < unat n"
proof -
  have "0 < unat a" using assms(3) by (simp add: unat_gt_0)
  then have "unat sz + 32 < 2 ^ 64" using assms(1,2) by (simp add: word_le_nat_alt)
  with assms(4) show ?thesis by (simp add: word_less_nat_alt unat_offset)
qed

text \<open>The bytes an operation on a segment may change: those of the segment, and \<open>free_size\<close>.\<close>

lemma alloc_segment_on:
  assumes "alloc_segment q a sz m = (p, m')" and "load64 m a = a + 32" and "load64 m (a + 8) = n"
    and "unat a + 32 + unat n \<le> 2 ^ 64" and "unat q + 32 \<le> 2 ^ 64" and "sz \<le> n" and "a \<noteq> 0"
    and A: "A \<inter> {unat q + 16..<unat q + 20} = {}" "A \<inter> {unat a..<unat a + 32 + unat n} = {}"
  shows "agree_on m m' A"
proof -
  have q: "unat (q + 16) = unat q + 16" using assms(5) by (simp add: unat_offset)
  have a: "unat (a + 8) = unat a + 8" "unat (a + 16) = unat a + 16" "unat (a + 24) = unat a + 24"
    using assms(4) by (simp_all add: unat_offset)
  show ?thesis
  proof (cases "sz + 32 < n")
    case True
    have fits: "unat sz + 32 < unat n" using True assms(4,6,7) split_fits by blast
    define b where "b = a + 32 + sz"
    have a32: "unat (a + 32) = unat a + 32" using assms(4) fits by (simp add: unat_offset)
    have b: "unat b = unat a + 32 + unat sz"
      using assms(4) fits a32 unfolding b_def by (subst unat_offset) simp_all
    then have b': "unat (b + 8) = unat b + 8" "unat (b + 16) = unat b + 16" "unat (b + 24) = unat b + 24"
      using assms(4) fits by (simp_all add: unat_offset)
    have "m' = (let m1 = store64 m b (b + 32);
                m2 = store64 m1 (b + 8) (load64 m1 (a + 8) - sz - 32);
                m3 = store8 m2 (b + 16) 1;
                m4 = store64 m3 (b + 24) (load64 m3 (a + 24));
                m5 = store64 m4 (a + 8) sz;
                m' = store64 m5 (a + 24) b;
                m6 = store32 m' (q + 16) (load32 m' (q + 16) - ucast (load64 m' (a + 8)))
            in store8 m6 (a + 16) 0)"
      using assms(1-3) True by (simp add: alloc_segment_def Let_def b_def)
    then show ?thesis
      unfolding Let_def using A assms(4,5) q a b b' fits
      by (auto simp: disjoint_iff intro!: agree_on_store64 agree_on_store32 agree_on_store8)
  next
    case False
    have "m' = store8 (store32 m (q + 16) (load32 m (q + 16) - ucast n)) (a + 16) 0"
      using assms(1-3) False by (simp add: alloc_segment_def Let_def)
    then show ?thesis
      using A assms(4,5) q a by (auto simp: disjoint_iff intro!: agree_on_store32 agree_on_store8)
  qed
qed

lemma release_merge_stores:
  assumes "apart32 a b" "apart32 q a" "apart32 q b"
    and "header m (a, n, f)" and "load64 m (a + 24) = b" and "header m (b, k, True)" and "b \<noteq> 0"
  shows "header (release_segment q a m) (a, n + 32 + k, True)"
    and "load64 (release_segment q a m) (a + 24) = load64 m (b + 24)"
    and "load64 (release_segment q a m) (q + 8) = load64 m (q + 8)"
    and "load64 (release_segment q a m) (q + 24) = load64 m (q + 24)"
proof -
  have sym: "apart32 b a" "apart32 a q" "apart32 b q" using assms(1-3) by (simp_all add: apart32_sym)
  have ne: "a \<noteq> b" using assms(1) by (rule apart32_neq)
  have m': "release_segment q a m =
      (let m2 = store32 (store8 m (a + 16) 1) (q + 16) (load32 m (q + 16) + ucast n);
           m3 = store64 (store64 m2 (a + 8) (n + (k + 32))) (a + 24) (load64 m (b + 24))
       in store32 m3 (q + 16) (load32 m (q + 16) + ucast n + 32))"
    using assms(1-3) sym ne assms(4-7)
    by (simp add: release_segment_def try_segment_merge_def header_def Let_def mem_simps addr_simps)
  show "header (release_segment q a m) (a, n + 32 + k, True)"
    "load64 (release_segment q a m) (a + 24) = load64 m (b + 24)"
    "load64 (release_segment q a m) (q + 8) = load64 m (q + 8)"
    "load64 (release_segment q a m) (q + 24) = load64 m (q + 24)"
    unfolding m' Let_def using assms(1-4) sym ne by (simp_all add: header_def mem_simps addr_simps)
qed

lemma release_alone_stores:
  assumes "apart32 q a" and "header m (a, n, f)"
    and "load64 m (a + 24) = 0 \<or> apart32 a (load64 m (a + 24)) \<and> apart32 q (load64 m (a + 24)) \<and>
           m (load64 m (a + 24) + 16) = 0"
  shows "header (release_segment q a m) (a, n, True)"
    and "load64 (release_segment q a m) (a + 24) = load64 m (a + 24)"
    and "load64 (release_segment q a m) (q + 8) = load64 m (q + 8)"
    and "load64 (release_segment q a m) (q + 24) = load64 m (q + 24)"
proof -
  have sym: "apart32 a q" using assms(1) by (simp add: apart32_sym)
  define b where "b = load64 m (a + 24)"
  have m': "release_segment q a m = store32 (store8 m (a + 16) 1) (q + 16) (load32 m (q + 16) + ucast n)"
  proof (cases "b = 0")
    case False
    then have "apart32 a b" "apart32 q b" "m (b + 16) = 0" "a \<noteq> b" using assms(3) apart32_neq by (auto simp: b_def)
    moreover from this have "apart32 b a" "apart32 b q" by (simp_all add: apart32_sym)
    ultimately show ?thesis
      using assms(1) sym assms(2) b_def [symmetric]
      by (simp add: release_segment_def try_segment_merge_def header_def Let_def mem_simps addr_simps)
  qed (use assms(1,2) sym b_def in \<open>simp add: release_segment_def try_segment_merge_def header_def Let_def mem_simps addr_simps\<close>)
  show "header (release_segment q a m) (a, n, True)"
    "load64 (release_segment q a m) (a + 24) = load64 m (a + 24)"
    "load64 (release_segment q a m) (q + 8) = load64 m (q + 8)"
    "load64 (release_segment q a m) (q + 24) = load64 m (q + 24)"
    unfolding m' using assms(1,2) sym by (simp_all add: header_def mem_simps addr_simps)
qed

lemma release_segment_on:
  assumes "unat a + 32 \<le> 2 ^ 64" and "unat q + 32 \<le> 2 ^ 64"
    and A: "A \<inter> {unat q + 16..<unat q + 20} = {}" "A \<inter> {unat a..<unat a + 32} = {}"
  shows "agree_on m (release_segment q a m) A"
proof -
  have u: "unat (q + 16) = unat q + 16" "unat (a + 8) = unat a + 8" "unat (a + 16) = unat a + 16"
    "unat (a + 24) = unat a + 24"
    using assms(1,2) by (simp_all add: unat_offset)
  show ?thesis
    unfolding release_segment_def try_segment_merge_def Let_def using assms u
    by (auto simp: disjoint_iff intro!: agree_on_store64 agree_on_store32 agree_on_store8)
qed

section \<open>Pages\<close>

text \<open>A heap page: the address of its header, its length in bytes and its segments.\<close>

type_synonym hpage = "u64 \<times> nat \<times> segment list"

definition page_at :: "memory \<Rightarrow> hpage \<Rightarrow> bool" where
  "page_at m P \<longleftrightarrow> (case P of (q, len, xs) \<Rightarrow> q \<noteq> 0 \<and> segs m (load64 m (q + 8)) xs 0)"

definition page_laid :: "hpage \<Rightarrow> bool" where
  "page_laid P \<longleftrightarrow> (case P of (q, len, xs) \<Rightarrow>
     laid (unat q + 32) xs (unat q + len) \<and> unat q + len < 2 ^ 64)"

definition page_bytes :: "hpage \<Rightarrow> nat set" where
  "page_bytes P = (case P of (q, len, xs) \<Rightarrow> {unat q..<unat q + len})"

text \<open>The bytes the lists of the heap are read from.\<close>

definition meta_bytes :: "hpage \<Rightarrow> nat set" where
  "meta_bytes P = (case P of (q, len, xs) \<Rightarrow>
     {unat q + 8..<unat q + 16} \<union> {unat q + 24..<unat q + 32} \<union> \<Union> (header_bytes ` set xs))"

fun pages :: "memory \<Rightarrow> u64 \<Rightarrow> hpage list \<Rightarrow> u64 \<Rightarrow> bool" where
  "pages m p [] e \<longleftrightarrow> p = e"
| "pages m p (P # Ps) e \<longleftrightarrow> p = fst P \<and> page_at m P \<and> pages m (load64 m (p + 24)) Ps e"

lemma pages_append: "pages m p (Ps @ Qs) e \<longleftrightarrow> (\<exists>r. pages m p Ps r \<and> pages m r Qs e)"
  by (induction Ps arbitrary: p) auto

lemma page_laid_fits: "page_laid (q, len, xs) \<Longrightarrow> 32 \<le> len \<and> unat q + 32 \<le> 2 ^ 64"
  by (auto simp: page_laid_def dest!: laid_le)

lemma meta_subset: "page_laid P \<Longrightarrow> meta_bytes P \<subseteq> page_bytes P"
proof -
  assume l: "page_laid P"
  obtain q len xs where P: "P = (q, len, xs)" by (cases P)
  have "32 \<le> len" using l P page_laid_fits by blast
  moreover have "unat q + 32 \<le> unat a \<and> unat a + 32 + unat n \<le> unat q + len" if "(a, n, f) \<in> set xs" for a n f
    using l P that laid_bounds by (auto simp: page_laid_def)
  ultimately show ?thesis by (fastforce simp: P meta_bytes_def page_bytes_def header_bytes_def)
qed

lemma page_on:
  assumes "page_laid P" and "agree_on m m' (meta_bytes P)"
  shows "page_at m' P = page_at m P" and "load64 m' (fst P + 24) = load64 m (fst P + 24)"
proof -
  obtain q len xs where P: "P = (q, len, xs)" by (cases P)
  have q: "unat q + 32 \<le> 2 ^ 64" using assms(1) P page_laid_fits by blast
  have u: "unat (q + 8) = unat q + 8" "unat (q + 24) = unat q + 24" using q by (simp_all add: unat_offset)
  have "load64 m' (q + 8) = load64 m (q + 8)"
    using q u by (intro load64_on agree_on_mono [OF assms(2)]) (auto simp: meta_bytes_def P)
  moreover have "agree_on m m' (header_bytes x) \<and> unat (fst x) + 32 \<le> 2 ^ 64" if x: "x \<in> set xs" for x
  proof
    show "agree_on m m' (header_bytes x)" using assms(2) x by (auto simp: meta_bytes_def P elim!: agree_on_mono)
    obtain a n f where "x = (a, n, f)" by (cases x)
    then show "unat (fst x) + 32 \<le> 2 ^ 64"
      using assms(1) x laid_bounds by (fastforce simp: page_laid_def P)
  qed
  moreover from this have "segs m' u xs 0 = segs m u xs 0" for u by (rule segs_on)
  ultimately show "page_at m' P = page_at m P" by (simp add: page_at_def P)
  show "load64 m' (fst P + 24) = load64 m (fst P + 24)"
    using q u by (intro load64_on agree_on_mono [OF assms(2)]) (auto simp: meta_bytes_def P)
qed

lemma pages_on:
  assumes "\<And>P. P \<in> set Ps \<Longrightarrow> page_laid P \<and> agree_on m m' (meta_bytes P)"
  shows "pages m' p Ps e = pages m p Ps e"
  using assms
proof (induction Ps arbitrary: p)
  case (Cons P Ps)
  then have "page_at m' P = page_at m P" "load64 m' (fst P + 24) = load64 m (fst P + 24)"
    using page_on by simp_all
  with Cons show ?case by auto
qed simp

text \<open>Changes to one segment of a page leave the lists of the others.\<close>

lemma segs_rest:
  assumes lay: "laid (unat q + 32) (ys @ x # zs) hi" and hi: "hi \<le> 2 ^ 64"
    and on: "agree_on m m' (- ({unat q + 16..<unat q + 20} \<union> header_bytes x \<union> payload_bytes x))"
    and xs: "set xs \<subseteq> set ys \<union> set zs"
  shows "segs m' u xs v = segs m u xs v"
proof (rule segs_on)
  fix y assume "y \<in> set xs"
  then have y: "y \<in> set ys \<union> set zs" using xs by auto
  obtain b k f where yb: "y = (b, k, f)" by (cases y)
  then have bounds: "unat q + 32 \<le> unat b \<and> unat b + 32 + unat k \<le> hi"
    using y by (intro laid_bounds [OF lay, of b k f]) auto
  then have "header_bytes y \<inter> {unat q + 16..<unat q + 20} = {}" by (auto simp: header_bytes_def yb)
  then have "agree_on m m' (header_bytes y)"
    using on laid_disjoint [OF lay y] by (elim agree_on_mono) blast
  then show "agree_on m m' (header_bytes y) \<and> unat (fst y) + 32 \<le> 2 ^ 64"
    using bounds hi yb by simp
qed

text \<open>The segments that replace the one \<open>kmalloc\<close> takes.\<close>

definition carve :: "u64 \<Rightarrow> u64 \<Rightarrow> u64 \<Rightarrow> segment list" where
  "carve a n sz = (if sz + 32 < n then [(a, sz, False), (a + 32 + sz, n - sz - 32, True)] else [(a, n, False)])"

lemma laid_carve:
  assumes "laid lo [(a, n, True)] hi" and "hi \<le> 2 ^ 64" and "a \<noteq> 0" and "sz \<le> n"
  shows "laid lo (carve a n sz) hi"
proof (cases "sz + 32 < n")
  case True
  have a: "unat a + 32 + unat n \<le> 2 ^ 64" using assms(1,2) by simp
  have fits: "unat sz + 32 < unat n" using a assms(3,4) True by (intro split_fits)
  have a32: "unat (a + 32) = unat a + 32" using a fits by (simp add: unat_offset)
  have "unat (a + 32 + sz) = unat a + 32 + unat sz" using a fits a32 by (subst unat_offset) simp_all
  moreover have "unat (n - sz - 32) = unat n - unat sz - 32"
    using fits by (simp add: unat_sub_if')
  ultimately show ?thesis using assms(1) True fits by (simp add: carve_def)
qed (use assms(1) in \<open>simp add: carve_def\<close>)

lemma alloc_in_page:
  assumes at: "page_at m (q, len, ys @ (a, n, True) # zs)" and ly: "page_laid (q, len, ys @ (a, n, True) # zs)"
    and sz: "sz \<le> n" and al: "alloc_segment q a sz m = (p, m')"
  shows "p = a + 32" and "page_at m' (q, len, ys @ carve a n sz @ zs)"
    and "page_laid (q, len, ys @ carve a n sz @ zs)" and "load64 m' (q + 24) = load64 m (q + 24)"
    and "agree_on m m' (- ({unat q + 16..<unat q + 20} \<union> {unat a..<unat a + 32 + unat n}))"
proof -
  let ?xs = "ys @ (a, n, True) # zs"
  obtain r where r: "segs m (load64 m (q + 8)) ys r" and ra: "r = a" and a0: "a \<noteq> 0"
      and hd: "header m (a, n, True)" and rest: "segs m (load64 m (a + 24)) zs 0" and q0: "q \<noteq> 0"
    using at by (auto simp: page_at_def segs_append)
  have lay: "laid (unat q + 32) ?xs (unat q + len)" and qlen: "unat q + len \<le> 2 ^ 64"
    using ly by (auto simp: page_laid_def)
  have q: "unat q + 32 \<le> 2 ^ 64" using ly page_laid_fits by blast
  have a: "unat q + 32 \<le> unat a" "unat a + 32 + unat n \<le> unat q + len"
    using laid_bounds [OF lay, of a n True] by auto
  have "apart32 q a" by (rule apart32_nat) (use a q qlen in auto)
  show on: "agree_on m m' (- ({unat q + 16..<unat q + 20} \<union> {unat a..<unat a + 32 + unat n}))"
    using alloc_segment_on [OF al _ _ _ q sz a0] hd a qlen by (auto simp: header_def)
  have "agree_on m m' (- ({unat q + 16..<unat q + 20} \<union> header_bytes (a, n, True) \<union> payload_bytes (a, n, True)))"
    using on by (elim agree_on_mono) (auto simp: header_bytes_def payload_bytes_def)
  note old = segs_rest [OF lay qlen this]
  show "page_laid (q, len, ys @ carve a n sz @ zs)"
  proof -
    obtain mid where "laid (unat q + 32) ys mid" "laid mid [(a, n, True)] (mid + 32 + unat n)"
        "laid (mid + 32 + unat n) zs (unat q + len)"
      using lay by (auto simp: laid_append)
    moreover from this have "laid mid (carve a n sz) (mid + 32 + unat n)"
      using a qlen a0 sz by (intro laid_carve) auto
    ultimately show ?thesis using ly by (auto simp: page_laid_def laid_append)
  qed
  show "p = a + 32" "page_at m' (q, len, ys @ carve a n sz @ zs)" "load64 m' (q + 24) = load64 m (q + 24)"
  proof (atomize(full), cases "sz + 32 < n")
    case True
    define b where "b = a + 32 + sz"
    have fits: "unat sz + 32 < unat n" using a qlen a0 sz True by (intro split_fits [of a]) auto
    have a32: "unat (a + 32) = unat a + 32" using a qlen fits by (simp add: unat_offset)
    have b: "unat b = unat a + 32 + unat sz" using a qlen fits a32 unfolding b_def by (subst unat_offset) simp_all
    have "apart32 a b" "apart32 q b" by (rule apart32_nat; use a q qlen b fits in auto)+
    note st = alloc_split_stores [OF this(1) \<open>apart32 q a\<close> this(2) hd True b_def al]
    have "b \<noteq> 0" using b by auto
    then show "p = a + 32 \<and> page_at m' (q, len, ys @ carve a n sz @ zs) \<and> load64 m' (q + 24) = load64 m (q + 24)"
      using st True q0 a0 r ra rest old [of ys] old [of zs]
      by (auto simp: page_at_def carve_def segs_append simp flip: b_def)
  next
    case False
    note st = alloc_whole_stores [OF \<open>apart32 q a\<close> hd False al]
    show "p = a + 32 \<and> page_at m' (q, len, ys @ carve a n sz @ zs) \<and> load64 m' (q + 24) = load64 m (q + 24)"
      using st False q0 a0 r ra rest old [of ys] old [of zs]
      by (auto simp: page_at_def carve_def segs_append)
  qed
qed

text \<open>The segments that replace the one \<open>kfree\<close> releases, and those after it.\<close>

fun coalesce :: "u64 \<Rightarrow> u64 \<Rightarrow> segment list \<Rightarrow> segment list" where
  "coalesce a n ((b, k, True) # zs) = (a, n + 32 + k, True) # zs"
| "coalesce a n zs = (a, n, True) # zs"

lemma coalesce_alone: "(\<And>b k zs'. zs = (b, k, True) # zs' \<Longrightarrow> False) \<Longrightarrow> coalesce a n zs = (a, n, True) # zs"
  by (cases "(a, n, zs)" rule: coalesce.cases) auto

lemma merge_size:
  assumes "laid lo ((a, n, f) # (b, k, g) # zs) hi" and "hi \<le> 2 ^ 64"
  shows "unat (n + 32 + k) = unat n + 32 + unat k"
proof -
  have "unat n + 32 + unat k < 2 ^ 64" using assms laid_le by fastforce
  then show ?thesis by (subst unat_offset, simp add: unat_offset)+ (simp add: unat_offset)
qed

lemma coalesce_result:
  assumes "laid lo ((a, n, f) # zs) hi" and "hi \<le> 2 ^ 64"
  shows "laid lo (coalesce a n zs) hi" and "\<exists>k. n \<le> k \<and> (a, k, True) \<in> set (coalesce a n zs)"
proof (atomize(full), cases "\<exists>b k zs'. zs = (b, k, True) # zs'")
  case True
  then obtain b k zs' where zs: "zs = (b, k, True) # zs'" by auto
  then have u: "unat (n + 32 + k) = unat n + 32 + unat k" using merge_size assms by blast
  then have "laid lo (coalesce a n zs) hi" using assms(1) zs by (simp add: add.assoc)
  moreover have "n \<le> n + 32 + k" using u unfolding word_le_nat_alt by simp
  ultimately show "laid lo (coalesce a n zs) hi \<and> (\<exists>k. n \<le> k \<and> (a, k, True) \<in> set (coalesce a n zs))"
    using zs by auto
next
  case False
  then have "coalesce a n zs = (a, n, True) # zs" by (intro coalesce_alone) auto
  then show "laid lo (coalesce a n zs) hi \<and> (\<exists>k. n \<le> k \<and> (a, k, True) \<in> set (coalesce a n zs))"
    using assms(1) by auto
qed

lemma release_in_page:
  assumes at: "page_at m (q, len, ys @ (a, n, f) # zs)" and ly: "page_laid (q, len, ys @ (a, n, f) # zs)"
  shows "page_at (release_segment q a m) (q, len, ys @ coalesce a n zs)"
    and "page_laid (q, len, ys @ coalesce a n zs)"
    and "load64 (release_segment q a m) (q + 24) = load64 m (q + 24)"
    and "agree_on m (release_segment q a m) (- ({unat q + 16..<unat q + 20} \<union> {unat a..<unat a + 32}))"
proof -
  let ?xs = "ys @ (a, n, f) # zs" and ?m = "release_segment q a m"
  obtain r where r: "segs m (load64 m (q + 8)) ys r" and ra: "r = a" and a0: "a \<noteq> 0"
      and hd: "header m (a, n, f)" and rest: "segs m (load64 m (a + 24)) zs 0" and q0: "q \<noteq> 0"
    using at by (auto simp: page_at_def segs_append)
  have lay: "laid (unat q + 32) ?xs (unat q + len)" and qlen: "unat q + len \<le> 2 ^ 64"
    using ly by (auto simp: page_laid_def)
  have q: "unat q + 32 \<le> 2 ^ 64" using ly page_laid_fits by blast
  have a: "unat q + 32 \<le> unat a" "unat a + 32 + unat n \<le> unat q + len"
    using laid_bounds [OF lay, of a n f] by auto
  have qa: "apart32 q a" by (rule apart32_nat) (use a q qlen in auto)
  show on: "agree_on m ?m (- ({unat q + 16..<unat q + 20} \<union> {unat a..<unat a + 32}))"
    by (rule release_segment_on) (use a q qlen in auto)
  have "agree_on m ?m (- ({unat q + 16..<unat q + 20} \<union> header_bytes (a, n, f) \<union> payload_bytes (a, n, f)))"
    using on by (elim agree_on_mono) (auto simp: header_bytes_def payload_bytes_def)
  note old = segs_rest [OF lay qlen this]
  obtain mid where mid: "laid (unat q + 32) ys mid" "laid mid ((a, n, f) # zs) (unat q + len)"
    using lay by (auto simp: laid_append)
  then show "page_laid (q, len, ys @ coalesce a n zs)"
    using coalesce_result(1) [OF mid(2) qlen] ly by (auto simp: page_laid_def laid_append)
  have after: "apart32 a b \<and> apart32 q b" if "zs = (b, k, g) # zs'" for b k g zs'
    using mid(2) that a q qlen laid_le by (intro conjI apart32_nat; fastforce)
  show "page_at ?m (q, len, ys @ coalesce a n zs)" "load64 ?m (q + 24) = load64 m (q + 24)"
  proof (atomize(full), cases "\<exists>b k zs'. zs = (b, k, True) # zs'")
    case True
    then obtain b k zs' where zs: "zs = (b, k, True) # zs'" by auto
    then have nx: "load64 m (a + 24) = b" "b \<noteq> 0" "header m (b, k, True)" "segs m (load64 m (b + 24)) zs' 0"
      using rest by auto
    from after [OF zs] have st: "apart32 a b" "apart32 q b" by auto
    note st = release_merge_stores [OF st(1) qa st(2) hd nx(1,3,2)]
    show "page_at ?m (q, len, ys @ coalesce a n zs) \<and> load64 ?m (q + 24) = load64 m (q + 24)"
      using st nx q0 a0 r ra old [of ys] old [of zs'] zs by (auto simp: page_at_def segs_append)
  next
    case False
    have "load64 m (a + 24) = 0 \<or> apart32 a (load64 m (a + 24)) \<and> apart32 q (load64 m (a + 24)) \<and>
        m (load64 m (a + 24) + 16) = 0"
    proof (cases zs)
      case (Cons y zs')
      obtain b k g where y: "y = (b, k, g)" by (cases y)
      with Cons False rest after [of b k g zs'] show ?thesis by (auto simp: header_def)
    qed (use rest in simp)
    note st = release_alone_stores [OF qa hd this]
    have "coalesce a n zs = (a, n, True) # zs" using False by (intro coalesce_alone) auto
    then show "page_at ?m (q, len, ys @ coalesce a n zs) \<and> load64 ?m (q + 24) = load64 m (q + 24)"
      using st q0 a0 r ra rest old [of ys] old [of zs] by (auto simp: page_at_def segs_append)
  qed
qed

section \<open>New pages\<close>

definition frame_bytes :: "u64 \<Rightarrow> nat set" where
  "frame_bytes t = {unat t..<unat t + 4096}"

text \<open>The number of frames of the page \<open>create_heap_page\<close> makes for a request.\<close>

definition pages_needed :: "u64 \<Rightarrow> nat" where
  "pages_needed sz = (if unat sz + 64 \<le> 4096 then 1 else (unat sz + 64 + 4095) div 4096)"

text \<open>The request fits into the frames that follow the search position, all of them free.\<close>

definition frames_for :: "u64 \<Rightarrow> 'a frame_state_scheme \<Rightarrow> bool" where
  "frames_for sz s \<longleftrightarrow> unat sz + 64 < 2 ^ 32 \<and>
     unat (latest_frame s) + pages_needed sz \<le> unat (available_frames s) \<and>
     run_free (frames s) (unat (latest_frame s)) (unat (latest_frame s) + pages_needed sz)"

lemma fresh_run:
  assumes wf: "frame_wf s" and run: "run_free (frames s) (unat (latest_frame s)) (unat (latest_frame s) + c)"
    and c: "0 < c" "unat (latest_frame s) + c \<le> unat (available_frames s)"
    and al: "Frame_allocs (of_nat c) s = (q, s1)"
  shows "unat q = unat (base_addr s) + 4096 * unat (latest_frame s)" and "q \<noteq> 0"
    and "unat q + 4096 * c \<le> unat (base_addr s) + 4096 * unat (available_frames s)"
    and "t \<in> taken s \<Longrightarrow> {unat q..<unat q + 4096 * c} \<inter> frame_bytes t = {}"
    and "{unat q..<unat q + 4096 * c} \<subseteq> \<Union> (frame_bytes ` taken s1)"
    and "taken s \<subseteq> taken s1" and "frame_wf s1"
    and "mem s1 = memset (mem s) q 0 (of_nat c * FRAME_SIZE)"
proof -
  let ?l = "latest_frame s"
  have av: "unat (available_frames s) \<le> 2 ^ 20" using wf by (simp add: frame_wf_def)
  have l: "?l < available_frames s" using c by (simp add: word_less_nat_alt)
  have uc: "unat (of_nat c :: u64) = c" using c(2) av by (simp add: unsigned_of_nat take_bit_nat_eq_self)
  have s1: "q = frame_addr s ?l" "s1 = s\<lparr>frames := mark_frames (frames s) ?l c, latest_frame := ?l + 1,
      mem := memset (mem s) q 0 (of_nat c * FRAME_SIZE)\<rparr>"
    using Frame_allocs_free_run [of s "of_nat c"] run c uc al by auto
  show q: "unat q = unat (base_addr s) + 4096 * unat ?l" using unat_frame_addr [OF wf l] s1 by simp
  show "q \<noteq> 0" using frame_addr_nonzero [OF wf l] s1 by simp
  show "unat q + 4096 * c \<le> unat (base_addr s) + 4096 * unat (available_frames s)" using q c(2) by simp
  have marked: "frames s1 k \<longleftrightarrow> frames s k \<or> unat ?l \<le> unat k \<and> unat k < unat ?l + c" for k
    using mark_frames_eq [of ?l c "frames s"] c(2) av by (simp add: s1(2))
  show "{unat q..<unat q + 4096 * c} \<inter> frame_bytes t = {}" if t: "t \<in> taken s" for t
  proof -
    obtain k where k: "k < available_frames s" "frames s k" "t = frame_addr s k" using t by (auto simp: taken_def)
    then have "unat k < unat ?l \<or> unat ?l + c \<le> unat k" using run by (meson not_less run_free_def)
    moreover have "unat t = unat (base_addr s) + 4096 * unat k" using unat_frame_addr [OF wf k(1)] k by simp
    ultimately show ?thesis unfolding frame_bytes_def q by auto
  qed
  show "frame_wf s1" using wf l by (simp add: s1 frame_wf_def inc_le)
  have same: "frame_addr s1 = frame_addr s" "available_frames s1 = available_frames s" by (simp_all add: s1)
  show "taken s \<subseteq> taken s1" using marked by (auto simp: taken_def same)
  show "{unat q..<unat q + 4096 * c} \<subseteq> \<Union> (frame_bytes ` taken s1)"
  proof
    fix b assume b: "b \<in> {unat q..<unat q + 4096 * c}"
    define j where "j = (b - unat (base_addr s)) div 4096"
    have jb: "unat (base_addr s) + 4096 * j \<le> b" "b < unat (base_addr s) + 4096 * j + 4096"
      using b q by (auto simp: j_def)
    then have j: "unat ?l \<le> j" "j < unat ?l + c" using b q by auto
    have uj: "unat (of_nat j :: u32) = j" using j(2) c(2) av by (simp add: unsigned_of_nat take_bit_nat_eq_self)
    have "of_nat j < available_frames s" using j(2) c(2) uj by (simp add: word_less_nat_alt)
    then have "frame_addr s (of_nat j) \<in> taken s1" "unat (frame_addr s (of_nat j)) = unat (base_addr s) + 4096 * j"
      using marked [of "of_nat j"] j uj unat_frame_addr [OF wf, of "of_nat j"] by (auto simp: taken_def same)
    then show "b \<in> \<Union> (frame_bytes ` taken s1)"
      using jb by (intro UN_I [of "frame_addr s (of_nat j)"]) (auto simp: frame_bytes_def)
  qed
  show "mem s1 = memset (mem s) q 0 (of_nat c * FRAME_SIZE)" by (simp add: s1)
qed

lemma page_init_stores:
  assumes "m4 = store64 (page_segments_init q (store32 (store64 m q (q + 32)) (q + 16) v)) (q + 24) 0"
  shows "load64 m4 (q + 8) = q + 32" and "load64 m4 (q + 24) = 0"
    and "header m4 (q + 32, ucast (v - 32), True)" and "load64 m4 (q + 32 + 24) = 0"
  unfolding assms page_segments_init_def header_def Let_def by (simp_all add: mem_simps addr_simps add.assoc)

lemma page_init_on:
  assumes "m4 = store64 (page_segments_init q (store32 (store64 m q (q + 32)) (q + 16) v)) (q + 24) 0"
    and "unat q + 64 < 2 ^ 64"
  shows "agree_on m m4 (- {unat q..<unat q + 64})"
proof -
  have u: "unat (q + k) = unat q + unat k" if "unat k \<le> 64" for k using assms(2) that by (simp add: unat_offset)
  have "load64 (store32 (store64 m q (q + 32)) (q + 16) v) q = q + 32" by (simp add: mem_simps addr_simps)
  then show ?thesis
    unfolding assms page_segments_init_def Let_def using assms(2) u
    by (auto simp: add.assoc intro!: agree_on_store64 agree_on_store32 agree_on_store8)
qed

lemma num_pages_word:
  assumes "unat sz + 64 < 2 ^ 32" and "\<not> unat sz + 64 \<le> 4096"
  shows "(ucast (ucast (ROUND_UP (64 + sz) FRAME_SIZE) :: u32) :: u64) = of_nat (pages_needed sz)"
proof -
  have "unat (64 + sz + (FRAME_SIZE - 1)) = unat sz + 64 + 4095"
    using assms(1) by (subst unat_offset; simp add: unat_offset)
  then have "unat (ROUND_UP (64 + sz) FRAME_SIZE) = pages_needed sz"
    using assms(2) by (simp add: ROUND_UP_def unat_div pages_needed_def)
  moreover have "pages_needed sz < 2 ^ 32"
    using assms(1) by (auto simp: pages_needed_def div_less_iff_less_mult)
  ultimately show ?thesis
    by (simp add: word_unat_eq_iff unsigned_ucast_eq unsigned_take_bit_eq take_bit_nat_eq_self unsigned_of_nat)
qed

lemma create_heap_page_ok:
  assumes wf: "frame_wf s" and top: "unat (base_addr s) + 4096 * unat (available_frames s) < 2 ^ 64"
    and fr: "frames_for sz s"
  obtains q s' n where "create_heap_page sz s = Inr (q, s')" and "sz \<le> n"
    and "page_at (mem s') (q, 64 + unat n, [(q + 32, n, True)])"
    and "page_laid (q, 64 + unat n, [(q + 32, n, True)])"
    and "page_bytes (q, 64 + unat n, [(q + 32, n, True)]) \<subseteq> \<Union> (frame_bytes ` taken s')"
    and "\<forall>t \<in> taken s. {unat q..<unat q + 4096 * pages_needed sz} \<inter> frame_bytes t = {}"
    and "page_bytes (q, 64 + unat n, [(q + 32, n, True)]) \<subseteq> {unat q..<unat q + 4096 * pages_needed sz}"
    and "load64 (mem s') (q + 24) = 0"
    and "agree_on (mem s) (mem s') (- {unat q..<unat q + 4096 * pages_needed sz})"
    and "taken s \<subseteq> taken s'" and "frame_wf s'" and "heap s' = heap s"
    and "base_addr s' = base_addr s" and "available_frames s' = available_frames s"
proof -
  let ?c = "pages_needed sz"
  have small: "unat sz + 64 < 2 ^ 32" and c: "unat (latest_frame s) + ?c \<le> unat (available_frames s)"
    and run: "run_free (frames s) (unat (latest_frame s)) (unat (latest_frame s) + ?c)"
    using fr by (auto simp: frames_for_def)
  define asz :: u64 where "asz = (if unat sz + 64 \<le> 4096 then FRAME_SIZE else 64 + sz)"
  define n where "n = asz - 64"
  have uasz: "unat asz = (if unat sz + 64 \<le> 4096 then 4096 else unat sz + 64)"
    using small by (simp add: asz_def unat_offset)
  have un: "unat n = unat asz - 64" using uasz by (simp add: n_def unat_sub_if')
  have szn: "sz \<le> n" using un uasz by (simp add: word_le_nat_alt split: if_splits)
  have asz_small: "unat asz < 2 ^ 32" "64 \<le> unat asz" using uasz small by auto
  have "0 < ?c" by (simp add: pages_needed_def div_greater_zero_iff)
  have len_le: "unat asz \<le> 4096 * ?c" using uasz by (auto simp: pages_needed_def)
  obtain q s1 where al: "Frame_allocs (of_nat ?c) s = (q, s1)" by fastforce
  note run = fresh_run [OF wf run \<open>0 < ?c\<close> c al]
  define m4 where "m4 = store64 (page_segments_init q (store32 (store64 (mem s1) q (q + 32)) (q + 16) (ucast (asz - 32)))) (q + 24) 0"
  have n32: "ucast (ucast (asz - 32) - 32 :: u32) = n"
  proof -
    have "unat (ucast (asz - 32) :: u32) = unat asz - 32"
      using asz_small by (simp add: unsigned_ucast_eq unat_sub_if' take_bit_nat_eq_self)
    then show ?thesis using asz_small un by (simp add: word_unat_eq_iff unat_sub_if')
  qed
  have fits: "unat q + 4096 * ?c < 2 ^ 64" using run(3) top by simp
  have cm: "create_heap_page sz s = Inr (q, s1\<lparr>mem := m4\<rparr>)"
  proof -
    have cond: "sz + 32 + 32 \<le> FRAME_SIZE \<longleftrightarrow> unat sz + 64 \<le> 4096"
      using small by (simp add: word_le_nat_alt unat_offset)
    have num: "(ucast (ucast (ROUND_UP (64 + sz) FRAME_SIZE) :: u32) :: u64) = of_nat ?c" if "\<not> unat sz + 64 \<le> 4096"
      using small that by (rule num_pages_word)
    have "?c = 1" if "unat sz + 64 \<le> 4096" using that by (simp add: pages_needed_def)
    then show ?thesis
      using al run(2) num unfolding create_heap_page_def cond
      by (cases "unat sz + 64 \<le> 4096") (simp_all add: m4_def asz_def Let_def)
  qed
  note st = page_init_stores [OF m4_def, unfolded n32]
  have len: "64 + unat n = unat asz" using un asz_small by simp
  have "agree_on (mem s) (mem s1) (- {unat q..<unat q + 4096 * ?c})"
    unfolding run(8) by (rule memset_on) (use fits \<open>0 < ?c\<close> in \<open>auto simp: unat_page_offset\<close>)
  moreover have "agree_on (mem s1) m4 (- {unat q..<unat q + 4096 * ?c})"
    by (rule agree_on_mono [OF page_init_on [OF m4_def]]) (use fits \<open>0 < ?c\<close> in auto)
  ultimately have on: "agree_on (mem s) m4 (- {unat q..<unat q + 4096 * ?c})" by (rule agree_on_trans)
  have u32: "unat (q + 32) = unat q + 32" using fits \<open>0 < ?c\<close> by (simp add: unat_offset)
  then have "q + 32 \<noteq> 0" by auto
  have bytes: "page_bytes (q, 64 + unat n, [(q + 32, n, True)]) \<subseteq> {unat q..<unat q + 4096 * ?c}"
    using len len_le by (auto simp: page_bytes_def)
  have eqs: "heap s1 = heap s" "base_addr s1 = base_addr s" "available_frames s1 = available_frames s"
    using al by (auto simp: Frame_allocs_def Let_def split: prod.splits if_splits)
  show thesis
  proof (rule that [OF cm szn])
    show "page_at (mem (s1\<lparr>mem := m4\<rparr>)) (q, 64 + unat n, [(q + 32, n, True)])"
      using st run(2) \<open>q + 32 \<noteq> 0\<close> by (simp add: page_at_def)
    show "page_laid (q, 64 + unat n, [(q + 32, n, True)])"
      using u32 len len_le fits by (simp add: page_laid_def)
    show "page_bytes (q, 64 + unat n, [(q + 32, n, True)]) \<subseteq> \<Union> (frame_bytes ` taken (s1\<lparr>mem := m4\<rparr>))"
      using bytes run(5) by simp
  qed (use st run on bytes eqs in simp_all)
qed

section \<open>The heap\<close>

text \<open>
  The invariant: the list at \<open>heap\<close> is the pages \<open>H\<close>, each laid out without gaps inside frames in
  use, no two of them sharing a byte.
\<close>

definition heap_wf :: "'a heap_state_scheme \<Rightarrow> hpage list \<Rightarrow> bool" where
  "heap_wf s H \<longleftrightarrow> frame_wf s \<and> unat (base_addr s) + 4096 * unat (available_frames s) < 2 ^ 64 \<and>
     pages (mem s) (heap s) H 0 \<and>
     (\<forall>P \<in> set H. page_laid P \<and> page_bytes P \<subseteq> \<Union> (frame_bytes ` taken s)) \<and>
     sorted_wrt (\<lambda>P Q. page_bytes P \<inter> page_bytes Q = {}) H"

text \<open>The blocks in use, as pairs of the address \<open>kmalloc\<close> returned and the size.\<close>

definition live_segments :: "segment list \<Rightarrow> (u64 \<times> u64) set" where
  "live_segments xs = {(a + 32, n) | a n. (a, n, False) \<in> set xs}"

definition live :: "hpage list \<Rightarrow> (u64 \<times> u64) set" where
  "live H = (\<Union>(q, len, xs) \<in> set H. live_segments xs)"

definition block_bytes :: "u64 \<times> u64 \<Rightarrow> nat set" where
  "block_bytes b = {unat (fst b)..<unat (fst b) + unat (snd b)}"

lemma live_segments_simps [simp]:
  "live_segments [] = {}" "live_segments ((a, n, True) # xs) = live_segments xs"
  "live_segments ((a, n, False) # xs) = insert (a + 32, n) (live_segments xs)"
  "live_segments (xs @ ys) = live_segments xs \<union> live_segments ys"
  by (auto simp: live_segments_def)

lemma live_simps [simp]:
  "live [] = {}" "live ((q, len, xs) # H) = live_segments xs \<union> live H" "live (H @ H') = live H \<union> live H'"
  by (auto simp: live_def)

lemma page_segment:
  assumes "page_laid (q, len, xs)" and "(a, n, f) \<in> set xs"
  shows "unat q + 32 \<le> unat a" and "unat a + 32 + unat n \<le> unat q + len" and "unat (a + 32) = unat a + 32"
    and "block_bytes (a + 32, n) = payload_bytes (a, n, f)"
proof -
  show "unat q + 32 \<le> unat a" and le: "unat a + 32 + unat n \<le> unat q + len"
    using assms laid_bounds by (auto simp: page_laid_def)
  then show "unat (a + 32) = unat a + 32" using assms(1) by (simp add: unat_offset page_laid_def)
  then show "block_bytes (a + 32, n) = payload_bytes (a, n, f)" by (simp add: block_bytes_def payload_bytes_def)
qed

lemma block_in_page:
  assumes "page_laid (q, len, xs)" and "b \<in> live_segments xs"
  shows "block_bytes b \<subseteq> {unat q + 32..<unat q + len}"
  using assms page_segment [OF assms(1)] by (fastforce simp: live_segments_def payload_bytes_def)

text \<open>A block shares no byte with a free segment, with the headers, or with another block of its page.\<close>

lemma block_apart_segment:
  assumes "page_laid (q, len, ys @ x # zs)" and "b \<in> live_segments ys \<union> live_segments zs"
  shows "block_bytes b \<inter> (header_bytes x \<union> payload_bytes x) = {}"
proof -
  from assms(2) obtain a n where b: "b = (a + 32, n)" and an: "(a, n, False) \<in> set ys \<union> set zs"
    by (auto simp: live_segments_def)
  have "block_bytes b = payload_bytes (a, n, False)"
    using page_segment(4) [OF assms(1), of a n False] an b by auto
  moreover have "laid (unat q + 32) (ys @ x # zs) (unat q + len)" using assms(1) by (simp add: page_laid_def)
  ultimately show ?thesis using laid_disjoint an by blast
qed

lemma block_apart_meta:
  assumes ly: "page_laid (q, len, xs)" and b: "b \<in> live_segments xs"
  shows "block_bytes b \<inter> meta_bytes (q, len, xs) = {}"
proof -
  have low: "block_bytes b \<inter> {unat q..<unat q + 32} = {}" using block_in_page [OF ly b] by auto
  moreover have "block_bytes b \<inter> header_bytes x = {}" if x: "x \<in> set xs" for x
  proof -
    obtain ys zs where xs: "xs = ys @ x # zs" using x by (meson split_list)
    obtain c k f where xc: "x = (c, k, f)" by (cases x)
    from b xs consider "b \<in> live_segments ys \<union> live_segments zs" | "b = (c + 32, k)" "\<not> f"
      by (cases f) (auto simp: xc)
    then show ?thesis
    proof cases
      case 1
      then show ?thesis using block_apart_segment ly xs by blast
    next
      case 2
      then show ?thesis
        using page_segment(4) [OF ly, of c k f] x xc by (auto simp: header_bytes_def payload_bytes_def)
    qed
  qed
  ultimately show ?thesis by (fastforce simp: meta_bytes_def)
qed

lemma pages_split_disjoint:
  assumes "sorted_wrt (\<lambda>P Q. page_bytes P \<inter> page_bytes Q = {}) (H1 @ P # H2)" and "Q \<in> set H1 \<union> set H2"
  shows "page_bytes P \<inter> page_bytes Q = {}"
  using assms by (fastforce simp: sorted_wrt_append)

end
