(* ===== verification/Kmalloc.thy ===== *)
theory Kmalloc
  imports Heap
begin

text \<open>
  Correctness of \<open>kmalloc\<close> and \<open>kfree\<close> of \<open>kernel/mem/heap/heap.cc\<close>: the contract of the heap as its
  clients (the scheduler, the symbol table, the ACPI layer) rely on it, the proof that the code
  meets it while the frame allocator has unused frames ahead, and the two places where it does not.
\<close>

lemma in_live: "b \<in> live H \<longleftrightarrow> (\<exists>q len xs. (q, len, xs) \<in> set H \<and> b \<in> live_segments xs)"
  by (fastforce simp: live_def)

section \<open>The pages of a state\<close>

text \<open>The pages and segments of a heap are what its memory says they are.\<close>

lemma segs_unique: "segs m p xs 0 \<Longrightarrow> segs m p ys 0 \<Longrightarrow> xs = ys"
proof (induction xs arbitrary: p ys)
  case Nil
  then show ?case by (cases ys) auto
next
  case (Cons x xs)
  then obtain y zs where ys: "ys = y # zs" by (cases ys) auto
  then have "x = y" using Cons.prems by (cases x; cases y) (auto simp: header_def)
  then show ?case using Cons ys by auto
qed

lemma laid_unique: "laid lo xs hi \<Longrightarrow> laid lo xs hi' \<Longrightarrow> hi = hi'"
  by (induction lo xs hi rule: laid.induct) auto

lemma pages_unique:
  "pages m p H 0 \<Longrightarrow> pages m p H' 0 \<Longrightarrow> \<forall>P \<in> set H \<union> set H'. page_laid P \<Longrightarrow> H = H'"
proof (induction H arbitrary: p H')
  case Nil
  then show ?case by (cases H') (auto simp: page_at_def split: prod.splits)
next
  case (Cons P H)
  then obtain Q H2 where H': "H' = Q # H2" by (cases H') (auto simp: page_at_def split: prod.splits)
  obtain q len xs q' len' ys where PQ: "P = (q, len, xs)" "Q = (q', len', ys)" by (cases P; cases Q)
  have "q' = q" "xs = ys" using Cons.prems(1,2) H' PQ segs_unique by (auto simp: page_at_def)
  moreover have "unat q + len = unat q + len'"
    using Cons.prems(3) H' PQ calculation laid_unique by (fastforce simp: page_laid_def)
  moreover have "H = H2" using Cons.IH [of _ H2] Cons.prems H' by auto
  ultimately show ?case using PQ H' by simp
qed

lemma heap_wf_unique: "heap_wf s H \<Longrightarrow> heap_wf s H' \<Longrightarrow> H = H'"
  using pages_unique [of "mem s" "heap s" H H'] by (auto simp: heap_wf_def)

section \<open>Replacing a page\<close>

text \<open>An operation on the page \<open>P\<close> that leaves the lists of the other pages and the page's \<open>next\<close>.\<close>

lemma heap_replace:
  assumes wf: "heap_wf s (H1 @ P # H2)" and at: "page_at m' P'" and ly: "page_laid P'"
    and same: "fst P' = fst P" "page_bytes P' = page_bytes P"
    and nx: "load64 m' (fst P + 24) = load64 (mem s) (fst P + 24)"
    and on: "agree_on (mem s) m' (- page_bytes P)"
  shows "heap_wf (s\<lparr>mem := m'\<rparr>) (H1 @ P' # H2)"
proof -
  have dis: "sorted_wrt (\<lambda>P Q. page_bytes P \<inter> page_bytes Q = {}) (H1 @ P # H2)"
    and lays: "\<And>Q. Q \<in> set (H1 @ P # H2) \<Longrightarrow> page_laid Q \<and> page_bytes Q \<subseteq> \<Union> (frame_bytes ` taken s)"
    using wf by (auto simp: heap_wf_def)
  have other: "page_laid Q \<and> agree_on (mem s) m' (meta_bytes Q)" if "Q \<in> set H1 \<union> set H2" for Q
  proof
    show ql: "page_laid Q" using lays that by auto
    have "page_bytes P \<inter> page_bytes Q = {}" using dis that by (rule pages_split_disjoint)
    then have "meta_bytes Q \<subseteq> - page_bytes P" using meta_subset [OF ql] by blast
    then show "agree_on (mem s) m' (meta_bytes Q)" using on agree_on_mono by blast
  qed
  obtain r where r: "pages (mem s) (heap s) H1 r" "r = fst P" "pages (mem s) (load64 (mem s) (fst P + 24)) H2 0"
    using wf by (auto simp: heap_wf_def pages_append)
  have "pages m' (heap s) H1 r" using r(1) pages_on [of H1 "mem s" m'] other by auto
  moreover have "pages m' (load64 m' (fst P + 24)) H2 0" using r(3) nx pages_on [of H2 "mem s" m'] other by auto
  ultimately have "pages m' (heap s) (H1 @ P' # H2) 0" using r(2) same(1) at by (auto simp: pages_append)
  moreover have "sorted_wrt (\<lambda>P Q. page_bytes P \<inter> page_bytes Q = {}) (H1 @ P' # H2)"
    using dis same(2) by (simp add: sorted_wrt_append)
  ultimately show ?thesis using wf lays ly same(2) by (auto simp: heap_wf_def)
qed

text \<open>Bytes of blocks outside what an operation changes in its page.\<close>

lemma blocks_apart:
  assumes wf: "heap_wf s (H1 @ (q, len, ys @ x # zs) # H2)"
    and b: "b \<in> live H1 \<union> live H2 \<union> live_segments ys \<union> live_segments zs"
  shows "block_bytes b \<inter> ({unat q + 16..<unat q + 20} \<union> header_bytes x \<union> payload_bytes x) = {}"
proof -
  let ?P = "(q, len, ys @ x # zs)"
  have ly: "page_laid ?P" using wf by (simp add: heap_wf_def)
  have "x \<in> set (ys @ x # zs)" by simp
  then have px: "{unat q + 16..<unat q + 20} \<union> header_bytes x \<union> payload_bytes x \<subseteq> page_bytes ?P"
    using page_segment(1,2) [OF ly, of "fst x" "fst (snd x)" "snd (snd x)"] page_laid_fits [OF ly]
    by (auto simp: page_bytes_def header_bytes_def payload_bytes_def)
  from b consider "b \<in> live_segments ys \<union> live_segments zs" | "b \<in> live H1 \<union> live H2" by blast
  then show ?thesis
  proof cases
    case 1
    then have "b \<in> live_segments (ys @ x # zs)" by (auto simp: live_segments_def)
    from block_in_page [OF ly this] block_apart_segment [OF ly 1] show ?thesis by auto
  next
    case 2
    then obtain q' len' xs' where Q: "(q', len', xs') \<in> set H1 \<union> set H2" "b \<in> live_segments xs'"
      unfolding Un_iff in_live by blast
    have "page_laid (q', len', xs')" using wf Q(1) by (auto simp: heap_wf_def)
    from block_in_page [OF this Q(2)] have "block_bytes b \<subseteq> page_bytes (q', len', xs')"
      by (auto simp: page_bytes_def)
    moreover have "page_bytes ?P \<inter> page_bytes (q', len', xs') = {}"
      using pages_split_disjoint [OF _ Q(1)] wf by (auto simp: heap_wf_def)
    ultimately show ?thesis using px by blast
  qed
qed

lemma blocks_kept:
  assumes "heap_wf s (H1 @ (q, len, ys @ x # zs) # H2)"
    and "agree_on (mem s) m' (- ({unat q + 16..<unat q + 20} \<union> header_bytes x \<union> payload_bytes x))"
    and "b \<in> live H1 \<union> live H2 \<union> live_segments ys \<union> live_segments zs"
  shows "agree_on (mem s) m' (block_bytes b)"
  using assms(2) blocks_apart [OF assms(1,3)] by (elim agree_on_mono) blast

lemma live_page:
  assumes "heap_wf s H" and "b \<in> live H"
  obtains P where "P \<in> set H" and "block_bytes b \<subseteq> page_bytes P" and "block_bytes b \<inter> meta_bytes P = {}"
proof -
  obtain q len xs where Q: "(q, len, xs) \<in> set H" "b \<in> live_segments xs" using assms(2) unfolding in_live by blast
  then have ly: "page_laid (q, len, xs)" using assms(1) by (auto simp: heap_wf_def)
  have "block_bytes b \<subseteq> page_bytes (q, len, xs)"
    using block_in_page [OF ly Q(2)] by (force simp: page_bytes_def)
  then show thesis using that [OF Q(1)] block_apart_meta [OF ly Q(2)] by blast
qed

section \<open>First fit\<close>

definition fits :: "u64 \<Rightarrow> segment \<Rightarrow> bool" where
  "fits sz x \<longleftrightarrow> (case x of (a, n, f) \<Rightarrow> f \<and> sz \<le> n)"

definition page_fits :: "u64 \<Rightarrow> hpage \<Rightarrow> bool" where
  "page_fits sz P \<longleftrightarrow> (case P of (q, len, xs) \<Rightarrow> \<exists>x \<in> set xs. fits sz x)"

lemma find_page_skip:
  assumes "pages m p (P # H) e" and "\<not> page_fits sz P" and "load64 m (p + 24) \<noteq> 0"
  shows "find_page m sz p = find_page m sz (load64 m (p + 24))"
proof -
  obtain q len xs where P: "P = (q, len, xs)" by (cases P)
  have "find_fit m sz (load64 m (p + 8)) = Some 0"
    using assms(1,2) by (intro find_fit_none) (auto simp: P page_at_def page_fits_def fits_def)
  then show ?thesis using assms(3) by (subst find_page.simps) simp
qed

lemma pages_nonzero: "pages m p H e \<Longrightarrow> H \<noteq> [] \<Longrightarrow> p \<noteq> 0"
  by (cases H) (auto simp: page_at_def split: prod.splits)

lemma find_page_found:
  "pages m p (H1 @ (q, len, ys @ (a, n, True) # zs) # H2) e \<Longrightarrow> \<forall>P \<in> set H1. \<not> page_fits sz P \<Longrightarrow>
   \<forall>x \<in> set ys. \<not> fits sz x \<Longrightarrow> sz \<le> n \<Longrightarrow> find_page m sz p = Some (q, a)"
proof (induction H1 arbitrary: p)
  case Nil
  then have "find_fit m sz (load64 m (p + 8)) = Some a" and "a \<noteq> 0"
    by (auto simp: page_at_def segs_append fits_def intro!: find_fit_found)
  then show ?case using Nil(1) by (subst find_page.simps) simp
next
  case (Cons P H1)
  from Cons.prems(1) have "pages m (load64 m (p + 24)) (H1 @ (q, len, ys @ (a, n, True) # zs) # H2) e" by auto
  moreover from this have "load64 m (p + 24) \<noteq> 0" by (rule pages_nonzero) simp
  ultimately show ?case using Cons find_page_skip [of m p P _ e sz] by auto
qed

lemma find_page_none:
  "pages m p (H @ [P]) 0 \<Longrightarrow> \<forall>Q \<in> set (H @ [P]). \<not> page_fits sz Q \<Longrightarrow> find_page m sz p = Some (fst P, 0)"
proof (induction H arbitrary: p)
  case Nil
  obtain q len xs where P: "P = (q, len, xs)" by (cases P)
  have "find_fit m sz (load64 m (p + 8)) = Some 0"
    using Nil by (intro find_fit_none) (auto simp: P page_at_def page_fits_def fits_def)
  then show ?case using Nil(1) P by (subst find_page.simps) auto
next
  case (Cons Q H)
  from Cons.prems(1) have "pages m (load64 m (p + 24)) (H @ [P]) 0" by auto
  moreover from this have "load64 m (p + 24) \<noteq> 0" by (rule pages_nonzero) simp
  ultimately show ?case using Cons find_page_skip [of m p Q _ 0 sz] by auto
qed

lemma first_fit_split:
  assumes "\<exists>P \<in> set H. page_fits sz P"
  obtains H1 q len ys a n zs H2 where "H = H1 @ (q, len, ys @ (a, n, True) # zs) # H2"
    and "\<forall>P \<in> set H1. \<not> page_fits sz P" and "\<forall>x \<in> set ys. \<not> fits sz x" and "sz \<le> n"
proof -
  obtain H1 P H2 where H: "H = H1 @ P # H2" "page_fits sz P" "\<forall>P \<in> set H1. \<not> page_fits sz P"
    using split_list_first_prop [OF assms] by blast
  obtain q len xs where P: "P = (q, len, xs)" by (cases P)
  then have ex: "\<exists>x \<in> set xs. fits sz x" using H(2) by (simp add: page_fits_def)
  obtain ys x zs where xs: "xs = ys @ x # zs" "fits sz x" "\<forall>x \<in> set ys. \<not> fits sz x"
    using split_list_first_prop [OF ex] by blast
  obtain a n where x: "x = (a, n, True)" "sz \<le> n" using xs(2) by (cases x) (auto simp: fits_def)
  show thesis by (rule that [of H1 q len ys a n zs H2]) (use H P xs x in simp_all)
qed

section \<open>kmalloc\<close>

text \<open>What a call that hands out the block \<open>(p, n)\<close> leaves and changes.\<close>

definition allocated ::
    "u64 \<Rightarrow> 'a heap_state_scheme \<Rightarrow> hpage list \<Rightarrow> u64 \<Rightarrow> 'a heap_state_scheme \<Rightarrow> bool" where
  "allocated sz s H p s' \<longleftrightarrow> (\<exists>H' n. heap_wf s' H' \<and> live H' = insert (p, n) (live H) \<and> (p, n) \<notin> live H \<and>
     sz \<le> n \<and> p \<noteq> 0 \<and> (\<forall>b \<in> live H. block_bytes b \<inter> block_bytes (p, n) = {} \<and>
     agree_on (mem s) (mem s') (block_bytes b)))"

lemma segment_not_live:
  assumes wf: "heap_wf s (H1 @ (q, len, ys @ (a, n, f) # zs) # H2)"
    and b: "b \<in> live H1 \<union> live H2 \<union> live_segments ys \<union> live_segments zs"
  shows "b \<noteq> (a + 32, k)"
proof
  assume ab: "b = (a + 32, k)"
  let ?P = "(q, len, ys @ (a, n, f) # zs)"
  have lays: "\<And>Q. Q \<in> set H1 \<union> set H2 \<union> {?P} \<Longrightarrow> page_laid Q"
    and dis: "sorted_wrt (\<lambda>P Q. page_bytes P \<inter> page_bytes Q = {}) (H1 @ ?P # H2)"
    using wf by (auto simp: heap_wf_def)
  have a: "unat q + 32 \<le> unat a" "unat a + 32 + unat n \<le> unat q + len" "unat (a + 32) = unat a + 32"
    using page_segment [OF lays, of q len "ys @ (a, n, f) # zs" a n f] by auto
  have inj: "c = a" if "c + 32 = a + 32" for c :: u64 using that by simp
  from b consider "b \<in> live_segments ys \<union> live_segments zs" | "b \<in> live H1 \<union> live H2" by blast
  then show False
  proof cases
    case 1
    then have "(a, k, False) \<in> set ys \<union> set zs" using ab by (auto simp: live_segments_def)
    then have "(header_bytes (a, n, f) \<union> payload_bytes (a, n, f)) \<inter>
        (header_bytes (a, k, False) \<union> payload_bytes (a, k, False)) = {}"
      using lays [of ?P] by (intro laid_disjoint) (auto simp: page_laid_def)
    moreover have "unat a \<in> header_bytes (a, n, f) \<inter> header_bytes (a, k, False)" by (simp add: header_bytes_def)
    ultimately show False by blast
  next
    case 2
    then obtain q' len' xs' where Q: "(q', len', xs') \<in> set H1 \<union> set H2" "(a + 32, k) \<in> live_segments xs'"
      unfolding ab Un_iff in_live by blast
    then have "(a, k, False) \<in> set xs'" by (auto simp: live_segments_def)
    then have "unat q' + 32 \<le> unat a \<and> unat a + 32 + unat k \<le> unat q' + len'"
      using page_segment(1,2) [OF lays, of q' len' xs'] Q(1) by blast
    moreover have "page_bytes ?P \<inter> page_bytes (q', len', xs') = {}"
      using dis Q(1) by (rule pages_split_disjoint)
    moreover have "unat a \<in> page_bytes ?P" using a by (simp add: page_bytes_def)
    ultimately show False by (auto simp: page_bytes_def)
  qed
qed

lemma kmalloc_fit:
  assumes wf: "heap_wf s (H1 @ (q, len, ys @ (a, n, True) # zs) # H2)"
    and no: "\<forall>P \<in> set H1. \<not> page_fits sz P" "\<forall>x \<in> set ys. \<not> fits sz x" and sz: "sz \<le> n"
  obtains m' where "kmalloc sz s = Some (Inr (a + 32, s\<lparr>mem := m'\<rparr>))"
    and "allocated sz s (H1 @ (q, len, ys @ (a, n, True) # zs) # H2) (a + 32) (s\<lparr>mem := m'\<rparr>)"
    and "heap_wf (s\<lparr>mem := m'\<rparr>) (H1 @ (q, len, ys @ carve a n sz @ zs) # H2)"
proof -
  let ?P = "(q, len, ys @ (a, n, True) # zs)" and ?P' = "(q, len, ys @ carve a n sz @ zs)"
  have pg: "pages (mem s) (heap s) (H1 @ ?P # H2) 0" and ly: "page_laid ?P"
    using wf by (simp_all add: heap_wf_def)
  then have at: "page_at (mem s) ?P" by (auto simp: pages_append)
  have h0: "heap s \<noteq> 0" using pg by (rule pages_nonzero) simp
  obtain p m' where al: "alloc_segment q a sz (mem s) = (p, m')" by fastforce
  note st = alloc_in_page [OF at ly sz al]
  have a0: "a \<noteq> 0" using at by (auto simp: page_at_def segs_append)
  have "find_page (mem s) sz (heap s) = Some (q, a)" using pg no sz by (rule find_page_found)
  then have km: "kmalloc sz s = Some (Inr (a + 32, s\<lparr>mem := m'\<rparr>))"
    using h0 a0 al st(1) by (subst kmalloc.simps) simp
  have a: "unat q + 32 \<le> unat a" "unat a + 32 + unat n \<le> unat q + len" "unat (a + 32) = unat a + 32"
    using page_segment [OF ly, of a n True] by auto
  have on: "agree_on (mem s) m' (- ({unat q + 16..<unat q + 20} \<union> header_bytes (a, n, True) \<union> payload_bytes (a, n, True)))"
    using st(5) by (elim agree_on_mono) (auto simp: header_bytes_def payload_bytes_def)
  have "agree_on (mem s) m' (- page_bytes ?P)"
    using st(5) a by (elim agree_on_mono) (auto simp: page_bytes_def)
  then have wf': "heap_wf (s\<lparr>mem := m'\<rparr>) (H1 @ ?P' # H2)"
    using heap_replace [OF wf st(2,3)] st(4) by (simp add: page_bytes_def)
  obtain k where k: "live_segments (carve a n sz) = {(a + 32, k)}" "sz \<le> k" "unat k \<le> unat n"
    using sz by (cases "sz + 32 < n") (auto simp: carve_def word_le_nat_alt)
  have live: "live (H1 @ ?P' # H2) = insert (a + 32, k) (live (H1 @ ?P # H2))" using k(1) by auto
  have "block_bytes (a + 32, k) \<subseteq> payload_bytes (a, n, True)"
    using a k(3) by (auto simp: block_bytes_def payload_bytes_def)
  moreover have "block_bytes b \<inter> payload_bytes (a, n, True) = {}" if "b \<in> live (H1 @ ?P # H2)" for b
    using blocks_apart [OF wf, of b] that by auto
  ultimately have apart: "block_bytes b \<inter> block_bytes (a + 32, k) = {}" if "b \<in> live (H1 @ ?P # H2)" for b
    using that by blast
  have old: "b \<noteq> (a + 32, k)" "agree_on (mem s) m' (block_bytes b)" if "b \<in> live (H1 @ ?P # H2)" for b
    using that segment_not_live [OF wf, of b k] blocks_kept [OF wf on, of b] by auto
  have "a + 32 \<noteq> 0" using a(3) by auto
  then have "allocated sz s (H1 @ ?P # H2) (a + 32) (s\<lparr>mem := m'\<rparr>)"
    unfolding allocated_def
  proof (intro exI conjI ballI)
    show "heap_wf (s\<lparr>mem := m'\<rparr>) (H1 @ ?P' # H2)" by (rule wf')
    show "(a + 32, k) \<notin> live (H1 @ ?P # H2)" using old(1) by blast
  qed (use live k(2) apart old(2) in simp_all)
  with km wf' that show thesis by blast
qed

text \<open>Linking a new page behind the last one.\<close>

lemma store_next_on:
  assumes "page_laid P"
  shows "agree_on m (store64 m (fst P + 24) v) (- {unat (fst P) + 24..<unat (fst P) + 32})"
    and "page_at m P \<Longrightarrow> page_at (store64 m (fst P + 24) v) P"
proof -
  obtain q len xs where P: "P = (q, len, xs)" by (cases P)
  have q: "unat q + 32 \<le> 2 ^ 64" using assms P page_laid_fits by blast
  then have u: "unat (q + 24) = unat q + 24" by (simp add: unat_offset)
  show on: "agree_on m (store64 m (fst P + 24) v) (- {unat (fst P) + 24..<unat (fst P) + 32})"
    by (rule store64_on) (use q u P in auto)
  have "segs (store64 m (q + 24) v) w xs 0 = segs m w xs 0" for w
  proof (rule segs_on)
    fix x assume x: "x \<in> set xs"
    obtain a n f where xa: "x = (a, n, f)" by (cases x)
    have "unat q + 32 \<le> unat a" "unat a + 32 + unat n \<le> unat q + len"
      using page_segment(1,2) assms x xa P by blast+
    then show "agree_on m (store64 m (q + 24) v) (header_bytes x) \<and> unat (fst x) + 32 \<le> 2 ^ 64"
      using on assms P xa by (auto simp: header_bytes_def page_laid_def elim!: agree_on_mono)
  qed
  then show "page_at (store64 m (fst P + 24) v) P" if "page_at m P"
    using that by (simp add: page_at_def P mem_simps addr_simps)
qed

lemma heap_new_page:
  assumes wf: "heap_wf s H" and fr: "frames_for sz s"
  obtains q s1 n where "create_heap_page sz s = Inr (q, s1)" and "sz \<le> n"
    and "heap_wf s1 H" and "heap s1 = heap s" and "page_at (mem s1) (q, 64 + unat n, [(q + 32, n, True)])"
    and "load64 (mem s1) (q + 24) = 0" and "page_laid (q, 64 + unat n, [(q + 32, n, True)])"
    and "page_bytes (q, 64 + unat n, [(q + 32, n, True)]) \<subseteq> \<Union> (frame_bytes ` taken s1)"
    and "\<forall>P \<in> set H. page_bytes P \<inter> page_bytes (q, 64 + unat n, [(q + 32, n, True)]) = {} \<and>
           agree_on (mem s) (mem s1) (page_bytes P)"
proof -
  have fw: "frame_wf s" and top: "unat (base_addr s) + 4096 * unat (available_frames s) < 2 ^ 64"
    using wf by (simp_all add: heap_wf_def)
  obtain q s1 n where
    c: "create_heap_page sz s = Inr (q, s1)" "sz \<le> n" "page_at (mem s1) (q, 64 + unat n, [(q + 32, n, True)])"
      "page_laid (q, 64 + unat n, [(q + 32, n, True)])"
      "page_bytes (q, 64 + unat n, [(q + 32, n, True)]) \<subseteq> \<Union> (frame_bytes ` taken s1)"
    and fresh: "\<forall>t \<in> taken s. {unat q..<unat q + 4096 * pages_needed sz} \<inter> frame_bytes t = {}"
    and c2: "page_bytes (q, 64 + unat n, [(q + 32, n, True)]) \<subseteq> {unat q..<unat q + 4096 * pages_needed sz}"
      "load64 (mem s1) (q + 24) = 0" "agree_on (mem s) (mem s1) (- {unat q..<unat q + 4096 * pages_needed sz})"
      "taken s \<subseteq> taken s1" "frame_wf s1" "heap s1 = heap s" "base_addr s1 = base_addr s"
      "available_frames s1 = available_frames s"
    by (rule create_heap_page_ok [OF fw top fr])
  have old: "page_bytes P \<inter> {unat q..<unat q + 4096 * pages_needed sz} = {}" if "P \<in> set H" for P
    using wf that fresh by (fastforce simp: heap_wf_def)
  then have keep: "agree_on (mem s) (mem s1) (page_bytes P)" if "P \<in> set H" for P
    using c2(3) that by (elim agree_on_mono) blast
  have "page_laid P \<and> agree_on (mem s) (mem s1) (meta_bytes P)" if "P \<in> set H" for P
    using wf that agree_on_mono [OF keep [OF that] meta_subset] by (simp add: heap_wf_def)
  then have "pages (mem s1) (heap s) H 0 = pages (mem s) (heap s) H 0" by (rule pages_on)
  then have "pages (mem s1) (heap s) H 0" using wf by (simp add: heap_wf_def)
  then have "heap_wf s1 H"
    using wf c2 by (auto simp: heap_wf_def) blast
  moreover have "\<forall>P \<in> set H. page_bytes P \<inter> page_bytes (q, 64 + unat n, [(q + 32, n, True)]) = {} \<and>
      agree_on (mem s) (mem s1) (page_bytes P)"
    using old keep c2(1) by blast
  ultimately show thesis using that c c2 by blast
qed

lemma heap_append:
  assumes wf: "heap_wf s H" and m: "pages m p (H @ [N]) 0" and N: "page_laid N"
    and NF: "page_bytes N \<subseteq> \<Union> (frame_bytes ` taken s)" and dis: "\<forall>P \<in> set H. page_bytes P \<inter> page_bytes N = {}"
  shows "heap_wf (s\<lparr>mem := m, heap := p\<rparr>) (H @ [N])"
proof -
  have "frame_wf (s\<lparr>mem := m, heap := p\<rparr>)" "taken (s\<lparr>mem := m, heap := p\<rparr>) = taken s"
    using wf by (simp_all add: heap_wf_def frame_wf_def taken_def frame_addr_def)
  then show ?thesis
    using wf m N NF dis unfolding heap_wf_def by (auto simp: sorted_wrt_append)
qed

text \<open>
  A call that finds no segment adds a page, and goes on as a call on the heap with that page.
\<close>

lemma kmalloc_grow:
  assumes wf: "heap_wf s H" and fr: "frames_for sz s" and no: "\<forall>P \<in> set H. \<not> page_fits sz P"
  obtains s2 q n where "kmalloc sz s = kmalloc sz s2" and "heap_wf s2 (H @ [(q, 64 + unat n, [(q + 32, n, True)])])"
    and "sz \<le> n" and "\<forall>b \<in> live H. agree_on (mem s) (mem s2) (block_bytes b)"
    and "\<exists>s1 m h. create_heap_page sz s = Inr (q, s1) \<and> s2 = s1\<lparr>mem := m, heap := h\<rparr>"
proof -
  obtain q s1 n where c: "create_heap_page sz s = Inr (q, s1)" "sz \<le> n" "heap_wf s1 H" "heap s1 = heap s"
      "page_at (mem s1) (q, 64 + unat n, [(q + 32, n, True)])"
      "load64 (mem s1) (q + 24) = 0" "page_laid (q, 64 + unat n, [(q + 32, n, True)])"
      "page_bytes (q, 64 + unat n, [(q + 32, n, True)]) \<subseteq> \<Union> (frame_bytes ` taken s1)"
    and old: "\<forall>P \<in> set H. page_bytes P \<inter> page_bytes (q, 64 + unat n, [(q + 32, n, True)]) = {} \<and>
           agree_on (mem s) (mem s1) (page_bytes P)"
    by (rule heap_new_page [OF wf fr])
  let ?N = "(q, 64 + unat n, [(q + 32, n, True)])"
  have keep1: "agree_on (mem s) (mem s1) (block_bytes b)" if "b \<in> live H" for b
    using live_page [OF wf that] old agree_on_mono by metis
  show thesis
  proof (cases H rule: rev_cases)
    case Nil
    then have h0: "heap s = 0" using wf by (simp add: heap_wf_def)
    have q0: "q \<noteq> 0" using c(5) by (simp add: page_at_def)
    have "kmalloc sz s = kmalloc sz (s1\<lparr>heap := q\<rparr>)"
      using h0 q0 c(1) by (subst (1 2) kmalloc.simps) simp
    moreover have "heap_wf (s1\<lparr>mem := mem s1, heap := q\<rparr>) (H @ [?N])"
      using c old Nil by (intro heap_append) simp_all
    moreover have "\<exists>s1' m h. create_heap_page sz s = Inr (q, s1') \<and> s1\<lparr>heap := q\<rparr> = s1'\<lparr>mem := m, heap := h\<rparr>"
      by (rule exI [of _ s1], rule exI [of _ "mem s1"], rule exI [of _ q]) (simp add: c(1))
    ultimately show ?thesis using that [of "s1\<lparr>heap := q\<rparr>" q n] c(2) keep1 by simp
  next
    case (snoc H0 L)
    define m where "m = store64 (mem s1) (fst L + 24) q"
    have Ll: "page_laid L" and pg1: "pages (mem s1) (heap s) H 0" using c(3,4) snoc by (auto simp: heap_wf_def)
    have "heap s \<noteq> 0" using pages_nonzero [OF pg1] snoc by simp
    have "find_page (mem s) sz (heap s) = Some (fst L, 0)"
      using wf no snoc find_page_none [of "mem s" "heap s" H0 L sz] by (simp add: heap_wf_def)
    then have km: "kmalloc sz s = kmalloc sz (s1\<lparr>mem := m\<rparr>)"
      using \<open>heap s \<noteq> 0\<close> c(1) by (subst kmalloc.simps) (simp add: m_def)
    have on: "agree_on (mem s1) m (- {unat (fst L) + 24..<unat (fst L) + 32})"
      unfolding m_def by (rule store_next_on(1) [OF Ll])
    have sub: "{unat (fst L) + 24..<unat (fst L) + 32} \<subseteq> page_bytes L"
      using Ll page_laid_fits [of "fst L" "fst (snd L)" "snd (snd L)"] by (auto simp: page_bytes_def split: prod.splits)
    have others: "agree_on (mem s1) m (meta_bytes P)" if "page_laid P" "page_bytes L \<inter> page_bytes P = {}" for P
      using on by (rule agree_on_mono) (use meta_subset [OF that(1)] that(2) sub in blast)
    have dis0: "page_laid P \<and> page_bytes L \<inter> page_bytes P = {}" if "P \<in> set H0" for P
      using c(3) snoc that pages_split_disjoint [of H0 L "[]" P] by (auto simp: heap_wf_def)
    then have "pages m (heap s) H0 r = pages (mem s1) (heap s) H0 r" for r
      using others by (intro pages_on) blast
    moreover have "page_at m ?N" "load64 m (q + 24) = 0"
      using page_on [OF c(7) others [OF c(7)]] old snoc c(5,6) by auto
    moreover have "page_at m L" unfolding m_def using pg1 snoc by (intro store_next_on(2) [OF Ll]) (auto simp: pages_append)
    moreover have "load64 m (fst L + 24) = q" by (simp add: m_def)
    ultimately have "pages m (heap s) (H @ [?N]) 0"
      using pg1 snoc c(5) by (auto simp: pages_append)
    then have "heap_wf (s1\<lparr>mem := m, heap := heap s1\<rparr>) (H @ [?N])"
      using c old by (intro heap_append) auto
    moreover have "agree_on (mem s1) m (block_bytes b)" if b: "b \<in> live H" for b
    proof -
      obtain P where P: "P \<in> set H" "block_bytes b \<subseteq> page_bytes P" "block_bytes b \<inter> meta_bytes P = {}"
        using live_page [OF wf b] .
      have "block_bytes b \<inter> {unat (fst L) + 24..<unat (fst L) + 32} = {}"
      proof (cases "P = L")
        case True
        then show ?thesis using P(3) by (auto simp: meta_bytes_def split: prod.splits)
      next
        case False
        then show ?thesis using P sub dis0 [of P] snoc by auto
      qed
      then show ?thesis using on by (elim agree_on_mono) blast
    qed
    moreover have "\<exists>s1' m' h. create_heap_page sz s = Inr (q, s1') \<and> s1\<lparr>mem := m\<rparr> = s1'\<lparr>mem := m', heap := h\<rparr>"
      by (rule exI [of _ s1], rule exI [of _ m], rule exI [of _ "heap s1"]) (simp add: c(1))
    ultimately show ?thesis
      using that [OF km, of q n] c(2) agree_on_trans [OF keep1] by simp
  qed
qed

lemma kmalloc_fits:
  assumes "heap_wf s H" and "\<exists>P \<in> set H. page_fits sz P"
  shows "\<exists>p m. kmalloc sz s = Some (Inr (p, s\<lparr>mem := m\<rparr>)) \<and> allocated sz s H p (s\<lparr>mem := m\<rparr>)"
proof -
  obtain H1 q len ys a n zs H2 where H: "H = H1 @ (q, len, ys @ (a, n, True) # zs) # H2"
    and no: "\<forall>P \<in> set H1. \<not> page_fits sz P" "\<forall>x \<in> set ys. \<not> fits sz x" and sz: "sz \<le> n"
    using assms(2) by (rule first_fit_split)
  from kmalloc_fit [OF assms(1) [unfolded H] no sz] H show ?thesis by blast
qed

text \<open>A heap of one page whose last segment is free, and the segments before it in use.\<close>

definition heap_tail :: "'a heap_state_scheme \<Rightarrow> hpage list \<Rightarrow> nat \<Rightarrow> bool" where
  "heap_tail s H k \<longleftrightarrow> (\<exists>q len ys a n. H = [(q, len, ys @ [(a, n, True)])] \<and> (\<forall>x \<in> set ys. \<not> snd (snd x)) \<and> k \<le> unat n \<and>
     heap_wf s H)"

lemma kmalloc_tail:
  assumes "heap_tail s H (unat sz + 32 + Suc k)"
  obtains p s1 H1 where "kmalloc sz s = Some (Inr (p, s1))" and "heap_tail s1 H1 (Suc k)"
    and "live H1 = insert (p, sz) (live H)" and "p \<noteq> 0" and "\<exists>m. s1 = s\<lparr>mem := m\<rparr>"
proof -
  obtain q len ys a n where H: "H = [(q, len, ys @ [(a, n, True)])]" and ys: "\<forall>x \<in> set ys. \<not> snd (snd x)"
      and n: "unat sz + 32 + Suc k \<le> unat n" and wf: "heap_wf s ([] @ (q, len, ys @ (a, n, True) # []) # [])"
    using assms by (auto simp: heap_tail_def)
  have ly: "page_laid (q, len, ys @ [(a, n, True)])" using wf by (simp add: heap_wf_def)
  have a: "unat a + 32 + unat n \<le> 2 ^ 64"
    using page_segment(2) [OF ly, of a n True] ly by (simp add: page_laid_def)
  have sz: "sz \<le> n" using n by (simp add: word_le_nat_alt)
  have u: "unat (sz + 32) = unat sz + 32" using n a by (simp add: unat_offset)
  then have lt: "sz + 32 < n" using n by (simp add: word_less_nat_alt)
  have "unat (n - (sz + 32)) = unat n - unat (sz + 32)" using lt by (intro unat_sub) simp
  then have rest: "unat (n - sz - 32) = unat n - (unat sz + 32)" using u by (simp only: diff_diff_eq)
  obtain m where m: "kmalloc sz s = Some (Inr (a + 32, s\<lparr>mem := m\<rparr>))"
      "allocated sz s [(q, len, ys @ [(a, n, True)])] (a + 32) (s\<lparr>mem := m\<rparr>)"
      "heap_wf (s\<lparr>mem := m\<rparr>) [(q, len, ys @ carve a n sz @ [])]"
    by (rule kmalloc_fit [OF wf _ _ sz]) (use ys in \<open>auto simp: fits_def split: prod.splits\<close>)
  let ?H = "[(q, len, (ys @ [(a, sz, False)]) @ [(a + 32 + sz, n - sz - 32, True)])]"
  have c: "ys @ carve a n sz @ [] = (ys @ [(a, sz, False)]) @ [(a + 32 + sz, n - sz - 32, True)]"
    using lt by (simp add: carve_def)
  have "heap_tail (s\<lparr>mem := m\<rparr>) ?H (Suc k)"
    unfolding heap_tail_def by (intro exI conjI, rule refl) (use m(3) [unfolded c] ys rest n in auto)
  moreover have "live ?H = insert (a + 32, sz) (live H)" unfolding H by auto
  moreover have "a + 32 \<noteq> 0" using m(2) by (auto simp: allocated_def)
  ultimately show thesis using that m(1) by blast
qed

lemma kmalloc_allocates:
  assumes wf: "heap_wf s H" and room: "(\<exists>P \<in> set H. page_fits sz P) \<or> frames_for sz s"
  shows "\<exists>p s'. kmalloc sz s = Some (Inr (p, s')) \<and> allocated sz s H p s'"
proof (cases "\<exists>P \<in> set H. page_fits sz P")
  case True
  then show ?thesis using kmalloc_fits [OF wf] by blast
next
  case False
  then have no: "\<forall>P \<in> set H. \<not> page_fits sz P" and fr: "frames_for sz s" using room by auto
  obtain s2 q n where s2: "kmalloc sz s = kmalloc sz s2" "heap_wf s2 (H @ [(q, 64 + unat n, [(q + 32, n, True)])])"
      "sz \<le> n" and keep: "\<forall>b \<in> live H. agree_on (mem s) (mem s2) (block_bytes b)"
    by (rule kmalloc_grow [OF wf fr no])
  obtain s' where s': "kmalloc sz s2 = Some (Inr (q + 32 + 32, s'))"
    and al: "allocated sz s2 (H @ [(q, 64 + unat n, [(q + 32, n, True)])]) (q + 32 + 32) s'"
    using kmalloc_fit [of s2 H q "64 + unat n" "[]" "q + 32" n "[]" "[]" sz] s2(2,3) no by auto
  have live: "live (H @ [(q, 64 + unat n, [(q + 32, n, True)])]) = live H" by simp
  have "allocated sz s H (q + 32 + 32) s'"
    unfolding allocated_def
  proof -
    obtain H' k where "heap_wf s' H'" "live H' = insert (q + 32 + 32, k) (live H)" "(q + 32 + 32, k) \<notin> live H"
        "sz \<le> k" "q + 32 + 32 \<noteq> 0" and b: "\<forall>b \<in> live H. block_bytes b \<inter> block_bytes (q + 32 + 32, k) = {} \<and>
          agree_on (mem s2) (mem s') (block_bytes b)"
      using al unfolding allocated_def live by blast
    moreover have "agree_on (mem s) (mem s') (block_bytes b)" if "b \<in> live H" for b
      using keep b that agree_on_trans by blast
    ultimately show "\<exists>H' n. heap_wf s' H' \<and> live H' = insert (q + 32 + 32, n) (live H) \<and> (q + 32 + 32, n) \<notin> live H \<and>
        sz \<le> n \<and> q + 32 + 32 \<noteq> 0 \<and> (\<forall>b \<in> live H. block_bytes b \<inter> block_bytes (q + 32 + 32, n) = {} \<and>
        agree_on (mem s) (mem s') (block_bytes b))" by blast
  qed
  with s2(1) s' show ?thesis by auto
qed

text \<open>
  The room a call needs, read off the state: the search finds a free segment, or the frames a new page
  takes are unused, from the frame allocator's search position on.
\<close>

definition heap_room :: "u64 \<Rightarrow> 'a heap_state_scheme \<Rightarrow> bool" where
  "heap_room sz s \<longleftrightarrow> heap s \<noteq> 0 \<and> (case find_page (mem s) sz (heap s) of None \<Rightarrow> False | Some (_, segment) \<Rightarrow> segment \<noteq> 0) \<or>
     frames_for sz s"

lemma frames_heap_room [intro]: "frames_for sz s \<Longrightarrow> heap_room sz s"
  by (simp add: heap_room_def)

lemma heap_room_iff:
  assumes wf: "heap_wf s H"
  shows "heap_room sz s \<longleftrightarrow> (\<exists>P \<in> set H. page_fits sz P) \<or> frames_for sz s"
proof (cases "\<exists>P \<in> set H. page_fits sz P")
  case True
  then obtain H1 q len ys a n zs H2 where H: "H = H1 @ (q, len, ys @ (a, n, True) # zs) # H2"
    and no: "\<forall>P \<in> set H1. \<not> page_fits sz P" "\<forall>x \<in> set ys. \<not> fits sz x" and sz: "sz \<le> n"
    by (rule first_fit_split)
  have pg: "pages (mem s) (heap s) (H1 @ (q, len, ys @ (a, n, True) # zs) # H2) 0" using wf H by (simp add: heap_wf_def)
  then have "a \<noteq> 0" by (auto simp: pages_append page_at_def segs_append)
  moreover have "heap s \<noteq> 0" using pg by (rule pages_nonzero) simp
  ultimately show ?thesis using True find_page_found [OF pg no sz] by (simp add: heap_room_def)
next
  case False
  have "\<not> (heap s \<noteq> 0 \<and> (case find_page (mem s) sz (heap s) of None \<Rightarrow> False | Some (_, segment) \<Rightarrow> segment \<noteq> 0))"
  proof (cases H rule: rev_cases)
    case Nil
    then show ?thesis using wf by (simp add: heap_wf_def)
  next
    case (snoc H0 P)
    then have "find_page (mem s) sz (heap s) = Some (fst P, 0)"
      using False wf by (intro find_page_none [of _ _ H0 P]) (auto simp: heap_wf_def)
    then show ?thesis by simp
  qed
  then show ?thesis using False by (auto simp: heap_room_def)
qed

lemma tail_room: "heap_tail s H k \<Longrightarrow> unat sz \<le> k \<Longrightarrow> heap_room sz s"
  by (auto simp: heap_tail_def heap_room_iff page_fits_def fits_def word_le_nat_alt)


section \<open>kfree\<close>

lemma kfree_first:
  assumes wf: "heap_wf s ((q, len, ys @ (a, n, f) # zs) # H2)"
  shows "kfree (a + 32) s = Some (Inr (True, s\<lparr>mem := release_segment q a (mem s)\<rparr>))"
    and "heap_wf (s\<lparr>mem := release_segment q a (mem s)\<rparr>) ((q, len, ys @ coalesce a n zs) # H2)"
    and "b \<in> live_segments ys \<union> live_segments zs \<union> live H2 \<Longrightarrow>
         agree_on (mem s) (release_segment q a (mem s)) (block_bytes b)"
proof -
  let ?P = "(q, len, ys @ (a, n, f) # zs)"
  have ly: "page_laid ?P" and at: "page_at (mem s) ?P" and hq: "heap s = q"
    using wf by (auto simp: heap_wf_def)
  have q0: "q \<noteq> 0" and a0: "a \<noteq> 0" using at by (auto simp: page_at_def segs_append)
  note st = release_in_page [OF at ly]
  have lay: "laid (unat q + 32) (ys @ (a, n, f) # zs) (unat q + len)" using ly by (simp add: page_laid_def)
  have "fst y \<noteq> a" if "y \<in> set ys" for y
  proof
    assume "fst y = a"
    then have "unat a \<in> header_bytes y \<inter> header_bytes (a, n, f)" by (simp add: header_bytes_def)
    then show False using laid_disjoint [OF lay, of y] that by blast
  qed
  then have "find_addr (mem s) (a + 32) (load64 (mem s) (q + 8)) = Some a"
    using at by (intro find_addr_found) (auto simp: page_at_def)
  then show "kfree (a + 32) s = Some (Inr (True, s\<lparr>mem := release_segment q a (mem s)\<rparr>))"
    using hq q0 a0 by (simp add: kfree_def kfree_loop.simps [of _ _ q])
  have a: "unat q + 32 \<le> unat a" "unat a + 32 + unat n \<le> unat q + len"
    using page_segment(1,2) [OF ly, of a n f] by auto
  have "agree_on (mem s) (release_segment q a (mem s)) (- page_bytes ?P)"
    using st(4) a by (elim agree_on_mono) (auto simp: page_bytes_def)
  then show "heap_wf (s\<lparr>mem := release_segment q a (mem s)\<rparr>) ((q, len, ys @ coalesce a n zs) # H2)"
    using heap_replace [of s "[]" ?P H2, OF _ st(1,2)] wf st(3) by (simp add: page_bytes_def)
  have "agree_on (mem s) (release_segment q a (mem s))
      (- ({unat q + 16..<unat q + 20} \<union> header_bytes (a, n, f) \<union> payload_bytes (a, n, f)))"
    using st(4) by (elim agree_on_mono) (auto simp: header_bytes_def)
  then show "agree_on (mem s) (release_segment q a (mem s)) (block_bytes b)"
    if "b \<in> live_segments ys \<union> live_segments zs \<union> live H2"
    using blocks_kept [of s "[]" q len ys "(a, n, f)" zs H2 _ b] wf that by auto
qed

lemma live_coalesce: "live_segments (coalesce a n zs) = live_segments zs"
  by (cases "(a, n, zs)" rule: coalesce.cases) auto

text \<open>
  (C7) \<open>kfree\<close> of a block of the first heap page: it returns true, the block is no longer in use and
  can be handed out again, and the contents of every other block in use stay.
\<close>

theorem kfree_correct:
  assumes "heap_wf s ((q, len, xs) # H2)" and "(p, n) \<in> live_segments xs"
  shows "\<exists>s' xs'. kfree p s = Some (Inr (True, s')) \<and> heap_wf s' ((q, len, xs') # H2) \<and>
    live ((q, len, xs') # H2) = live ((q, len, xs) # H2) - {(p, n)} \<and>
    (\<exists>a k. a + 32 = p \<and> n \<le> k \<and> (a, k, True) \<in> set xs') \<and>
    (\<forall>b \<in> live ((q, len, xs) # H2) - {(p, n)}. agree_on (mem s) (mem s') (block_bytes b))"
proof -
  obtain a where p: "p = a + 32" and "(a, n, False) \<in> set xs" using assms(2) by (auto simp: live_segments_def)
  then obtain ys zs where xs: "xs = ys @ (a, n, False) # zs" by (meson split_list)
  note wf = assms(1) [unfolded xs]
  note kf = kfree_first [OF wf]
  have live: "live ((q, len, xs) # H2) - {(p, n)} = live_segments ys \<union> live_segments zs \<union> live H2"
    using segment_not_live [of s "[]" q len ys a n False zs H2 _ n] wf unfolding xs p by auto
  obtain mid where "laid mid ((a, n, False) # zs) (unat q + len)" and "unat q + len \<le> 2 ^ 64"
    using wf by (auto simp: heap_wf_def page_laid_def laid_append)
  then have "\<exists>k. n \<le> k \<and> (a, k, True) \<in> set (coalesce a n zs)" by (rule coalesce_result(2))
  then show ?thesis
    using kf live p by (intro exI [of _ "s\<lparr>mem := release_segment q a (mem s)\<rparr>"] exI [of _ "ys @ coalesce a n zs"])
      (auto simp: live_coalesce)
qed

lemma kfree_missed:
  assumes "heap_wf s (P # H2)" and "(p, n) \<in> live H2"
  shows "kfree p s = Some (Inr (False, s))"
proof -
  obtain q len xs where P: "P = (q, len, xs)" by (cases P)
  have pg: "pages (mem s) (heap s) (P # H2) 0" using assms(1) unfolding heap_wf_def by blast
  have "fst y + 32 \<noteq> p" if y: "y \<in> set xs" for y
  proof
    assume eq: "fst y + 32 = p"
    obtain ys zs where "xs = ys @ y # zs" using y by (meson split_list)
    then have "heap_wf s ([] @ (q, len, ys @ (fst y, fst (snd y), snd (snd y)) # zs) # H2)" using assms(1) P by simp
    from segment_not_live [OF this, of "(p, n)" n] assms(2) eq show False by simp
  qed
  then have first: "find_addr (mem s) p (load64 (mem s) (q + 8)) = Some 0"
    using pg P by (intro find_addr_none) (auto simp: page_at_def)
  have zero: "find_addr (mem s) p 0 = Some 0" by (simp add: find_addr.simps)
  have rest: "kfree_loop (mem s) p r 0 = Some (0, 0)" if "pages (mem s) r H 0" for r H
    using that
  proof (induction H arbitrary: r)
    case (Cons Q H)
    then show ?case using pages_nonzero [of "mem s" r "Q # H" 0] zero
      by (subst kfree_loop.simps) auto
  qed (simp add: kfree_loop.simps)
  have "heap s \<noteq> 0" using pages_nonzero [OF pg] by simp
  moreover have "kfree_loop (mem s) p (heap s) (load64 (mem s) (q + 8)) = Some (0, 0)"
    using pg P first rest \<open>heap s \<noteq> 0\<close> by (subst kfree_loop.simps) auto
  ultimately show ?thesis using pg P by (simp add: kfree_def)
qed

text \<open>
  (C32) \<open>kfree\<close> sets its segment pointer once, before the loop over the pages: for a block of any page
  but the first it finds nothing and returns false, and the block stays in use for ever.
\<close>

theorem kfree_later_page:
  assumes "heap_wf s (P # H2)" and "(p, n) \<in> live H2"
  shows "kfree p s = Some (Inr (False, s))"
  using kfree_missed [OF assms] .

text \<open>\<open>kmalloc\<close> changes the heap, the frames and the memory only.\<close>

text \<open>What the heap leaves alone: the boot context, the page tables' registers, the size of the allocator and all above it.\<close>

definition heap_rest :: "'a heap_state_scheme \<Rightarrow> (u64 \<times> u64 \<times> u64 \<times> u64) \<times> (u32 \<times> u64) \<times> 'a" where
  "heap_rest s = ((hhdm_addr s, pml4 s, cr0 s, cr3 s), (available_frames s, base_addr s), heap_state.more s)"

lemma heap_rest_fields [simp]:
  "heap_rest (s\<lparr>mem := m\<rparr>) = heap_rest s" "heap_rest (s\<lparr>frames := fs\<rparr>) = heap_rest s"
  "heap_rest (s\<lparr>latest_frame := l\<rparr>) = heap_rest s" "heap_rest (s\<lparr>heap := h\<rparr>) = heap_rest s"
  by (simp_all add: heap_rest_def)

lemma create_heap_page_rest:
  "create_heap_page sz s = Inr (q, s') \<Longrightarrow> heap_rest s' = heap_rest s"
  by (auto simp: create_heap_page_def Frame_allocs_def Let_def split: prod.splits if_splits)

lemma kmalloc_rest:
  assumes "kmalloc sz s = Some (Inr (p, s'))"
  shows "heap_rest s' = heap_rest s"
proof -
  have "\<forall>p s'. r = Inr (p, s') \<longrightarrow> heap_rest s' = heap_rest s" if "kmalloc sz s = Some r" for r
    using _ that
  proof (rule kmalloc.raw_induct, goal_cases)
    case (1 f sz s r)
    let ?start = "if heap s = 0 then (case create_heap_page sz s of Inl e \<Rightarrow> Inl e | Inr (p, s1) \<Rightarrow> Inr (s1\<lparr>heap := p\<rparr>))
        else Inr s"
    show ?case
    proof (cases ?start)
      case (Inr s1)
      then have s1: "heap_rest s1 = heap_rest s"
        by (auto split: if_splits sum.splits dest!: create_heap_page_rest)
      show ?thesis
      proof (cases "find_page (mem s1) sz (heap s1)")
        case (Some a)
        obtain page segment where a: "a = (page, segment)" by (cases a)
        have step: "(if segment \<noteq> 0 then let (p, m) = alloc_segment page segment sz (mem s1) in Some (Inr (p, s1\<lparr>mem := m\<rparr>))
            else case create_heap_page sz s1 of Inl e \<Rightarrow> Some (Inl e)
              | Inr (p, s2) \<Rightarrow> f sz (s2\<lparr>mem := store64 (mem s2) (page + 24) p\<rparr>)) = Some r"
          using "1"(2) Inr Some a by simp
        show ?thesis
        proof (cases "segment = 0")
          case True
          with step "1"(1) s1 show ?thesis
            by (auto split: sum.splits dest!: create_heap_page_rest)
        qed (use step s1 in \<open>auto simp: Let_def split: prod.splits\<close>)
      qed (use "1"(2) Inr in simp)
    qed (use "1"(2) in auto)
  qed
  with assms show ?thesis by blast
qed

lemma kmalloc_more: "kmalloc sz s = Some (Inr (p, s')) \<Longrightarrow> heap_state.more s' = heap_state.more s"
  using kmalloc_rest [of sz s p s'] by (simp add: heap_rest_def)

section \<open>The contract of the heap\<close>

text \<open>
  What the heap promises its clients, over the set of blocks in use: an allocation adds one block,
  blocks never share a byte, and a client may change the bytes of its own blocks.
\<close>

locale block_heap =
  fixes malloc :: "u64 \<Rightarrow> 's \<Rightarrow> (fault + (u64 \<times> 's)) option"
    and rep :: "'s \<Rightarrow> (u64 \<times> u64) set \<Rightarrow> bool"
    and room :: "u64 \<Rightarrow> 's \<Rightarrow> bool"
    and mm :: "'s \<Rightarrow> memory" and set_mm :: "memory \<Rightarrow> 's \<Rightarrow> 's"
  assumes malloc_ok: "rep s L \<Longrightarrow> room sz s \<Longrightarrow> \<exists>p n s'. malloc sz s = Some (Inr (p, s')) \<and>
      rep s' (insert (p, n) L) \<and> (p, n) \<notin> L \<and> sz \<le> n \<and> p \<noteq> 0 \<and>
      (\<forall>b \<in> L. agree_on (mm s) (mm s') (block_bytes b))"
    and rep_disjoint: "rep s L \<Longrightarrow> b \<in> L \<Longrightarrow> b' \<in> L \<Longrightarrow> b \<noteq> b' \<Longrightarrow> block_bytes b \<inter> block_bytes b' = {}"
    and rep_write: "rep s L \<Longrightarrow> b \<in> L \<Longrightarrow> agree_on (mm s) m (- block_bytes b) \<Longrightarrow> rep (set_mm m s) L"
begin

text \<open>A new block filled in by its owner leaves all other blocks as they were.\<close>

lemma malloc_fill:
  assumes "rep s L" and "room sz s"
  obtains p n s' where "malloc sz s = Some (Inr (p, s'))" and "(p, n) \<notin> L" and "sz \<le> n" and "p \<noteq> 0"
    and "rep s' (insert (p, n) L)" and "\<forall>b \<in> L. agree_on (mm s) (mm s') (block_bytes b)"
    and "\<And>m. agree_on (mm s') m (- block_bytes (p, n)) \<Longrightarrow>
           rep (set_mm m s') (insert (p, n) L) \<and> (\<forall>b \<in> L. agree_on (mm s) m (block_bytes b))"
proof -
  obtain p n s' where m: "malloc sz s = Some (Inr (p, s'))" "rep s' (insert (p, n) L)" "(p, n) \<notin> L" "sz \<le> n"
      "p \<noteq> 0" "\<forall>b \<in> L. agree_on (mm s) (mm s') (block_bytes b)"
    using malloc_ok [OF assms] by blast
  have "agree_on (mm s) m' (block_bytes b)" if on: "agree_on (mm s') m' (- block_bytes (p, n))" and b: "b \<in> L" for m' b
  proof -
    have "block_bytes b \<inter> block_bytes (p, n) = {}" using m(2,3) b by (intro rep_disjoint [OF m(2)]) auto
    then have "agree_on (mm s') m' (block_bytes b)" using on by (elim agree_on_mono) blast
    then show ?thesis using m(6) b agree_on_trans by blast
  qed
  then show thesis using that [OF m(1,3-5,2,6)] rep_write [OF m(2)] by blast
qed

end

definition heap_rep :: "'a heap_state_scheme \<Rightarrow> (u64 \<times> u64) set \<Rightarrow> bool" where
  "heap_rep s L \<longleftrightarrow> (\<exists>H. heap_wf s H \<and> live H = L)"

lemma live_disjoint:
  assumes wf: "heap_wf s H" and b: "b \<in> live H" "b' \<in> live H" "b \<noteq> b'"
  shows "block_bytes b \<inter> block_bytes b' = {}"
proof -
  obtain q len xs where P: "(q, len, xs) \<in> set H" "b \<in> live_segments xs" using b(1) unfolding in_live by blast
  then obtain a n where ba: "b = (a + 32, n)" "(a, n, False) \<in> set xs" by (auto simp: live_segments_def)
  obtain ys zs where xs: "xs = ys @ (a, n, False) # zs" using ba(2) by (meson split_list)
  obtain H1 H2 where H: "H = H1 @ (q, len, ys @ (a, n, False) # zs) # H2" using P(1) xs by (metis split_list)
  have "page_laid (q, len, xs)" using wf P(1) by (auto simp: heap_wf_def)
  then have "block_bytes b = payload_bytes (a, n, False)" using page_segment(4) ba by blast
  moreover have "b' \<in> live H1 \<union> live H2 \<union> live_segments ys \<union> live_segments zs" using b(2,3) H ba by auto
  ultimately show ?thesis using blocks_apart [OF wf [unfolded H], of b'] by blast
qed

text \<open>A block is known by its address.\<close>

lemma live_inj:
  assumes wf: "heap_wf s H" and "(p, n) \<in> live H" and "(p, k) \<in> live H"
  shows "n = k"
proof (rule ccontr)
  assume ne: "n \<noteq> k"
  obtain q len xs where P: "(q, len, xs) \<in> set H" "(p, n) \<in> live_segments xs" using assms(2) unfolding in_live by blast
  then obtain a where a: "p = a + 32" "(a, n, False) \<in> set xs" by (auto simp: live_segments_def)
  obtain ys zs where xs: "xs = ys @ (a, n, False) # zs" using a(2) by (meson split_list)
  obtain H1 H2 where H: "H = H1 @ (q, len, ys @ (a, n, False) # zs) # H2" using P(1) xs by (metis split_list)
  have "(p, k) \<in> live H1 \<union> live H2 \<union> live_segments ys \<union> live_segments zs" using assms(3) ne H a(1) by auto
  from segment_not_live [OF wf [unfolded H] this] a(1) show False by blast
qed

lemma heap_write_blocks:
  assumes wf: "heap_wf s H" and on: "agree_on (mem s) m (- \<Union> (block_bytes ` live H))"
  shows "heap_wf (s\<lparr>mem := m\<rparr>) H"
proof -
  have "page_laid P \<and> agree_on (mem s) m (meta_bytes P)" if P: "P \<in> set H" for P
  proof
    show ly: "page_laid P" using wf P by (simp add: heap_wf_def)
    have "block_bytes b \<inter> meta_bytes P = {}" if b: "b \<in> live H" for b
    proof -
      obtain Q where Q: "Q \<in> set H" "block_bytes b \<subseteq> page_bytes Q" "block_bytes b \<inter> meta_bytes Q = {}"
        using live_page [OF wf b] .
      show ?thesis
      proof (cases "P = Q")
        case False
        obtain H1 H2 where H: "H = H1 @ P # H2" using P by (meson split_list)
        then have "page_bytes P \<inter> page_bytes Q = {}"
          using wf Q(1) False pages_split_disjoint [of H1 P H2 Q] by (auto simp: heap_wf_def)
        then show ?thesis using Q(2) meta_subset [OF ly] by blast
      qed (use Q(3) in simp)
    qed
    then show "agree_on (mem s) m (meta_bytes P)" using on by (elim agree_on_mono) blast
  qed
  then have "pages m (heap s) H 0 = pages (mem s) (heap s) H 0" by (rule pages_on)
  then show ?thesis using wf by (simp add: heap_wf_def)
qed

lemma heap_write: "heap_wf s H \<Longrightarrow> b \<in> live H \<Longrightarrow> agree_on (mem s) m (- block_bytes b) \<Longrightarrow> heap_wf (s\<lparr>mem := m\<rparr>) H"
  by (rule heap_write_blocks) (auto elim: agree_on_mono)

interpretation hp: block_heap kmalloc heap_rep heap_room mem "\<lambda>m s. s\<lparr>mem := m\<rparr>"
proof
  fix s :: "'a heap_state_scheme" and L sz
  assume "heap_rep s L" and room: "heap_room sz s"
  then obtain H where H: "heap_wf s H" "live H = L" by (auto simp: heap_rep_def)
  from kmalloc_allocates [OF H(1) room [unfolded heap_room_iff [OF H(1)]]] obtain p s' where "kmalloc sz s = Some (Inr (p, s'))" "allocated sz s H p s'"
    by blast
  then show "\<exists>p n s'. kmalloc sz s = Some (Inr (p, s')) \<and> heap_rep s' (insert (p, n) L) \<and> (p, n) \<notin> L \<and> sz \<le> n \<and>
      p \<noteq> 0 \<and> (\<forall>b \<in> L. agree_on (mem s) (mem s') (block_bytes b))"
    using H(2) unfolding allocated_def heap_rep_def by blast
next
  fix s :: "'a heap_state_scheme" and L b b'
  assume "heap_rep s L" "b \<in> L" "b' \<in> L" "b \<noteq> b'"
  then show "block_bytes b \<inter> block_bytes b' = {}" using live_disjoint unfolding heap_rep_def by blast
next
  fix s :: "'a heap_state_scheme" and L b m
  assume "heap_rep s L" "b \<in> L" "agree_on (mem s) m (- block_bytes b)"
  then show "heap_rep (s\<lparr>mem := m\<rparr>) L" using heap_write unfolding heap_rep_def by blast
qed

section \<open>Many blocks\<close>

text \<open>
  A client that takes many blocks of one size needs to know that room remains: \<open>rooms k sz s\<close> is room for \<open>k\<close> of them. In
  the heap, a run of \<open>k\<close> free frames is enough for \<open>k\<close> blocks that fit into a frame.
\<close>

locale block_heap_many = block_heap malloc rep room mm set_mm
  for malloc :: "u64 \<Rightarrow> 's \<Rightarrow> (fault + (u64 \<times> 's)) option" and rep :: "'s \<Rightarrow> (u64 \<times> u64) set \<Rightarrow> bool"
    and room mm set_mm +
  fixes rooms :: "nat \<Rightarrow> u64 \<Rightarrow> 's \<Rightarrow> bool"
  assumes rooms_room: "rooms (Suc k) sz s \<Longrightarrow> room sz s"
    and rooms_malloc: "rep s L \<Longrightarrow> rooms (Suc k) sz s \<Longrightarrow> malloc sz s = Some (Inr (p, s')) \<Longrightarrow> rooms k sz s'"
    and rooms_set: "rooms k sz (set_mm m s) = rooms k sz s"
    and rep_fits: "rep s L \<Longrightarrow> (p, n) \<in> L \<Longrightarrow> 0 < n \<Longrightarrow> unat p + unat n < 2 ^ 64"
begin

text \<open>One block of many, filled in by its owner.\<close>

lemma malloc_fill_next:
  assumes rep: "rep s L" and room: "rooms (Suc k) sz s" and sz: "0 < sz"
    and fill: "\<And>p m. unat p + unat sz < 2 ^ 64 \<Longrightarrow> agree_on m (fill p m) (- {unat p..<unat p + unat sz})"
  obtains p n s' where "malloc sz s = Some (Inr (p, s'))" and "sz \<le> n" and "p \<noteq> 0"
    and "unat p + unat sz < 2 ^ 64"
    and "rep (set_mm (fill p (mm s')) s') (insert (p, n) L)" and "rooms k sz (set_mm (fill p (mm s')) s')"
    and "\<forall>b \<in> L. agree_on (mm s) (fill p (mm s')) (block_bytes b)"
proof -
  obtain p n s' where m: "malloc sz s = Some (Inr (p, s'))" "sz \<le> n" "p \<noteq> 0" "rep s' (insert (p, n) L)"
      and w: "\<And>m. agree_on (mm s') m (- block_bytes (p, n)) \<Longrightarrow>
           rep (set_mm m s') (insert (p, n) L) \<and> (\<forall>b \<in> L. agree_on (mm s) m (block_bytes b))"
    using malloc_fill [OF rep rooms_room [OF room]] by metis
  have "unat p + unat n < 2 ^ 64" using rep_fits [OF m(4)] m(2) sz by (auto intro: less_le_trans)
  then have fit: "unat p + unat sz < 2 ^ 64" using m(2) by (simp add: word_le_nat_alt)
  have "agree_on (mm s') (fill p (mm s')) (- block_bytes (p, n))"
    using m(2) by (intro agree_on_mono [OF fill [OF fit]]) (auto simp: block_bytes_def word_le_nat_alt)
  from w [OF this] show thesis
    using that [OF m(1-3) fit] rooms_malloc [OF rep room m(1)] by (simp add: rooms_set)
qed

end

definition rooms_for :: "nat \<Rightarrow> u64 \<Rightarrow> 'a frame_state_scheme \<Rightarrow> bool" where
  "rooms_for k sz s \<longleftrightarrow> unat sz + 64 \<le> 4096 \<and> unat (latest_frame s) + k \<le> unat (available_frames s) \<and>
     run_free (frames s) (unat (latest_frame s)) (unat (latest_frame s) + k)"

lemma rooms_frames_for: "rooms_for (Suc k) sz s \<Longrightarrow> frames_for sz s"
  unfolding rooms_for_def frames_for_def by (auto simp: pages_needed_def intro: run_free_mono)

lemma rooms_mono: "rooms_for (Suc k) sz s \<Longrightarrow> rooms_for k sz s"
  unfolding rooms_for_def by (auto intro: run_free_mono)

lemma create_heap_page_rooms:
  assumes r: "rooms_for (Suc k) sz s" and c: "create_heap_page sz s = Inr (q, s1)"
  shows "rooms_for k sz s1"
proof -
  have sz: "unat sz + 64 \<le> 4096" and fit: "unat (latest_frame s) + Suc k \<le> unat (available_frames s)"
    and run: "run_free (frames s) (unat (latest_frame s)) (unat (latest_frame s) + Suc k)"
    using r by (auto simp: rooms_for_def)
  have "sz + 32 + 32 \<le> FRAME_SIZE" using sz by (simp add: word_le_nat_alt unat_offset)
  then obtain s0 where al: "Frame_allocs 1 s = (q, s0)" and s1: "s1 = s0\<lparr>mem := mem s1\<rparr>"
    using c by (auto simp: create_heap_page_def Let_def split: prod.splits if_splits)
  have "run_free (frames s) (unat (latest_frame s)) (unat (latest_frame s) + unat (1 :: u64))"
    by (rule run_free_mono [OF run]) simp_all
  from Frame_allocs_free_run [OF this] fit al
  have s0: "frames s0 = mark_frames (frames s) (latest_frame s) 1" "latest_frame s0 = latest_frame s + 1"
      "available_frames s0 = available_frames s" by auto
  have l: "unat (latest_frame s + 1) = Suc (unat (latest_frame s))"
    using fit by (intro unat_inc [of _ "available_frames s"]) (simp add: word_less_nat_alt)
  have "frames s1 = frames s0" "latest_frame s1 = latest_frame s0" "available_frames s1 = available_frames s0"
    by (subst s1, simp)+
  then show ?thesis using sz fit run s0 l
    by (auto simp: rooms_for_def run_free_def)
qed

lemma kmalloc_rooms:
  assumes wf: "heap_wf s H" and r: "rooms_for (Suc k) sz s" and km: "kmalloc sz s = Some (Inr (p, s'))"
  shows "rooms_for k sz s'"
proof (cases "\<exists>P \<in> set H. page_fits sz P")
  case True
  then obtain m where "s' = s\<lparr>mem := m\<rparr>" using kmalloc_fits [OF wf] km by fastforce
  then show ?thesis using rooms_mono [OF r] by (simp add: rooms_for_def)
next
  case False
  then have no: "\<forall>P \<in> set H. \<not> page_fits sz P" by blast
  obtain s2 q n where s2: "kmalloc sz s = kmalloc sz s2" "heap_wf s2 (H @ [(q, 64 + unat n, [(q + 32, n, True)])])" "sz \<le> n"
      and s1: "\<exists>s1 m h. create_heap_page sz s = Inr (q, s1) \<and> s2 = s1\<lparr>mem := m, heap := h\<rparr>"
    by (rule kmalloc_grow [OF wf rooms_frames_for [OF r] no])
  have "\<exists>P \<in> set (H @ [(q, 64 + unat n, [(q + 32, n, True)])]). page_fits sz P" using s2(3) by (simp add: page_fits_def fits_def)
  from kmalloc_fits [OF s2(2) this] obtain m where "s' = s2\<lparr>mem := m\<rparr>" using s2(1) km by auto
  moreover obtain s1 m' h where "create_heap_page sz s = Inr (q, s1)" "s2 = s1\<lparr>mem := m', heap := h\<rparr>" using s1 by blast
  ultimately show ?thesis using create_heap_page_rooms [OF r] by (simp add: rooms_for_def)
qed

lemma heap_rep_fits: "heap_rep s L \<Longrightarrow> (p, n) \<in> L \<Longrightarrow> 0 < n \<Longrightarrow> unat p + unat n < 2 ^ 64"
proof -
  assume "heap_rep s L" "(p, n) \<in> L" and n: "0 < n"
  then obtain H where H: "heap_wf s H" "(p, n) \<in> live H" by (auto simp: heap_rep_def)
  obtain q len xs where Q: "(q, len, xs) \<in> set H" "(p, n) \<in> live_segments xs" using H(2) unfolding in_live by blast
  then have ly: "page_laid (q, len, xs)" using H(1) by (auto simp: heap_wf_def)
  obtain a where a: "p = a + 32" "(a, n, False) \<in> set xs" using Q(2) by (auto simp: live_segments_def)
  show ?thesis using page_segment [OF ly a(2)] a(1) ly by (simp add: page_laid_def)
qed

interpretation hpm: block_heap_many kmalloc heap_rep heap_room mem "\<lambda>m s. s\<lparr>mem := m\<rparr>" rooms_for
proof
  fix s s' :: "'a heap_state_scheme" and L k sz p
  assume "heap_rep s L" "rooms_for (Suc k) sz s" "kmalloc sz s = Some (Inr (p, s'))"
  then show "rooms_for k sz s'" using kmalloc_rooms unfolding heap_rep_def by blast
next
  fix s :: "'a heap_state_scheme" and L p n
  assume "heap_rep s L" "(p, n) \<in> L" "0 < n"
  then show "unat p + unat n < 2 ^ 64" by (rule heap_rep_fits)
qed (rule frames_heap_room, erule rooms_frames_for, simp add: rooms_for_def)

section \<open>Pages of several frames\<close>

lemma create_heap_page_frames:
  assumes "unat sz + 64 < 2 ^ 32" and "\<not> unat sz + 64 \<le> 4096" and "create_heap_page sz s = Inr (q, s')"
  shows "\<exists>s1. Frame_allocs (of_nat (pages_needed sz)) s = (q, s1) \<and> s' = s1\<lparr>mem := mem s'\<rparr>"
proof -
  have "\<not> sz + 32 + 32 \<le> FRAME_SIZE"
    using assms(1,2) by (simp add: word_le_nat_alt unat_offset)
  moreover note num_pages_word [OF assms(1,2)]
  ultimately show ?thesis
    using assms(3) by (auto simp: create_heap_page_def Let_def split: prod.splits if_splits)
qed

text \<open>
  Two heap pages of several frames in a row (as \<open>spawn_process\<close> makes for the stacks of two
  tasks): the second page starts inside the first, so its header and its segments overwrite bytes of
  the block the first page was made for. The frame allocator advances its search position by one
  frame only, and counts the last frame in use as part of the next run.
\<close>

theorem heap_pages_overlap:
  assumes wf: "frame_wf s" and big: "4096 < unat sz + 64" "4096 < unat sz' + 64"
    and small: "unat sz + 64 < 2 ^ 32" "unat sz' + 64 < 2 ^ 32"
    and free: "run_free (frames s) (unat (latest_frame s))
                 (unat (latest_frame s) + pages_needed sz + pages_needed sz' - 1)"
    and fits: "unat (latest_frame s) + pages_needed sz + pages_needed sz' - 1 \<le> unat (available_frames s)"
    and first: "create_heap_page sz s = Inr (q, s1)" and second: "create_heap_page sz' s1 = Inr (q', s2)"
  shows "unat q + 64 \<le> unat q' \<and> unat q' < unat q + 64 + unat sz"
proof -
  let ?c = "pages_needed sz" and ?d = "pages_needed sz'"
  have c: "2 \<le> ?c" "2 \<le> ?d" using big by (auto simp: pages_needed_def)
  have av: "unat (available_frames s) \<le> 2 ^ 20" using wf by (simp add: frame_wf_def)
  have u: "unat (of_nat ?c :: u64) = ?c" "unat (of_nat ?d :: u64) = ?d"
    using fits c av by (simp_all add: unsigned_of_nat take_bit_nat_eq_self)
  obtain t1 where t1: "Frame_allocs (of_nat ?c) s = (q, t1)" "s1 = t1\<lparr>mem := mem s1\<rparr>"
    using create_heap_page_frames [OF small(1) _ first] big by auto
  obtain t2 where "Frame_allocs (of_nat ?d) s1 = (q', t2)"
    using create_heap_page_frames [OF small(2) _ second] big by auto
  moreover have "fst (Frame_allocs (of_nat ?d) (t1\<lparr>mem := mem s1\<rparr>)) = fst (Frame_allocs (of_nat ?d) t1)"
    by (simp add: Frame_allocs_def Let_def split: prod.split)
  ultimately obtain t2' where t2: "Frame_allocs (of_nat ?d) t1 = (q', t2')"
    using t1(2) by (metis fst_conv prod.collapse)
  have "q' = q + (of_nat ?c - 1) * FRAME_SIZE"
    using allocs_second_block [OF wf _ _ _ _ t1(1) t2] c u free fits by simp
  then have q': "q' = q + of_nat (?c - 1) * FRAME_SIZE" using c by (simp add: of_nat_diff)
  have l: "latest_frame s < available_frames s" using c fits by (simp add: word_less_nat_alt)
  have "run_free (frames s) (unat (latest_frame s)) (unat (latest_frame s) + unat (of_nat ?c :: u64))"
    using free by (rule run_free_mono) (use c u in simp_all)
  then have "q = frame_addr s (latest_frame s)"
    using Frame_allocs_free_run [of s "of_nat ?c"] t1(1) c u fits by auto
  then have "unat q = unat (base_addr s) + 4096 * unat (latest_frame s)" using unat_frame_addr [OF wf l] by simp
  then have room: "unat q + 4096 * (?c - 1) < 2 ^ 64" using wf c fits by (auto simp: frame_wf_def)
  then have "unat (of_nat (?c - 1) * FRAME_SIZE :: u64) = 4096 * (?c - 1)" by (intro unat_page_offset) simp
  then have "unat q' = unat q + 4096 * (?c - 1)" unfolding q' using room by (subst unat_offset) simp_all
  moreover have "4096 * (?c - 1) < unat sz + 64" "4096 \<le> 4096 * (?c - 1)"
    using big c by (auto simp: pages_needed_def)
  ultimately show ?thesis by linarith
qed

section \<open>Witnesses\<close>

text \<open>An empty heap on eight frames, the first two in use.\<close>

definition ex_heap :: heap_state where
  "ex_heap = paging_state.extend (ex_paging\<lparr>latest_frame := 2\<rparr>) (heap_state.fields 0)"

lemma ex_heap_sel [simp]:
  "heap ex_heap = 0" "frames ex_heap = (\<lambda>k. k < 2)" "latest_frame ex_heap = 2" "available_frames ex_heap = 64"
  "base_addr ex_heap = 0xffff800000100000"
  by (simp_all add: ex_heap_def ex_paging_def ex_frames_def frame_state.defs paging_state.defs heap_state.defs)

lemma ex_heap_wf [simp]: "heap_wf ex_heap []"
  by (simp add: heap_wf_def frame_wf_def)

lemma ex_heap_rep [simp]: "heap_rep ex_heap {}"
  unfolding heap_rep_def by (rule exI [of _ "[]"]) simp

lemma ex_heap_room: "pages_needed sz \<le> 62 \<Longrightarrow> unat sz + 64 < 2 ^ 32 \<Longrightarrow> frames_for sz ex_heap"
  by (auto simp: frames_for_def run_free_def word_less_nat_alt)


text \<open>A heap of two pages, each with a block in use.\<close>

definition ex_pages_mem :: memory where
  "ex_pages_mem = store8 (foldl (\<lambda>m (a, v). store64 m a v) (\<lambda>_. 0)
     [(0xffff800000100008, 0xffff800000100020), (0xffff800000100018, 0xffff800000101000),
      (0xffff800000100020, 0xffff800000100040), (0xffff800000100028, 100),
      (0xffff800000100038, 0xffff8000001000a4),
      (0xffff8000001000a4, 0xffff8000001000c4), (0xffff8000001000ac, 3900),
      (0xffff800000101008, 0xffff800000101020),
      (0xffff800000101020, 0xffff800000101040), (0xffff800000101028, 4032)])
     0xffff8000001000b4 1"

definition ex_heap_pages :: heap_state where
  "ex_heap_pages = ex_heap\<lparr>mem := ex_pages_mem, heap := 0xffff800000100000\<rparr>"

definition ex_H :: "hpage list" where
  "ex_H = [(0xffff800000100000, 4096, [(0xffff800000100020, 100, False), (0xffff8000001000a4, 3900, True)]),
           (0xffff800000101000, 4096, [(0xffff800000101020, 4032, False)])]"

lemma load64_zero [simp]: "load64 (\<lambda>_. 0) a = 0"
  by (rule bit_word_eqI) (simp add: bit_load64)

lemma ex_heap_pages_wf: "heap_wf ex_heap_pages ex_H"
proof -
  have "0xffff800000100000 \<in> taken ex_heap_pages" "0xffff800000101000 \<in> taken ex_heap_pages"
    unfolding taken_def by (rule image_eqI [of _ _ 0], simp_all add: ex_heap_pages_def frame_addr_def)
      (rule image_eqI [of _ _ 1], simp_all add: ex_heap_pages_def frame_addr_def)
  moreover have "pages ex_pages_mem 0xffff800000100000 ex_H 0"
    by (simp add: ex_pages_mem_def ex_H_def page_at_def header_def mem_simps apart_def one_le_u64)
  ultimately show ?thesis
    by (auto simp: heap_wf_def ex_H_def page_laid_def page_bytes_def frame_bytes_def frame_wf_def ex_heap_pages_def)
qed

theorem kfree_correct_witness:
  "heap_wf ex_heap_pages ex_H \<and>
   (\<exists>s' xs'. kfree 0xffff800000100040 ex_heap_pages = Some (Inr (True, s')) \<and>
      live ((0xffff800000100000, 4096, xs') # tl ex_H) = {(0xffff800000101040, 4032)})"
proof -
  let ?xs = "[(0xffff800000100020, 100, False), (0xffff8000001000a4, 3900, True)] :: segment list"
  have H: "(0xffff800000100000, 4096, ?xs) # tl ex_H = ex_H" by (simp add: ex_H_def)
  have "live ex_H - {(0xffff800000100040, 100)} = {(0xffff800000101040, 4032)}" by (auto simp: ex_H_def)
  moreover have "(0xffff800000100040, 100) \<in> live_segments ?xs" by simp
  moreover have "heap_wf ex_heap_pages ((0xffff800000100000, 4096, ?xs) # tl ex_H)"
    unfolding H by (rule ex_heap_pages_wf)
  from kfree_correct [OF this \<open>(0xffff800000100040, 100) \<in> live_segments ?xs\<close>] obtain s' xs' where
      "kfree 0xffff800000100040 ex_heap_pages = Some (Inr (True, s'))"
      "live ((0xffff800000100000, 4096, xs') # tl ex_H) = live ex_H - {(0xffff800000100040, 100)}"
    unfolding H by blast
  ultimately show ?thesis using ex_heap_pages_wf by metis
qed

theorem kfree_later_page_witness:
  "heap_wf ex_heap_pages ex_H \<and> (0xffff800000101040, 4032) \<in> live ex_H \<and>
   kfree 0xffff800000101040 ex_heap_pages = Some (Inr (False, ex_heap_pages))"
proof -
  have "(0xffff800000101040, 4032) \<in> live (tl ex_H)" by (simp add: ex_H_def)
  with kfree_later_page [of ex_heap_pages "hd ex_H" "tl ex_H"] ex_heap_pages_wf show ?thesis
    by (simp add: ex_H_def)
qed

theorem heap_pages_overlap_witness:
  "\<exists>q s1 q' s2. create_heap_page 0x8000 ex_heap = Inr (q, s1) \<and> create_heap_page 0x8000 s1 = Inr (q', s2) \<and>
     unat q + 64 \<le> unat q' \<and> unat q' < unat q + 64 + 0x8000"
proof -
  have n: "pages_needed 0x8000 = 9" by (simp add: pages_needed_def)
  have fr: "frames_for 0x8000 ex_heap" by (rule ex_heap_room) (simp_all add: n)
  have wf: "frame_wf ex_heap" by (simp add: frame_wf_def)
  have free: "run_free (frames ex_heap) 2 19" by (simp add: run_free_def word_less_nat_alt)
  obtain q s1 where 1: "create_heap_page 0x8000 ex_heap = Inr (q, s1)"
    using create_heap_page_ok [OF wf _ fr] by (metis (full_types) ex_heap_wf heap_wf_def)
  obtain t1 where t1: "Frame_allocs 9 ex_heap = (q, t1)" "s1 = t1\<lparr>mem := mem s1\<rparr>"
    using create_heap_page_frames [OF _ _ 1] by (auto simp: n)
  have "fst (Frame_allocs 9 t1) = q + 8 * FRAME_SIZE"
    using allocs_second_block [OF wf _ _ _ _ t1(1) prod.collapse [symmetric], of 9] free by simp
  moreover have "q = 0xffff800000102000"
    using Frame_allocs_free_run [of ex_heap 9] t1(1) free by (simp add: run_free_mono frame_addr_def)
  moreover have "fst (Frame_allocs 9 (t1\<lparr>mem := mem s1\<rparr>)) = fst (Frame_allocs 9 t1)"
    by (simp add: Frame_allocs_def Let_def split: prod.split)
  ultimately have nz: "fst (Frame_allocs 9 s1) \<noteq> 0" unfolding t1(2) [symmetric] by simp
  have "(ucast (ucast (ROUND_UP (64 + 0x8000) FRAME_SIZE) :: u32) :: u64) = 9" by (simp add: ROUND_UP_def)
  then obtain q' s2 where 2: "create_heap_page 0x8000 s1 = Inr (q', s2)"
    using nz by (simp add: create_heap_page_def case_prod_beta Let_def ROUND_UP_def)
  show ?thesis
    using heap_pages_overlap [OF wf _ _ _ _ _ _ 1 2] 1 2 free by (auto simp: n)
qed

end
