(* ===== verification/Tasks.thy ===== *)
theory Tasks
  imports Kmalloc
begin

unbundle bit_operations_syntax

text \<open>
  The scheduler, \<open>include/task/man.h\<close>, \<open>include/task/scheduler.h\<close> and \<open>kernel/task/scheduler.cc\<close>: tasks
  are blocks of the kernel heap linked into a ring, a cursor \<open>current\<close> marks the running one.

  A \<open>Task\<close> takes 224 bytes: the saved \<open>Context\<close> (160 bytes, \<open>rip\<close> at 0x78, \<open>cs\<close> at 0x80, \<open>rflags\<close> at 0x88,
  \<open>rsp\<close> at 0x90, \<open>ss\<close> at 0x98), \<open>stack\<close> at 160, the 32 bit \<open>pid\<close> at 168 and \<open>state\<close> at 172, \<open>next\<close> at 176,
  \<open>prev\<close> at 184, \<open>name\<close> at 192, the 32 bit \<open>priority\<close> at 200, \<open>start_time\<close> at 208 and \<open>cpu_time\<close> at 216.

  Switching to a task is a call of its entry point in tail position: \<open>yield\<close> and \<open>start_scheduler\<close>
  return the address they call, or \<open>None\<close> when they return to their caller instead.
\<close>

section \<open>Data\<close>

datatype task_status = ACTIVE | WAITING | TERMINATED | READY

text \<open>The value the compiler gives an enumerator.\<close>

primrec status_code :: "task_status \<Rightarrow> u32" where
  "status_code ACTIVE = 0"
| "status_code WAITING = 1"
| "status_code TERMINATED = 2"
| "status_code READY = 3"

record task_state = heap_state +
  head :: u64
  tail :: u64
  current :: u64
  pcount :: u32
  next_pid :: u32
  scheduler_running :: bool

definition STACK_SIZE :: u64 where "STACK_SIZE = 32768"
definition TASK_SIZE :: u64 where "TASK_SIZE = 224"

definition t_rip :: "memory \<Rightarrow> u64 \<Rightarrow> u64" where "t_rip m t = load64 m (t + 0x78)"
definition t_rsp :: "memory \<Rightarrow> u64 \<Rightarrow> u64" where "t_rsp m t = load64 m (t + 0x90)"
definition t_stack :: "memory \<Rightarrow> u64 \<Rightarrow> u64" where "t_stack m t = load64 m (t + 160)"
definition t_pid :: "memory \<Rightarrow> u64 \<Rightarrow> u32" where "t_pid m t = load32 m (t + 168)"
definition t_state :: "memory \<Rightarrow> u64 \<Rightarrow> u32" where "t_state m t = load32 m (t + 172)"
definition t_next :: "memory \<Rightarrow> u64 \<Rightarrow> u64" where "t_next m t = load64 m (t + 176)"
definition t_prev :: "memory \<Rightarrow> u64 \<Rightarrow> u64" where "t_prev m t = load64 m (t + 184)"
definition t_name :: "memory \<Rightarrow> u64 \<Rightarrow> u64" where "t_name m t = load64 m (t + 192)"
definition t_priority :: "memory \<Rightarrow> u64 \<Rightarrow> u32" where "t_priority m t = load32 m (t + 200)"

definition set_state :: "u64 \<Rightarrow> task_status \<Rightarrow> 'a task_state_scheme \<Rightarrow> 'a task_state_scheme" where
  "set_state t st s = s\<lparr>mem := store32 (mem s) (t + 172) (status_code st)\<rparr>"

definition runnable :: "memory \<Rightarrow> u64 \<Rightarrow> bool" where
  "runnable m t \<longleftrightarrow> t_state m t = status_code ACTIVE \<or> t_state m t = status_code READY"

section \<open>The process list\<close>

definition link_process :: "u64 \<Rightarrow> 'a task_state_scheme \<Rightarrow> 'a task_state_scheme" where
  "link_process task s =
     (let s' = (if head s = 0
                then s\<lparr>head := task, tail := task,
                       mem := store64 (store64 (mem s) (task + 176) task) (task + 184) task\<rparr>
                else (let m1 = store64 (mem s) (task + 176) (head s);
                          m2 = store64 m1 (task + 184) (tail s);
                          m3 = store64 m2 (tail s + 176) task;
                          m4 = store64 m3 (head s + 184) task
                      in s\<lparr>mem := m4, tail := task\<rparr>))
      in s'\<lparr>pcount := pcount s' + 1\<rparr>)"

definition unlink_process :: "u64 \<Rightarrow> 'a task_state_scheme \<Rightarrow> 'a task_state_scheme" where
  "unlink_process task s =
     (let s' = (if pcount s = 1 then s\<lparr>head := 0, tail := 0, current := 0\<rparr>
                else (let m1 = store64 (mem s) (t_prev (mem s) task + 176) (t_next (mem s) task);
                          m2 = store64 m1 (t_next m1 task + 184) (t_prev m1 task)
                      in s\<lparr>mem := m2,
                           head := (if head s = task then t_next m2 task else head s),
                           tail := (if tail s = task then t_prev m2 task else tail s),
                           current := (if current s = task then t_next m2 task else current s)\<rparr>))
      in s'\<lparr>pcount := pcount s' - 1\<rparr>)"

text \<open>The body of the loop of \<open>cleanup_terminated\<close> for a terminated task.\<close>

definition reap :: "u64 \<Rightarrow> 'a task_state_scheme \<Rightarrow> (fault + 'a task_state_scheme) option" where
  "reap t s =
     (let s1 = unlink_process t s in
      then_do (kfree (t_stack (mem s1) t) s1) (\<lambda>(_, s2).
      then_do (kfree t s2) (\<lambda>(_, s3). Some (Inr s3))))"

partial_function (option) cleanup_loop ::
    "u64 \<Rightarrow> 'a task_state_scheme \<Rightarrow> (fault + 'a task_state_scheme) option" where
  [code]: "cleanup_loop t s =
     (let nx = t_next (mem s) t in
      case (if t_state (mem s) t = status_code TERMINATED then reap t s else Some (Inr s)) of
        None \<Rightarrow> None
      | Some (Inl e) \<Rightarrow> Some (Inl e)
      | Some (Inr s') \<Rightarrow>
          if nx \<noteq> head s' \<and> pcount s' > 0 then cleanup_loop nx s' else Some (Inr s'))"

definition cleanup_terminated :: "'a task_state_scheme \<Rightarrow> (fault + 'a task_state_scheme) option" where
  "cleanup_terminated s = (if head s = 0 then Some (Inr s) else cleanup_loop (head s) s)"

text \<open>The assignments of \<open>spawn_process\<close> to the fields of a new task whose stack is set.\<close>

definition fill_task :: "u64 \<Rightarrow> u64 \<Rightarrow> u32 \<Rightarrow> u32 \<Rightarrow> u64 \<Rightarrow> memory \<Rightarrow> memory" where
  "fill_task entry name priority pid task m =
     (let stack_top = t_stack m task + STACK_SIZE;
          m1 = memset m task 0 160;
          m2 = store64 m1 (task + 0x78) entry;
          m3 = store64 m2 (task + 0x80) 0x08;
          m4 = store64 m3 (task + 0x98) 0x10;
          m5 = store64 m4 (task + 0x88) 0x202;
          m6 = store64 m5 (task + 0x90) stack_top;
          m7 = store32 m6 (task + 168) pid;
          m8 = store32 m7 (task + 172) (status_code READY);
          m9 = store64 m8 (task + 192) name;
          m10 = store32 m9 (task + 200) priority;
          m11 = store64 m10 (task + 208) 0
      in store64 m11 (task + 216) 0)"

definition spawn_process ::
    "u64 \<Rightarrow> u64 \<Rightarrow> u32 \<Rightarrow> 'a task_state_scheme \<Rightarrow> (fault + (u64 \<times> 'a task_state_scheme)) option" where
  "spawn_process entry name priority s =
     then_do (kmalloc TASK_SIZE s) (\<lambda>(task, s1).
       if task = 0 then Some (Inr (0, s1))
       else then_do (kmalloc STACK_SIZE s1) (\<lambda>(stack, s2).
         let s3 = s2\<lparr>mem := store64 (mem s2) (task + 160) stack\<rparr> in
         if t_stack (mem s3) task = 0
         then then_do (kfree task s3) (\<lambda>(_, s4). Some (Inr (0, s4)))
         else Some (Inr (task, link_process task
                (s3\<lparr>mem := fill_task entry name priority (next_pid s3) task (mem s3), next_pid := next_pid s3 + 1\<rparr>)))))"

definition add_task :: "u64 \<Rightarrow> u64 \<Rightarrow> 'a task_state_scheme \<Rightarrow> (fault + 'a task_state_scheme) option" where
  "add_task legacy_name entry s =
     then_do (spawn_process entry legacy_name 1 s) (\<lambda>(_, s'). Some (Inr s'))"

text \<open>The search of \<open>get_by_pid\<close>.\<close>

partial_function (option) pid_loop :: "memory \<Rightarrow> u64 \<Rightarrow> u32 \<Rightarrow> u64 \<Rightarrow> u64 option" where
  [code]: "pid_loop m h pid t =
     (if t_pid m t = pid then Some t
      else (let t' = t_next m t in if t' \<noteq> h then pid_loop m h pid t' else Some 0))"

definition get_by_pid :: "u32 \<Rightarrow> 'a task_state_scheme \<Rightarrow> u64 option" where
  "get_by_pid pid s = (if head s = 0 then Some 0 else pid_loop (mem s) (head s) pid (head s))"

definition kill_process :: "u32 \<Rightarrow> 'a task_state_scheme \<Rightarrow> 'a task_state_scheme option" where
  "kill_process pid s =
     (case get_by_pid pid s of None \<Rightarrow> None
      | Some t \<Rightarrow> Some (if t \<noteq> 0 then set_state t TERMINATED s else s))"

text \<open>The search of \<open>yield\<close>: the task and the number of tasks passed over.\<close>

function next_runnable :: "memory \<Rightarrow> u32 \<Rightarrow> u64 \<Rightarrow> u32 \<Rightarrow> u64 \<times> u32" where
  "next_runnable m n t checked =
     (if checked < n \<and> \<not> runnable m t then next_runnable m n (t_next m t) (checked + 1) else (t, checked))"
  by pat_completeness auto
termination
  by (relation "measure (\<lambda>(m, n, t, checked). unat n - unat checked)") (auto, unat_arith)

declare next_runnable.simps [simp del]

definition yield_task :: "'a task_state_scheme \<Rightarrow> (fault + (u64 option \<times> 'a task_state_scheme)) option" where
  "yield_task s =
     then_do (cleanup_terminated s) (\<lambda>s.
       if current s = 0 \<or> pcount s = 0 then Some (Inr (None, s))
       else (let (nx, checked) = next_runnable (mem s) (pcount s) (t_next (mem s) (current s)) 0 in
         if checked \<ge> pcount s then Some (Inr (None, s))
         else if nx = current s then Some (Inr (None, s))
         else (let s1 = set_state nx ACTIVE (s\<lparr>current := nx\<rparr>) in Some (Inr (Some (t_rip (mem s1) nx), s1)))))"

definition kill_current :: "'a task_state_scheme \<Rightarrow> (fault + (u64 option \<times> 'a task_state_scheme)) option" where
  "kill_current s =
     (if current s \<noteq> 0 then yield_task (set_state (current s) TERMINATED s) else Some (Inr (None, s)))"

definition sleep_task :: "u64 \<Rightarrow> 'a task_state_scheme \<Rightarrow> (fault + (u64 option \<times> 'a task_state_scheme)) option" where
  "sleep_task ticks s =
     (if current s \<noteq> 0 then yield_task (set_state (current s) WAITING s) else Some (Inr (None, s)))"

text \<open>The search of \<open>start_scheduler\<close>.\<close>

partial_function (option) start_loop :: "memory \<Rightarrow> u64 \<Rightarrow> u64 \<Rightarrow> u64 option" where
  [code]: "start_loop m h t =
     (if t \<noteq> 0 \<and> \<not> runnable m t
      then (let t' = t_next m t in if t' = h then Some t' else start_loop m h t')
      else Some t)"

definition start_scheduler :: "'a task_state_scheme \<Rightarrow> (u64 option \<times> 'a task_state_scheme) option" where
  "start_scheduler s =
     (if pcount s = 0 then Some (None, s)
      else (let s0 = s\<lparr>scheduler_running := True\<rparr> in
        case start_loop (mem s0) (head s0) (head s0) of
          None \<Rightarrow> None
        | Some t \<Rightarrow>
            if t = 0 then Some (None, s0)
            else (let s1 = set_state t ACTIVE (s0\<lparr>current := t\<rparr>) in Some (Some (t_rip (mem s1) t), s1))))"

definition stop_scheduler :: "'a task_state_scheme \<Rightarrow> 'a task_state_scheme" where
  "stop_scheduler s = s\<lparr>scheduler_running := False\<rparr>"

definition get_current :: "'a task_state_scheme \<Rightarrow> u64" where
  "get_current s = current s"

definition get_process_count :: "'a task_state_scheme \<Rightarrow> u32" where
  "get_process_count s = pcount s"

partial_function (option) active_loop :: "memory \<Rightarrow> u64 \<Rightarrow> u64 \<Rightarrow> u32 \<Rightarrow> u32 option" where
  [code]: "active_loop m h t active =
     (let active' = (if runnable m t then active + 1 else active); t' = t_next m t in
      if t' \<noteq> h then active_loop m h t' active' else Some active')"

definition get_active_count :: "'a task_state_scheme \<Rightarrow> u32 option" where
  "get_active_count s = (if head s = 0 then Some 0 else active_loop (mem s) (head s) (head s) 0)"

text \<open>The lines \<open>list_processes\<close> logs; a task's line has its pid, name pointer, state string and priority.\<close>

definition state_str :: "u32 \<Rightarrow> string" where
  "state_str c =
     (if c = status_code ACTIVE then ''ACTIVE'' else if c = status_code READY then ''READY''
      else if c = status_code WAITING then ''WAITING'' else if c = status_code TERMINATED then ''TERMINATED''
      else ''UNKNOWN'')"

datatype log_line = No_processes | Process_list u32 | Process u32 u64 string u32

definition process_line :: "memory \<Rightarrow> u64 \<Rightarrow> log_line" where
  "process_line m t = Process (t_pid m t) (t_name m t) (state_str (t_state m t)) (t_priority m t)"

partial_function (option) list_loop ::
    "memory \<Rightarrow> u64 \<Rightarrow> u64 \<Rightarrow> log_line list \<Rightarrow> log_line list option" where
  [code]: "list_loop m h t out =
     (let out' = out @ [process_line m t]; t' = t_next m t in
      if t' \<noteq> h then list_loop m h t' out' else Some out')"

definition list_processes :: "'a task_state_scheme \<Rightarrow> log_line list option" where
  "list_processes s =
     (if head s = 0 then Some [No_processes] else list_loop (mem s) (head s) (head s) [Process_list (pcount s)])"

section \<open>Fields of tasks\<close>

named_theorems task_fields
lemmas [task_fields] = t_rip_def t_rsp_def t_stack_def t_pid_def t_state_def t_next_def t_prev_def t_name_def t_priority_def

definition tasks_apart :: "u64 \<Rightarrow> u64 \<Rightarrow> bool" where
  "tasks_apart t u \<longleftrightarrow> apart t 224 u 224"

lemma tasks_apart_sym: "tasks_apart t u \<longleftrightarrow> tasks_apart u t"
  by (simp add: tasks_apart_def apart_sym)

lemma task_fields_apart [addr_simps]:
  "tasks_apart t u \<Longrightarrow> x \<le> 224 \<Longrightarrow> y \<le> 224 \<Longrightarrow> c \<le> 224 - x \<Longrightarrow> d \<le> 224 - y \<Longrightarrow> 0 < c \<Longrightarrow> 0 < d \<Longrightarrow>
     apart (t + x) c (u + y) d"
  using apart_shift [of t 224 u 224 x y c d] by (simp add: tasks_apart_def)

definition task_sep :: "u64 \<Rightarrow> u64 \<Rightarrow> bool" where
  "task_sep u t \<longleftrightarrow> u = t \<or> tasks_apart u t"

lemma task_sep_refl [simp]: "task_sep t t"
  by (simp add: task_sep_def)

lemma task_sep_sym: "task_sep u t \<Longrightarrow> task_sep t u"
  by (auto simp: task_sep_def tasks_apart_sym)

definition task_bytes :: "u64 \<Rightarrow> nat set" where
  "task_bytes t = {unat t..<unat t + 224}"

section \<open>The ring\<close>

text \<open>The \<open>next\<close> pointers of the tasks of a list, the last one pointing to \<open>e\<close>; the \<open>prev\<close> pointers alike.\<close>

fun nexts :: "memory \<Rightarrow> u64 list \<Rightarrow> u64 \<Rightarrow> bool" where
  "nexts m [] e \<longleftrightarrow> True"
| "nexts m (t # ts) e \<longleftrightarrow> t_next m t = hd (ts @ [e]) \<and> nexts m ts e"

fun prevs :: "memory \<Rightarrow> u64 \<Rightarrow> u64 list \<Rightarrow> bool" where
  "prevs m e [] \<longleftrightarrow> True"
| "prevs m e (t # ts) \<longleftrightarrow> t_prev m t = e \<and> prevs m t ts"

lemma nexts_append: "nexts m (xs @ ys) e \<longleftrightarrow> nexts m xs (hd (ys @ [e])) \<and> nexts m ys e"
  by (induction xs) (auto simp: hd_append)

lemma prevs_append: "prevs m e (xs @ ys) \<longleftrightarrow> prevs m e xs \<and> prevs m (last (e # xs)) ys"
  by (induction xs arbitrary: e) auto

lemma nexts_cong: "(\<And>t. t \<in> set ts \<Longrightarrow> t_next m' t = t_next m t) \<Longrightarrow> nexts m' ts e = nexts m ts e"
  by (induction ts) auto

lemma prevs_cong: "(\<And>t. t \<in> set ts \<Longrightarrow> t_prev m' t = t_prev m t) \<Longrightarrow> prevs m' e ts = prevs m e ts"
  by (induction ts arbitrary: e) auto

definition ring :: "memory \<Rightarrow> u64 list \<Rightarrow> bool" where
  "ring m ts \<longleftrightarrow> nexts m ts (hd ts) \<and> prevs m (last ts) ts"

lemma ring_rotate: "ring m (xs @ ys) = ring m (ys @ xs)"
  by (cases "xs = [] \<or> ys = []") (auto simp: ring_def nexts_append prevs_append)

lemma ring_front: "ring m (t # zs) \<longleftrightarrow>
    t_next m t = hd (zs @ [t]) \<and> nexts m zs t \<and> t_prev m t = last (t # zs) \<and> prevs m t zs"
  by (auto simp: ring_def)

lemma ring_at: "ring m (xs @ t # ys) = ring m (t # ys @ xs)"
  using ring_rotate [of m xs "t # ys"] by simp

lemma ring_cong:
  "(\<And>t. t \<in> set ts \<Longrightarrow> t_next m' t = t_next m t \<and> t_prev m' t = t_prev m t) \<Longrightarrow> ring m' ts = ring m ts"
  unfolding ring_def using nexts_cong [of ts m' m] prevs_cong [of ts m' m] by simp

text \<open>Appending and removing a task, as changes of the four pointers involved.\<close>

lemma ring_insert:
  assumes r: "ring m ts" and ne: "ts \<noteq> []" and d: "distinct ts"
    and t: "t_next m' t = hd ts" "t_prev m' t = last ts"
    and nx: "\<And>u. u \<in> set ts \<Longrightarrow> t_next m' u = (if u = last ts then t else t_next m u)"
    and pv: "\<And>u. u \<in> set ts \<Longrightarrow> t_prev m' u = (if u = hd ts then t else t_prev m u)"
  shows "ring m' (ts @ [t])"
proof -
  obtain u vs where ts: "ts = u # vs" using ne by (cases ts) auto
  obtain ws v where ts': "ts = ws @ [v]" using ne by (cases ts rule: rev_cases) auto
  have "nexts m ws v" using r ts' by (auto simp: ring_def nexts_append)
  moreover have "t_next m' x = t_next m x" if "x \<in> set ws" for x
    using nx [of x] d that ts' by auto
  ultimately have "nexts m' ws v" using nexts_cong [of ws m' m v] by simp
  then have n: "nexts m' (ts @ [t]) (hd ts)" using t nx [of v] ts' by (auto simp: nexts_append)
  have "prevs m u vs" using r ts by (auto simp: ring_def)
  moreover have "t_prev m' x = t_prev m x" if "x \<in> set vs" for x
    using pv [of x] d that ts by auto
  ultimately have "prevs m' u vs" using prevs_cong [of vs m' m u] by simp
  then have "prevs m' t (ts @ [t])" using t pv [of u] ts by (auto simp: prevs_append)
  with n show ?thesis using ne by (simp add: ring_def)
qed

lemma ring_remove_front:
  assumes r: "ring m (t # zs)" and ne: "zs \<noteq> []" and d: "distinct zs"
    and nx: "\<And>u. u \<in> set zs \<Longrightarrow> t_next m' u = (if u = last zs then hd zs else t_next m u)"
    and pv: "\<And>u. u \<in> set zs \<Longrightarrow> t_prev m' u = (if u = hd zs then last zs else t_prev m u)"
  shows "ring m' zs"
proof -
  have r': "nexts m zs t" "prevs m t zs" using r by (simp_all add: ring_front)
  obtain u vs where zs: "zs = u # vs" using ne by (cases zs) auto
  obtain ws v where zs': "zs = ws @ [v]" using ne by (cases zs rule: rev_cases) auto
  have "nexts m ws v" using r'(1) zs' by (auto simp: nexts_append)
  moreover have "t_next m' x = t_next m x" if "x \<in> set ws" for x
    using nx [of x] d that zs' by auto
  ultimately have "nexts m' ws v" using nexts_cong [of ws m' m v] by simp
  then have n: "nexts m' zs (hd zs)" using nx [of v] zs' by (auto simp: nexts_append)
  have "prevs m u vs" using r'(2) zs by simp
  moreover have "t_prev m' x = t_prev m x" if "x \<in> set vs" for x
    using pv [of x] d that zs by auto
  ultimately have "prevs m' u vs" using prevs_cong [of vs m' m u] by simp
  then have "prevs m' (last zs) zs" using pv [of u] zs by auto
  with n show ?thesis by (simp add: ring_def)
qed

lemmas ring_remove = ring_remove_front [of _ _ "ys @ xs" for xs ys, folded ring_at, unfolded ring_rotate [of _ ys xs for xs ys]]

section \<open>The process list as a list\<close>

text \<open>
  The state holds exactly the tasks \<open>ts\<close>, in the order of the ring from \<open>head\<close>: no two of them share
  a byte, the ring pointers, \<open>head\<close>, \<open>tail\<close> and the count describe the list, \<open>current\<close> is one of them
  or null.
\<close>

definition task_ring :: "'a task_state_scheme \<Rightarrow> u64 list \<Rightarrow> bool" where
  "task_ring s ts \<longleftrightarrow>
     distinct ts \<and> 0 \<notin> set ts \<and> (\<forall>t \<in> set ts. \<forall>u \<in> set ts. task_sep t u) \<and>
     (if ts = [] then head s = 0 \<and> tail s = 0 else head s = hd ts \<and> tail s = last ts \<and> ring (mem s) ts) \<and>
     current s \<in> insert 0 (set ts) \<and> unat (pcount s) = length ts"

text \<open>All that a task holds besides its place in the ring.\<close>

definition task_info :: "memory \<Rightarrow> u64 \<Rightarrow> u64 \<times> u64 \<times> u64 \<times> u32 \<times> u32 \<times> u64 \<times> u32" where
  "task_info m t = (t_rip m t, t_rsp m t, t_stack m t, t_pid m t, t_state m t, t_name m t, t_priority m t)"

lemma task_ring_ne:
  "ts \<noteq> [] \<Longrightarrow> task_ring s ts \<Longrightarrow> head s = hd ts \<and> tail s = last ts \<and> head s \<noteq> 0 \<and> tail s \<noteq> 0 \<and>
     ring (mem s) ts \<and> pcount s \<noteq> 0"
proof -
  assume ne: "ts \<noteq> []" and wf: "task_ring s ts"
  then have "hd ts \<noteq> 0 \<and> last ts \<noteq> 0" unfolding task_ring_def by (metis hd_in_set last_in_set)
  then show ?thesis using ne wf by (auto simp: task_ring_def)
qed

lemma store_link_info:
  "task_sep u t \<Longrightarrow> task_info (store64 m (u + 176) v) t = task_info m t"
  "task_sep u t \<Longrightarrow> task_info (store64 m (u + 184) v) t = task_info m t"
  by (auto simp: task_sep_def task_info_def task_fields mem_simps addr_simps)

lemma store_link:
  "task_sep u t \<Longrightarrow> t_next (store64 m (u + 176) v) t = (if t = u then v else t_next m t)"
  "task_sep u t \<Longrightarrow> t_prev (store64 m (u + 176) v) t = t_prev m t"
  "task_sep u t \<Longrightarrow> t_prev (store64 m (u + 184) v) t = (if t = u then v else t_prev m t)"
  "task_sep u t \<Longrightarrow> t_next (store64 m (u + 184) v) t = t_next m t"
  by (auto simp: task_sep_def task_fields mem_simps addr_simps)

text \<open>The state of a task is one of four bytes no other field shares.\<close>

lemma store_state:
  "task_sep u t \<Longrightarrow> t_next (store32 m (u + 172) v) t = t_next m t"
  "task_sep u t \<Longrightarrow> t_prev (store32 m (u + 172) v) t = t_prev m t"
  "task_sep u t \<Longrightarrow> t_rip (store32 m (u + 172) v) t = t_rip m t"
  "task_sep u t \<Longrightarrow> t_pid (store32 m (u + 172) v) t = t_pid m t"
  "task_sep u t \<Longrightarrow> t_stack (store32 m (u + 172) v) t = t_stack m t"
  "task_sep u t \<Longrightarrow> t_state (store32 m (u + 172) v) t = (if t = u then v else t_state m t)"
  by (auto simp: task_sep_def task_fields mem_simps addr_simps)

lemma task_ring_apart: "task_ring s ts \<Longrightarrow> t \<in> set ts \<Longrightarrow> u \<in> set ts \<Longrightarrow> task_sep u t"
  by (simp add: task_ring_def)

lemma set_state_ring:
  assumes "task_ring s ts" and "u \<in> set ts"
  shows "task_ring (set_state u st s) ts"
proof -
  have "ring (mem (set_state u st s)) ts = ring (mem s) ts"
    using assms by (intro ring_cong) (auto simp: set_state_def store_state task_ring_apart)
  then show ?thesis using assms by (auto simp: task_ring_def set_state_def)
qed

lemma link_process_ring:
  assumes wf: "task_ring s ts" and fresh: "t \<noteq> 0" "\<forall>u \<in> set ts. tasks_apart t u" and n: "length ts + 1 < 2 ^ 32"
  shows "task_ring (link_process t s) (ts @ [t])"
    and "u \<in> set (ts @ [t]) \<Longrightarrow> task_info (mem (link_process t s)) u = task_info (mem s) u"
proof -
  have new: "t \<notin> set ts" using fresh(2) by (auto simp: tasks_apart_def apart_def)
  have "pcount s + 1 \<noteq> 0"
    using n wf by (auto simp: task_ring_def word_unat_eq_iff unat_word_ariths)
  then have c: "unat (pcount s + 1) = Suc (length ts)"
    using wf n by (simp add: task_ring_def unat_word_ariths)
  have "task_sep t u \<and> task_sep u t" if "u \<in> set ts" for u
    using fresh(2) that by (auto simp: task_sep_def tasks_apart_sym)
  then have ap: "task_sep u v" if "u \<in> set (ts @ [t])" "v \<in> set (ts @ [t])" for u v
    using that task_ring_apart [OF wf] by auto
  have base: "distinct (ts @ [t])" "0 \<notin> set (ts @ [t])"
      "\<forall>v \<in> set (ts @ [t]). \<forall>u \<in> set (ts @ [t]). task_sep v u" "current s \<in> insert 0 (set (ts @ [t]))"
    using wf new fresh(1) ap by (auto simp: task_ring_def)
  have "task_ring (link_process t s) (ts @ [t]) \<and>
    (\<forall>u \<in> set (ts @ [t]). task_info (mem (link_process t s)) u = task_info (mem s) u)"
  proof (cases "ts = []")
    case True
    then have "head s = 0" using wf by (simp add: task_ring_def)
    then show ?thesis using True base c
      by (simp add: task_ring_def link_process_def ring_def store_link store_link_info)
  next
    case False
    then have hd: "head s = hd ts" "tail s = last ts" "head s \<noteq> 0" "ring (mem s) ts" using task_ring_ne [OF _ wf] by auto
    have in_ts: "hd ts \<in> set ts" "last ts \<in> set ts" using False by simp_all
    have ap': "task_sep t u" "task_sep (hd ts) u" "task_sep (last ts) u" if "u \<in> set ts" for u
      using ap that in_ts by simp_all
    have "ring (mem (link_process t s)) (ts @ [t])"
      by (rule ring_insert [OF hd(4) False])
        (use wf in_ts ap' ap [of _ t] new hd in \<open>auto simp: link_process_def Let_def store_link task_ring_def\<close>)
    moreover have "task_info (mem (link_process t s)) u = task_info (mem s) u" if "u \<in> set (ts @ [t])" for u
      using ap [OF _ that] in_ts hd by (simp add: link_process_def Let_def store_link_info)
    ultimately show ?thesis using base c False hd by (simp add: task_ring_def link_process_def Let_def)
  qed
  then show "task_ring (link_process t s) (ts @ [t])"
    and "u \<in> set (ts @ [t]) \<Longrightarrow> task_info (mem (link_process t s)) u = task_info (mem s) u" by blast+
qed

lemma unlink_process_ring:
  assumes wf: "task_ring s (xs @ t # ys)"
  shows "task_ring (unlink_process t s) (xs @ ys)"
    and "u \<in> set (xs @ t # ys) \<Longrightarrow> task_info (mem (unlink_process t s)) u = task_info (mem s) u"
    and "current (unlink_process t s) =
           (if current s = t then (if ys @ xs = [] then 0 else hd (ys @ xs)) else current s)"
proof -
  let ?zs = "ys @ xs"
  have c: "unat (pcount s) = Suc (length ?zs)" using wf by (simp add: task_ring_def)
  then have "pcount s \<noteq> 0" by auto
  then have c': "unat (pcount s - 1) = length (xs @ ys)" "pcount s = 1 \<longleftrightarrow> ?zs = []"
    using c by (simp_all add: unat_minus_one word_unat_eq_iff)
  have base: "distinct (xs @ ys)" "0 \<notin> set (xs @ ys)" "\<forall>v \<in> set (xs @ ys). \<forall>u \<in> set (xs @ ys). task_sep v u"
      "t \<notin> set (xs @ ys)" "0 \<noteq> t"
    using wf by (auto simp: task_ring_def)
  have cur: "current s \<in> insert 0 (set (xs @ t # ys))" using wf by (simp add: task_ring_def)
  have "task_ring (unlink_process t s) (xs @ ys) \<and>
     (\<forall>u \<in> set (xs @ t # ys). task_info (mem (unlink_process t s)) u = task_info (mem s) u) \<and>
     current (unlink_process t s) = (if current s = t then (if ?zs = [] then 0 else hd ?zs) else current s)"
  proof (cases "?zs = []")
    case True
    then show ?thesis using c' cur by (auto simp: task_ring_def unlink_process_def)
  next
    case False
    note r = task_ring_ne [OF _ wf, simplified]
    have p: "pcount s \<noteq> 1" using c'(2) False by blast
    have nx: "t_next (mem s) t = hd ?zs" and pv: "t_prev (mem s) t = last ?zs"
      using r False by (auto simp: ring_at ring_front hd_append)
    have in_zs: "hd ?zs \<in> set (xs @ ys)" "last ?zs \<in> set (xs @ ys)"
      using hd_in_set [OF False] last_in_set [OF False] by auto
    have ap: "task_sep (hd ?zs) u" "task_sep (last ?zs) u" if "u \<in> set (xs @ t # ys)" for u
      using task_ring_apart [OF wf that] in_zs by auto
    define m1 where "m1 = store64 (mem s) (last ?zs + 176) (hd ?zs)"
    define m2 where "m2 = store64 m1 (hd ?zs + 184) (last ?zs)"
    have n1: "t_next m2 u = (if u = last ?zs then hd ?zs else t_next (mem s) u)"
        "t_prev m2 u = (if u = hd ?zs then last ?zs else t_prev (mem s) u)"
        "t_next m1 u = (if u = last ?zs then hd ?zs else t_next (mem s) u)" "t_prev m1 u = t_prev (mem s) u"
        "task_info m2 u = task_info (mem s) u" if "u \<in> set (xs @ t # ys)" for u
      using ap [OF that] by (simp_all add: m1_def m2_def store_link store_link_info)
    have tz: "t \<noteq> hd ?zs" "t \<noteq> last ?zs" using base(4) in_zs by auto
    have un: "unlink_process t s = s\<lparr>mem := m2,
        head := if head s = t then hd ?zs else head s, tail := if tail s = t then last ?zs else tail s,
        current := if current s = t then hd ?zs else current s, pcount := pcount s - 1\<rparr>"
      using p n1 [of t] tz nx pv by (simp add: unlink_process_def Let_def m1_def [symmetric] m2_def [symmetric])
    have "ring m2 (xs @ ys)"
      by (rule ring_remove [of "mem s" xs t ys]) (use r False base(1) n1 in auto)
    moreover have "(if head s = t then hd ?zs else head s) = hd (xs @ ys)"
      using r base False by (cases xs) auto
    moreover have "(if tail s = t then last ?zs else tail s) = last (xs @ ys)"
      using r base False by (cases ys rule: rev_cases) auto
    ultimately show ?thesis using base c' cur False in_zs n1(5) un by (auto simp: task_ring_def)
  qed
  then show "task_ring (unlink_process t s) (xs @ ys)"
    and "u \<in> set (xs @ t # ys) \<Longrightarrow> task_info (mem (unlink_process t s)) u = task_info (mem s) u"
    and "current (unlink_process t s) =
           (if current s = t then (if ys @ xs = [] then 0 else hd (ys @ xs)) else current s)" by blast+
qed

section \<open>Walks around the ring\<close>

lemma pid_loop_ring:
  "nexts m (t # ys) h \<Longrightarrow> h \<notin> set ys \<Longrightarrow>
   pid_loop m h pid t = Some (case find (\<lambda>u. t_pid m u = pid) (t # ys) of None \<Rightarrow> 0 | Some u \<Rightarrow> u)"
proof (induction ys arbitrary: t)
  case Nil
  then show ?case by (subst pid_loop.simps) (simp add: Let_def)
next
  case (Cons u ys)
  then show ?case by (subst pid_loop.simps) (auto simp: Let_def)
qed

lemma get_by_pid_ring:
  assumes "task_ring s ts"
  shows "get_by_pid pid s = Some (case find (\<lambda>u. t_pid (mem s) u = pid) ts of None \<Rightarrow> 0 | Some u \<Rightarrow> u)"
proof (cases ts)
  case Nil
  then show ?thesis using assms by (simp add: get_by_pid_def task_ring_def)
next
  case (Cons t ys)
  then have "head s = t" "t \<noteq> 0" "nexts (mem s) (t # ys) t" "t \<notin> set ys"
    using assms task_ring_ne [OF _ assms] by (auto simp: task_ring_def ring_def)
  then show ?thesis using pid_loop_ring [of "mem s" t ys t pid] Cons by (simp add: get_by_pid_def)
qed

lemma active_loop_ring:
  "nexts m (t # ys) h \<Longrightarrow> h \<notin> set ys \<Longrightarrow>
   active_loop m h t c = Some (c + of_nat (length (filter (runnable m) (t # ys))))"
proof (induction ys arbitrary: t c)
  case Nil
  then show ?case by (subst active_loop.simps) (simp add: Let_def)
next
  case (Cons u ys)
  then show ?case by (subst active_loop.simps) (auto simp: Let_def)
qed

lemma list_loop_ring:
  "nexts m (t # ys) h \<Longrightarrow> h \<notin> set ys \<Longrightarrow> list_loop m h t out =
     Some (out @ map (process_line m) (t # ys))"
proof (induction ys arbitrary: t out)
  case Nil
  then show ?case by (subst list_loop.simps) (simp add: Let_def)
next
  case (Cons u ys)
  then show ?case by (subst list_loop.simps) (auto simp: Let_def)
qed

lemma start_loop_ring:
  "nexts m (t # ys) h \<Longrightarrow> h \<notin> set ys \<Longrightarrow> 0 \<notin> set (t # ys) \<Longrightarrow>
   start_loop m h t = Some (case find (runnable m) (t # ys) of None \<Rightarrow> h | Some u \<Rightarrow> u)"
proof (induction ys arbitrary: t)
  case Nil
  then show ?case by (subst start_loop.simps) (auto simp: Let_def)
next
  case (Cons u ys)
  then show ?case by (subst start_loop.simps) (auto simp: Let_def)
qed

lemma next_runnable_ring:
  "nexts m ts e \<Longrightarrow> unat c + length ts = unat n \<Longrightarrow>
   next_runnable m n (hd (ts @ [e])) c =
     (case find (runnable m) ts of
        None \<Rightarrow> (e, n)
      | Some u \<Rightarrow> (u, c + of_nat (length (takeWhile (\<lambda>u. \<not> runnable m u) ts))))"
proof (induction ts arbitrary: c)
  case Nil
  then have "c = n" by (simp add: word_unat_eq_iff)
  then show ?case by (subst next_runnable.simps) simp
next
  case (Cons t ts)
  then have "c < n" by (simp add: word_less_nat_alt)
  then have "unat (c + 1) = Suc (unat c)" by (rule unat_inc)
  then show ?case using Cons \<open>c < n\<close>
    by (subst next_runnable.simps) (cases "runnable m t", auto split: option.split simp: algebra_simps)
qed

text \<open>
  A task is looked up by its \<open>pid\<close> in the order of the ring, whatever the states of the tasks: the
  search ends, and \<open>kill_process\<close> marks exactly the first task with that \<open>pid\<close> as terminated, leaves
  every other task and the ring, and does nothing when there is none.
\<close>

theorem kill_process_correct:
  assumes "task_ring s ts"
  shows "\<exists>s'. kill_process pid s = Some s' \<and> task_ring s' ts \<and> current s' = current s \<and>
    (\<forall>t \<in> set ts. t_state (mem s') t =
       (if find (\<lambda>u. t_pid (mem s) u = pid) ts = Some t then status_code TERMINATED else t_state (mem s) t))"
proof (cases "find (\<lambda>u. t_pid (mem s) u = pid) ts")
  case None
  then show ?thesis using assms by (simp add: kill_process_def get_by_pid_ring [OF assms])
next
  case (Some u)
  then have u: "u \<in> set ts" by (auto simp: find_Some_iff)
  then have "u \<noteq> 0" using assms by (auto simp: task_ring_def)
  moreover have "task_sep u t" if "t \<in> set ts" for t using task_ring_apart [OF assms that u] .
  ultimately show ?thesis
    using Some u set_state_ring [OF assms u, of TERMINATED] unfolding kill_process_def get_by_pid_ring [OF assms]
    by (auto simp: set_state_def store_state)
qed

text \<open>
  The reports on the process list: \<open>get_active_count\<close> counts the tasks that are active or ready,
  \<open>list_processes\<close> logs the count and one line for each task, in the order of the ring.
\<close>

theorem process_reports:
  assumes "task_ring s ts"
  shows "get_active_count s = Some (of_nat (length (filter (runnable (mem s)) ts))) \<and>
    list_processes s = Some (if ts = [] then [No_processes]
      else Process_list (of_nat (length ts)) # map (process_line (mem s)) ts) \<and> get_process_count s = of_nat (length ts)"
proof -
  have "unat (pcount s) = length ts" using assms by (simp add: task_ring_def)
  moreover have "of_nat (unat (pcount s)) = pcount s" by simp
  ultimately have n: "pcount s = of_nat (length ts)" by (simp only:)
  show ?thesis
  proof (cases ts)
    case Nil
    then show ?thesis using assms n by (simp add: get_active_count_def list_processes_def get_process_count_def task_ring_def)
  next
    case (Cons t ys)
    then have "head s = t" "t \<noteq> 0" "nexts (mem s) (t # ys) t" "t \<notin> set ys"
      using assms task_ring_ne [OF _ assms] by (auto simp: task_ring_def ring_def)
    then show ?thesis using active_loop_ring [of "mem s" t ys t 0] list_loop_ring [of "mem s" t ys t] Cons n
      by (simp add: get_active_count_def list_processes_def get_process_count_def)
  qed
qed

text \<open>
  \<open>start_scheduler\<close> on a non-empty list: it calls the first active or ready task of the ring. When
  there is none it does not return, as its null check suggests, but calls the head of the list, whose
  state (waiting or terminated) it overwrites with active.
\<close>

theorem start_scheduler_correct:
  assumes wf: "task_ring s ts" and ne: "ts \<noteq> []"
    and t: "t = (case find (runnable (mem s)) ts of None \<Rightarrow> hd ts | Some u \<Rightarrow> u)"
  shows "\<exists>s'. start_scheduler s = Some (Some (t_rip (mem s) t), s') \<and> current s' = t \<and>
    t_state (mem s') t = status_code ACTIVE \<and> task_ring s' ts \<and> scheduler_running s'"
proof -
  obtain h ys where ts: "ts = h # ys" using ne by (cases ts) auto
  then have h: "head s = h" "nexts (mem s) (h # ys) h" "h \<notin> set ys" "0 \<notin> set (h # ys)" "pcount s \<noteq> 0"
    using wf task_ring_ne [OF _ wf] by (auto simp: task_ring_def ring_def)
  have lp: "start_loop (mem s) h h = Some t" unfolding t ts list.sel by (rule start_loop_ring [OF h(2-4)])
  have tin: "t \<in> set ts" unfolding t by (auto simp: ts find_Some_iff split: option.split)
  then have t0: "t \<noteq> 0" using h(4) ts by auto
  have "task_ring (s\<lparr>scheduler_running := True, current := t\<rparr>) ts" using wf tin by (simp add: task_ring_def)
  note wf' = set_state_ring [OF this tin, of ACTIVE]
  show ?thesis using lp h(1,5) t0 wf' by (simp add: start_scheduler_def set_state_def store_state)
qed

section \<open>Yielding\<close>

definition alive :: "memory \<Rightarrow> u64 \<Rightarrow> bool" where
  "alive m t \<longleftrightarrow> t_state m t \<noteq> status_code TERMINATED"

lemma cleanup_loop_none:
  "nexts (mem s) (t # ys) (head s) \<Longrightarrow> head s \<notin> set ys \<Longrightarrow> \<forall>u \<in> set (t # ys). alive (mem s) u \<Longrightarrow>
   cleanup_loop t s = Some (Inr s)"
proof (induction ys arbitrary: t)
  case Nil
  then show ?case by (subst cleanup_loop.simps) (simp add: Let_def alive_def)
next
  case (Cons u ys)
  then show ?case by (subst cleanup_loop.simps) (auto simp: Let_def alive_def)
qed

lemma cleanup_none:
  assumes "task_ring s ts" and "\<forall>t \<in> set ts. alive (mem s) t"
  shows "cleanup_terminated s = Some (Inr s)"
proof (cases ts)
  case (Cons t ys)
  then show ?thesis
    using assms task_ring_ne [OF _ assms(1)] cleanup_loop_none [of s t ys]
    by (auto simp: cleanup_terminated_def task_ring_def ring_def)
qed (use assms in \<open>simp add: cleanup_terminated_def task_ring_def\<close>)

lemma find_filter: "find P xs = (case filter P xs of [] \<Rightarrow> None | x # _ \<Rightarrow> Some x)"
  by (induction xs) auto

lemma find_append: "find P (xs @ ys) = (case find P xs of None \<Rightarrow> find P ys | Some x \<Rightarrow> Some x)"
  by (induction xs) auto

lemma find_in_set: "find P xs = Some x \<Longrightarrow> x \<in> set xs"
  by (induction xs) (auto split: if_splits)

lemma takeWhile_find: "find P xs = Some u \<Longrightarrow> length (takeWhile (\<lambda>x. \<not> P x) xs) < length xs"
  by (induction xs) (auto split: if_splits)

text \<open>The choice of \<open>yield\<close> once the terminated tasks are gone.\<close>

definition yield_to :: "u64 option \<Rightarrow> 'a task_state_scheme \<Rightarrow> u64 option \<times> 'a task_state_scheme" where
  "yield_to r s = (case r of None \<Rightarrow> (None, s) | Some u \<Rightarrow> (Some (t_rip (mem s) u), set_state u ACTIVE (s\<lparr>current := u\<rparr>)))"

lemma yield_search:
  assumes wf: "task_ring s (xs @ t # ys)" and cur: "current s = t"
  shows "(let (nx, checked) = next_runnable (mem s) (pcount s) (t_next (mem s) (current s)) 0 in
         if checked \<ge> pcount s then Some (Inr (None, s))
         else if nx = current s then Some (Inr (None, s))
         else (let s1 = set_state nx ACTIVE (s\<lparr>current := nx\<rparr>) in Some (Inr (Some (t_rip (mem s1) nx), s1)))) =
       Some (Inr (yield_to (find (runnable (mem s)) (ys @ xs)) s))"
    (is "?l = _")
proof -
  let ?zs = "ys @ xs @ [t]" and ?P = "\<lambda>u. \<not> runnable (mem s) u"
  have r: "ring (mem s) (xs @ t # ys)" using task_ring_ne [OF _ wf] by simp
  then have "nexts (mem s) ((ys @ xs) @ [t]) (hd ?zs)" and nx: "t_next (mem s) t = hd ?zs"
    using ring_at [of "mem s" xs t ys] by (auto simp: ring_front nexts_append hd_append)
  then have ns: "nexts (mem s) ?zs (hd ?zs)" by simp
  have n: "unat (pcount s) = length ?zs" using wf by (simp add: task_ring_def)
  have "hd (?zs @ [hd ?zs]) = hd ?zs" by (cases ys) (simp_all add: hd_append)
  note nr = next_runnable_ring [OF ns, of 0 "pcount s", unfolded this]
  show ?thesis
  proof (cases "find (runnable (mem s)) ?zs")
    case None
    then have "find (runnable (mem s)) (ys @ xs) = None" by (auto simp: find_None_iff)
    moreover have "next_runnable (mem s) (pcount s) (hd ?zs) 0 = (hd ?zs, pcount s)" using nr n None by simp
    ultimately show ?thesis using nx cur by (simp add: yield_to_def)
  next
    case (Some u)
    define k where "k = length (takeWhile (\<lambda>u. \<not> runnable (mem s) u) ?zs)"
    have less: "k < length ?zs" unfolding k_def using takeWhile_find [OF Some] .
    then have k: "unat (of_nat k :: u32) = k" using n unsigned_less [of "pcount s", where 'a = nat]
      by (simp add: unsigned_of_nat take_bit_nat_eq_self)
    have nr': "next_runnable (mem s) (pcount s) (hd ?zs) 0 = (u, of_nat k)" using nr n Some by (simp add: k_def)
    have cnt: "\<not> of_nat k \<ge> pcount s" using less n k by (simp add: word_le_nat_alt)
    have "t \<notin> set (ys @ xs)" using wf by (auto simp: task_ring_def)
    then have "find (runnable (mem s)) (ys @ xs) = (if u = t then None else Some u)"
      using Some find_append [of _ "ys @ xs" "[t]"] find_in_set [of "runnable (mem s)" "ys @ xs"]
      by (cases "find (runnable (mem s)) (ys @ xs)") (auto split: if_splits)
    then show ?thesis using nx cur nr' cnt by (simp add: yield_to_def set_state_def store_state)
  qed
qed

lemma yield_alive:
  assumes wf: "task_ring s (xs @ t # ys)" and cur: "current s = t" and al: "\<forall>u \<in> set (xs @ t # ys). alive (mem s) u"
  shows "yield_task s = Some (Inr (yield_to (find (runnable (mem s)) (ys @ xs)) s))"
proof -
  have "t \<noteq> 0" "pcount s \<noteq> 0" using wf task_ring_ne [OF _ wf] by (auto simp: task_ring_def)
  then show ?thesis
    using yield_search [OF wf cur] cur by (simp add: yield_task_def cleanup_none [OF wf al])
qed

primrec yields :: "nat \<Rightarrow> 'a task_state_scheme \<Rightarrow> (fault + 'a task_state_scheme) option" where
  "yields 0 s = Some (Inr s)"
| "yields (Suc k) s = then_do (yield_task s) (\<lambda>(_, s'). yields k s')"

lemma next_in_cycle:
  assumes "rs = as @ t # bs" and "length as = i"
  shows "(case bs @ as of [] \<Rightarrow> t | u # _ \<Rightarrow> u) = rs ! (Suc i mod length rs)"
  using assms by (cases bs) (auto simp: nth_append split: list.split)

lemma yield_cycle:
  assumes wf: "task_ring s ts" and al: "\<forall>u \<in> set ts. alive (mem s) u" and i: "i < length (filter (runnable (mem s)) ts)"
    and cur: "current s = filter (runnable (mem s)) ts ! i"
  obtains e s' where "yield_task s = Some (Inr (e, s'))" and "task_ring s' ts" and "\<forall>u \<in> set ts. alive (mem s') u"
    and "filter (runnable (mem s')) ts = filter (runnable (mem s)) ts"
    and "current s' = filter (runnable (mem s)) ts ! (Suc i mod length (filter (runnable (mem s)) ts))"
proof -
  let ?rs = "filter (runnable (mem s)) ts" and ?t = "current s"
  have tin: "?t \<in> set ?rs" using nth_mem [OF i] by (simp add: cur)
  then obtain xs ys where ts: "ts = xs @ ?t # ys" using split_list by (metis filter_is_subset subsetD)
  let ?as = "filter (runnable (mem s)) xs" and ?bs = "filter (runnable (mem s)) ys"
  have rs: "?rs = ?as @ ?t # ?bs" using ts tin by (metis filter.simps(2) filter_append mem_Collect_eq set_filter)
  have "distinct ?rs" using wf by (simp add: task_ring_def)
  moreover have "?rs ! length ?as = ?rs ! i" "length ?as < length ?rs" by (subst rs, simp add: cur)+
  ultimately have "length ?as = i" using i nth_eq_iff_index_eq by blast
  note nxt = next_in_cycle [OF rs this]
  have f: "find (runnable (mem s)) (ys @ xs) = (case ?bs @ ?as of [] \<Rightarrow> None | u # _ \<Rightarrow> Some u)"
    by (simp add: find_filter)
  have y: "yield_task s = Some (Inr (yield_to (find (runnable (mem s)) (ys @ xs)) s))"
    by (rule yield_alive) (use wf al ts in auto)
  show thesis
  proof (cases "?bs @ ?as")
    case Nil
    then show thesis using that [of None s] y wf al f nxt by (simp add: yield_to_def)
  next
    case (Cons u us)
    then have "u \<in> set (?bs @ ?as)" by simp
    then have u: "u \<in> set ts" "runnable (mem s) u" using ts by auto
    let ?s = "set_state u ACTIVE (s\<lparr>current := u\<rparr>)"
    have "task_ring (s\<lparr>current := u\<rparr>) ts" using wf u by (simp add: task_ring_def)
    note wf' = set_state_ring [OF this u(1), of ACTIVE]
    have same: "alive (mem ?s) v" "runnable (mem ?s) v = runnable (mem s) v" if "v \<in> set ts" for v
      using task_ring_apart [OF wf that u(1)] al that u(2)
      by (auto simp: set_state_def alive_def runnable_def store_state)
    then have "filter (runnable (mem ?s)) ts = ?rs" by (intro filter_cong) auto
    then show thesis using that [of "Some (t_rip (mem s) u)" ?s] y f Cons nxt wf' same(1)
      by (simp add: yield_to_def) (simp add: set_state_def)
  qed
qed

text \<open>
  (C8) Round robin, on a process list with no terminated task: \<open>yield\<close> keeps the list, and the tasks
  that are active or ready run in the order of the ring, one per call, the waiting ones being passed
  over. So each of them runs again after as many calls as there are tasks able to run.
\<close>

theorem yield_round_robin:
  assumes "task_ring s ts" and "\<forall>u \<in> set ts. alive (mem s) u" and "i < length (filter (runnable (mem s)) ts)"
    and "current s = filter (runnable (mem s)) ts ! i"
  shows "\<exists>s'. yields k s = Some (Inr s') \<and> task_ring s' ts \<and>
    current s' = filter (runnable (mem s)) ts ! ((i + k) mod length (filter (runnable (mem s)) ts))"
  using assms
proof (induction k arbitrary: s i)
  case (Suc k)
  let ?n = "length (filter (runnable (mem s)) ts)"
  obtain e s1 where s1: "yield_task s = Some (Inr (e, s1))" "task_ring s1 ts" "\<forall>u \<in> set ts. alive (mem s1) u"
      "filter (runnable (mem s1)) ts = filter (runnable (mem s)) ts"
      "current s1 = filter (runnable (mem s)) ts ! (Suc i mod ?n)"
    by (rule yield_cycle [OF Suc.prems])
  have "0 < ?n" using Suc.prems(3) by linarith
  then have "Suc i mod ?n < ?n" by (rule mod_less_divisor)
  then show ?case using Suc.IH [of s1 "Suc i mod ?n"] s1 by (simp add: mod_add_left_eq)
qed simp

end
