(* ===== verification/Processes.thy ===== *)
theory Processes
  imports Tasks
begin

unbundle bit_operations_syntax

text \<open>
  The scheduler on the kernel heap: every task of the ring and its stack are blocks in use of the
  heap, \<open>spawn_process\<close> takes two blocks and links one of them, \<open>cleanup_terminated\<close> unlinks tasks and
  gives their blocks back.
\<close>

section \<open>Freeing blocks\<close>

text \<open>
  The blocks in use, those of the first heap page apart from the others: \<open>kfree\<close> finds only the former.
\<close>

definition heap_split :: "'a heap_state_scheme \<Rightarrow> (u64 \<times> u64) set \<Rightarrow> (u64 \<times> u64) set \<Rightarrow> bool" where
  "heap_split s F G \<longleftrightarrow> (\<exists>H. heap_wf s H \<and> live (take 1 H) = F \<and> live (drop 1 H) = G)"

locale block_heap_free = block_heap malloc rep room mm set_mm
  for malloc :: "u64 \<Rightarrow> 's \<Rightarrow> (fault + (u64 \<times> 's)) option" and rep :: "'s \<Rightarrow> (u64 \<times> u64) set \<Rightarrow> bool"
    and room mm set_mm +
  fixes free :: "u64 \<Rightarrow> 's \<Rightarrow> (fault + (bool \<times> 's)) option"
    and split :: "'s \<Rightarrow> (u64 \<times> u64) set \<Rightarrow> (u64 \<times> u64) set \<Rightarrow> bool"
  assumes split_rep: "split s F G \<Longrightarrow> rep s (F \<union> G)"
    and split_inj: "split s F G \<Longrightarrow> (p, n) \<in> F \<union> G \<Longrightarrow> (p, k) \<in> F \<union> G \<Longrightarrow> n = k"
    and split_write: "split s F G \<Longrightarrow> b \<in> F \<union> G \<Longrightarrow> agree_on (mm s) m (- block_bytes b) \<Longrightarrow> split (set_mm m s) F G"
    and free_first: "split s F G \<Longrightarrow> b \<in> F \<Longrightarrow> \<exists>m. free (fst b) s = Some (Inr (True, set_mm m s)) \<and>
      split (set_mm m s) (F - {b}) G \<and> (\<forall>c \<in> F \<union> G - {b}. agree_on (mm s) m (block_bytes c))"
    and free_later: "split s F G \<Longrightarrow> b \<in> G \<Longrightarrow> b \<notin> F \<and> free (fst b) s = Some (Inr (False, s))"
    and set_mm_mm: "set_mm (mm s) s = s"
    and mm_set: "mm (set_mm m s) = m" and set_set: "set_mm m' (set_mm m s) = set_mm m' s"
begin

lemma free_ok:
  assumes "split s F G" and "b \<in> F \<union> G"
  shows "\<exists>r m. free (fst b) s = Some (Inr (r, set_mm m s)) \<and> split (set_mm m s) (F - {b}) G \<and>
      (\<forall>c \<in> F \<union> G - {b}. agree_on (mm s) m (block_bytes c))"
proof (cases "b \<in> F")
  case True
  then show ?thesis using free_first [OF assms(1)] by blast
next
  case False
  then have "free (fst b) s = Some (Inr (False, s))" using free_later [OF assms(1)] assms(2) by blast
  then show ?thesis using assms(1) False
    by (intro exI [of _ False] exI [of _ "mm s"]) (simp add: set_mm_mm)
qed

lemma free_two:
  assumes sp: "split s F G" and b: "b \<in> F \<union> G" and c: "c \<in> F \<union> G" and "b \<noteq> c"
  shows "\<exists>m. then_do (free (fst b) s) (\<lambda>(_, s2). then_do (free (fst c) s2) (\<lambda>(_, s3). Some (Inr s3))) =
      Some (Inr (set_mm m s)) \<and> split (set_mm m s) (F - {b, c}) G \<and>
      (\<forall>d \<in> F \<union> G - {b, c}. agree_on (mm s) m (block_bytes d))"
proof -
  obtain r m where 1: "free (fst b) s = Some (Inr (r, set_mm m s))" "split (set_mm m s) (F - {b}) G"
      "\<forall>d \<in> F \<union> G - {b}. agree_on (mm s) m (block_bytes d)"
    using free_ok [OF sp b] by blast
  have cin: "c \<in> (F - {b}) \<union> G" using assms(3,4) by blast
  obtain r' m' where 2: "free (fst c) (set_mm m s) = Some (Inr (r', set_mm m' s))"
      "split (set_mm m' s) (F - {b} - {c}) G" "\<forall>d \<in> (F - {b}) \<union> G - {c}. agree_on m m' (block_bytes d)"
    using free_ok [OF 1(2) cin, unfolded mm_set set_set] by (elim exE conjE)
  have "agree_on (mm s) m' (block_bytes d)" if "d \<in> F \<union> G - {b, c}" for d
  proof (rule agree_on_trans)
    show "agree_on (mm s) m (block_bytes d)" using 1(3) that by blast
    show "agree_on m m' (block_bytes d)" using 2(3) that by blast
  qed
  moreover have "F - {b} - {c} = F - {b, c}" by blast
  ultimately show ?thesis using 1(1) 2(1,2) by (intro exI [of _ m']) simp
qed

end

lemma live_split: "live H = live (take 1 H) \<union> live (drop 1 H)"
  by (cases H) (auto simp: live_def)

lemma heap_split_rep: "heap_rep s L \<longleftrightarrow> (\<exists>F G. heap_split s F G \<and> L = F \<union> G)"
  unfolding heap_rep_def heap_split_def using live_split by blast

lemma heap_split_kfree:
  assumes "heap_split s F G"
  shows "b \<in> F \<Longrightarrow> \<exists>m. kfree (fst b) s = Some (Inr (True, s\<lparr>mem := m\<rparr>)) \<and> heap_split (s\<lparr>mem := m\<rparr>) (F - {b}) G \<and>
      (\<forall>c \<in> F \<union> G - {b}. agree_on (mem s) m (block_bytes c))"
    and "b \<in> G \<Longrightarrow> b \<notin> F \<and> kfree (fst b) s = Some (Inr (False, s))"
proof -
  obtain H where H: "heap_wf s H" "live (take 1 H) = F" "live (drop 1 H) = G" using assms by (auto simp: heap_split_def)
  have wf: "heap_wf s ((q, len, xs) # H2)" and FG: "F = live_segments xs" "G = live H2" if "H = (q, len, xs) # H2" for q len xs H2
    using H that by simp_all
  have apart: "c \<noteq> (a + 32, k)"
    if "H = (q, len, ys @ (a, n, f) # zs) # H2" "c \<in> live_segments ys \<union> live_segments zs \<union> live H2" for q len ys a n f zs H2 c k
    using segment_not_live [of s "[]" q len ys a n f zs H2 c k] H(1) that by auto
  {
    assume "b \<in> F"
    obtain q len xs H2 where Hc: "H = (q, len, xs) # H2" using \<open>b \<in> F\<close> H(2) by (cases H) auto
    obtain a n where a: "b = (a + 32, n)" "(a, n, False) \<in> set xs"
      using \<open>b \<in> F\<close> FG(1) [OF Hc] by (auto simp: live_segments_def)
    obtain ys zs where xs: "xs = ys @ (a, n, False) # zs" using a(2) by (meson split_list)
    note kf = kfree_first [OF H(1) [unfolded Hc xs]]
    let ?m = "release_segment q a (mem s)"
    have diff: "F - {b} = live_segments ys \<union> live_segments zs" and G: "G = live H2"
      using apart [OF Hc [unfolded xs]] FG [OF Hc] xs a(1) by auto
    have "heap_split (s\<lparr>mem := ?m\<rparr>) (F - {b}) G"
      unfolding heap_split_def by (rule exI, rule conjI [OF kf(2)]) (simp add: diff G live_coalesce)
    moreover have "agree_on (mem s) ?m (block_bytes c)" if "c \<in> F \<union> G - {b}" for c
      by (rule kf(3)) (use that diff G in blast)
    ultimately show "\<exists>m. kfree (fst b) s = Some (Inr (True, s\<lparr>mem := m\<rparr>)) \<and> heap_split (s\<lparr>mem := m\<rparr>) (F - {b}) G \<and>
      (\<forall>c \<in> F \<union> G - {b}. agree_on (mem s) m (block_bytes c))"
      using kf(1) a(1) by (intro exI [of _ ?m]) simp
  next
    assume "b \<in> G"
    obtain q len xs H2 where Hc: "H = (q, len, xs) # H2" using \<open>b \<in> G\<close> H(3) by (cases H) auto
    obtain p n where b: "b = (p, n)" by (cases b)
    have "b \<notin> F"
    proof
      assume "b \<in> F"
      then obtain a where a: "b = (a + 32, n)" "(a, n, False) \<in> set xs" using FG(1) [OF Hc] b by (auto simp: live_segments_def)
      then obtain ys zs where "xs = ys @ (a, n, False) # zs" by (meson split_list)
      from apart [OF Hc [unfolded this]] a(1) \<open>b \<in> G\<close> FG(2) [OF Hc] show False by blast
    qed
    moreover have "kfree p s = Some (Inr (False, s))"
      using kfree_missed [of s "(q, len, xs)" H2 p n] wf [OF Hc] FG(2) [OF Hc] \<open>b \<in> G\<close> b by simp
    ultimately show "b \<notin> F \<and> kfree (fst b) s = Some (Inr (False, s))" using b by simp
  }
qed

interpretation hpf: block_heap_free kmalloc heap_rep heap_room mem "\<lambda>m s. s\<lparr>mem := m\<rparr>" kfree heap_split
proof
  fix s :: "'a heap_state_scheme" and F G p n k
  assume "heap_split s F G" "(p, n) \<in> F \<union> G" "(p, k) \<in> F \<union> G"
  then show "n = k" using live_inj [of s _ p n k] live_split unfolding heap_split_def by blast
next
  fix s :: "'a heap_state_scheme" and F G b m
  assume "heap_split s F G" "b \<in> F \<union> G" "agree_on (mem s) m (- block_bytes b)"
  then show "heap_split (s\<lparr>mem := m\<rparr>) F G" using heap_write live_split unfolding heap_split_def by blast
next
  fix s :: "'a heap_state_scheme" and F G
  assume "heap_split s F G"
  then show "heap_rep s (F \<union> G)" using heap_split_rep by blast
qed (rule heap_split_kfree, assumption+, simp_all add: heap_split_kfree(2))

section \<open>Tasks as blocks\<close>

definition task_block :: "(u64 \<times> u64) set \<Rightarrow> u64 \<Rightarrow> bool" where
  "task_block L t \<longleftrightarrow> (\<exists>n. (t, n) \<in> L \<and> TASK_SIZE \<le> n)"

definition stack_block :: "(u64 \<times> u64) set \<Rightarrow> u64 \<Rightarrow> bool" where
  "stack_block L p \<longleftrightarrow> (\<exists>n. (p, n) \<in> L \<and> STACK_SIZE \<le> n)"

definition tasks_wf :: "'a task_state_scheme \<Rightarrow> u64 list \<Rightarrow> (u64 \<times> u64) set \<Rightarrow> bool" where
  "tasks_wf s ts L \<longleftrightarrow> task_ring s ts \<and> heap_rep s L \<and>
     (\<forall>t \<in> set ts. task_block L t \<and> stack_block L (t_stack (mem s) t)) \<and>
     distinct (ts @ map (t_stack (mem s)) ts)"

lemma heap_rep_task_fields [simp]:
  "heap_rep (s\<lparr>head := x\<rparr>) L = heap_rep s L" "heap_rep (s\<lparr>tail := x\<rparr>) L = heap_rep s L"
  "heap_rep (s\<lparr>current := x\<rparr>) L = heap_rep s L" "heap_rep (s\<lparr>pcount := c\<rparr>) L = heap_rep s L"
  "heap_rep (s\<lparr>next_pid := c\<rparr>) L = heap_rep s L"
  by (simp_all add: heap_rep_def heap_wf_def frame_wf_def taken_def frame_addr_def)

lemma heap_split_task_fields [simp]:
  "heap_split (s\<lparr>head := x\<rparr>) F G = heap_split s F G" "heap_split (s\<lparr>tail := x\<rparr>) F G = heap_split s F G"
  "heap_split (s\<lparr>current := x\<rparr>) F G = heap_split s F G" "heap_split (s\<lparr>pcount := c\<rparr>) F G = heap_split s F G"
  by (simp_all add: heap_split_def heap_wf_def frame_wf_def taken_def frame_addr_def)

lemma rep_inj:
  assumes "heap_rep s L" and "(p, n) \<in> L" and "(p, k) \<in> L" and "0 < n" and "0 < k"
  shows "n = k"
proof (rule ccontr)
  assume "n \<noteq> k"
  then have "block_bytes (p, n) \<inter> block_bytes (p, k) = {}" using assms by (intro hp.rep_disjoint [OF assms(1)]) auto
  moreover have "unat p \<in> block_bytes (p, n) \<inter> block_bytes (p, k)" using assms(4,5) by (simp add: block_bytes_def word_less_nat_alt)
  ultimately show False by blast
qed

lemma block_nonempty [simp]: "TASK_SIZE \<le> n \<Longrightarrow> 0 < n" "STACK_SIZE \<le> n \<Longrightarrow> 0 < n"
  by (simp_all add: TASK_SIZE_def STACK_SIZE_def word_le_nat_alt word_less_nat_alt)

lemma task_block_bytes:
  assumes "heap_rep s L" and "task_block L t"
  obtains n where "(t, n) \<in> L" and "task_bytes t \<subseteq> block_bytes (t, n)" and "unat t + 224 < 2 ^ 64" and "0 < n"
proof -
  obtain n where n: "(t, n) \<in> L" "TASK_SIZE \<le> n" using assms(2) by (auto simp: task_block_def)
  then have "224 \<le> unat n" by (simp add: TASK_SIZE_def word_le_nat_alt)
  then show thesis using that [OF n(1)] heap_rep_fits [OF assms(1) n(1)] n(2) by (auto simp: task_bytes_def block_bytes_def)
qed

lemma task_blocks_apart:
  assumes "heap_rep s L" and "task_block L t" and "task_block L u" and "t \<noteq> u"
  shows "tasks_apart t u"
proof -
  obtain n where n: "(t, n) \<in> L" "task_bytes t \<subseteq> block_bytes (t, n)" "unat t + 224 < 2 ^ 64"
    using task_block_bytes [OF assms(1,2)] .
  obtain k where k: "(u, k) \<in> L" "task_bytes u \<subseteq> block_bytes (u, k)" "unat u + 224 < 2 ^ 64"
    using task_block_bytes [OF assms(1,3)] .
  have "task_bytes t \<inter> task_bytes u = {}" using hp.rep_disjoint [OF assms(1) n(1) k(1)] n(2) k(2) assms(4) by blast
  then have "unat t + 224 \<le> unat u \<or> unat u + 224 \<le> unat t"
    using disjoint_iff [of "task_bytes t" "task_bytes u"] by (force simp: task_bytes_def not_le)
  then show ?thesis using n(3) k(3) unfolding tasks_apart_def by (intro apart_nat) simp_all
qed

lemma apart_task_bytes:
  assumes "tasks_apart t u" and "unat t + 224 < 2 ^ 64" and "unat u + 224 < 2 ^ 64"
  shows "task_bytes u \<subseteq> - task_bytes t"
proof -
  have "unat t + 224 \<le> unat u \<or> unat u + 224 \<le> unat t"
    using assms unfolding tasks_apart_def apart_def by (auto simp: word_le_nat_alt unat_sub_if' split: if_splits)
  then show ?thesis by (auto simp: task_bytes_def)
qed

text \<open>A client may write the fields of its tasks.\<close>

lemma rep_task_write:
  assumes "heap_rep (s\<lparr>mem := m\<rparr>) L" and "task_block L t" and "unat t + 224 < 2 ^ 64 \<Longrightarrow> agree_on m m' (- task_bytes t)"
  shows "heap_rep (s\<lparr>mem := m'\<rparr>) L"
proof -
  obtain n where n: "(t, n) \<in> L" "task_bytes t \<subseteq> block_bytes (t, n)" "unat t + 224 < 2 ^ 64"
    using task_block_bytes [OF assms(1,2)] .
  have "agree_on m m' (- block_bytes (t, n))" using assms(3) [OF n(3)] n(2) by (elim agree_on_mono) blast
  then show ?thesis using hp.rep_write [OF assms(1) n(1), of m'] by simp
qed

lemma task_store_on:
  "unat t + 224 < 2 ^ 64 \<Longrightarrow> unat x + 8 \<le> 224 \<Longrightarrow> agree_on m (store64 m (t + x) v) (- task_bytes t)"
  "unat t + 224 < 2 ^ 64 \<Longrightarrow> unat x + 4 \<le> 224 \<Longrightarrow> agree_on m (store32 m (t + x) w) (- task_bytes t)"
  "unat t + 224 < 2 ^ 64 \<Longrightarrow> unat k \<le> 224 \<Longrightarrow> agree_on m (memset m t c k) (- task_bytes t)"
  by (auto intro!: store64_on store32_on memset_on simp: unat_offset task_bytes_def)

lemma split_store64:
  assumes "heap_split (s\<lparr>mem := m\<rparr>) F G" and "task_block (F \<union> G) t" and "unat x + 8 \<le> 224"
  shows "heap_split (s\<lparr>mem := store64 m (t + x) v\<rparr>) F G"
proof -
  obtain n where n: "(t, n) \<in> F \<union> G" "task_bytes t \<subseteq> block_bytes (t, n)" "unat t + 224 < 2 ^ 64"
    using task_block_bytes [OF hpf.split_rep [OF assms(1)] assms(2)] .
  have "agree_on m (store64 m (t + x) v) (- block_bytes (t, n))"
    using n(2) by (intro agree_on_mono [OF task_store_on(1) [OF n(3) assms(3)]]) blast
  then show ?thesis using hpf.split_write [OF assms(1) n(1)] by simp
qed

lemma rep_store64: "heap_rep (s\<lparr>mem := m\<rparr>) L \<Longrightarrow> task_block L t \<Longrightarrow> unat x + 8 \<le> 224 \<Longrightarrow>
    heap_rep (s\<lparr>mem := store64 m (t + x) v\<rparr>) L"
  by (rule rep_task_write, assumption, assumption) (rule task_store_on)

lemma task_on:
  assumes "agree_on m m' (task_bytes t)" and "unat t + 224 < 2 ^ 64"
  shows "task_info m' t = task_info m t" and "t_next m' t = t_next m t" and "t_prev m' t = t_prev m t"
proof -
  have "load64 m' (t + x) = load64 m (t + x)" if "unat x + 8 \<le> 224" for x
    by (rule load64_on, rule agree_on_mono [OF assms(1)]) (use that assms(2) in \<open>auto simp: unat_offset task_bytes_def\<close>)
  moreover have "load32 m' (t + x) = load32 m (t + x)" if "unat x + 4 \<le> 224" for x
    by (rule load32_on, rule agree_on_mono [OF assms(1)]) (use that assms(2) in \<open>auto simp: unat_offset task_bytes_def\<close>)
  ultimately show "task_info m' t = task_info m t" and "t_next m' t = t_next m t" and "t_prev m' t = t_prev m t"
    by (simp_all add: task_info_def task_fields)
qed

lemma info_fields: "task_info m' t = task_info m t \<Longrightarrow>
    t_stack m' t = t_stack m t \<and> t_state m' t = t_state m t \<and> t_pid m' t = t_pid m t \<and> t_rip m' t = t_rip m t"
  by (simp add: task_info_def)

text \<open>A state that differs in memory only, and not on the tasks, holds the same ring.\<close>

lemma task_ring_on:
  assumes wf: "task_ring s ts" and same: "\<And>t. t \<in> set ts \<Longrightarrow> t_next m t = t_next (mem s) t \<and> t_prev m t = t_prev (mem s) t"
  shows "task_ring (s\<lparr>mem := m\<rparr>) ts"
  using wf ring_cong [of ts m "mem s"] same by (auto simp: task_ring_def)

lemma link_process_rep:
  assumes "heap_rep s L" and "task_block L t" and "task_ring s ts" and "\<forall>u \<in> set ts. task_block L u"
  shows "heap_rep (link_process t s) L"
proof (cases "ts = []")
  case True
  then have "head s = 0" using assms(3) by (simp add: task_ring_def)
  then show ?thesis using assms(1,2) by (simp add: link_process_def rep_store64)
next
  case False
  then have "task_block L (head s)" "task_block L (tail s)" "head s \<noteq> 0"
    using task_ring_ne [OF _ assms(3)] assms(4) by auto
  then show ?thesis using assms(1,2) by (simp add: link_process_def Let_def rep_store64)
qed

lemma unlink_process_split:
  assumes "heap_split s F G" and wf: "task_ring s (xs @ t # ys)" and bl: "\<forall>u \<in> set (xs @ t # ys). task_block (F \<union> G) u"
  shows "heap_split (unlink_process t s) F G"
proof (cases "ys @ xs = []")
  case True
  then have "unat (pcount s) = unat (1 :: u32)" using wf by (auto simp: task_ring_def)
  then have "pcount s = 1" by (simp only: word_unat_eq_iff)
  then show ?thesis using assms(1) by (simp add: unlink_process_def)
next
  case False
  have nx: "t_next (mem s) t = hd (ys @ xs)" and pv: "t_prev (mem s) t = last (ys @ xs)"
    using task_ring_ne [OF _ wf] False by (auto simp: ring_at ring_front hd_append)
  have z: "hd (ys @ xs) \<in> set (xs @ t # ys)" "last (ys @ xs) \<in> set (xs @ t # ys)"
    using hd_in_set [OF False] last_in_set [OF False] by auto
  then have "task_block (F \<union> G) (hd (ys @ xs))" "task_block (F \<union> G) (last (ys @ xs))" using bl by blast+
  moreover have "t \<noteq> last (ys @ xs)" using wf last_in_set [OF False] by (auto simp: task_ring_def)
  moreover have "task_sep (last (ys @ xs)) t" using task_ring_apart [OF wf _ z(2)] by simp
  ultimately show ?thesis using assms(1) nx pv
    by (simp add: unlink_process_def Let_def split_store64 store_link)
qed

section \<open>Cleaning up\<close>

text \<open>The blocks of a task: its control block and its stack.\<close>

definition owned :: "memory \<Rightarrow> u64 \<Rightarrow> (u64 \<times> u64) set" where
  "owned m t = {b. fst b = t \<or> fst b = t_stack m t}"

lemma reap_ok:
  assumes wf: "tasks_wf s (xs @ t # ys) (F \<union> G)" and sp: "heap_split s F G"
  obtains s' where "reap t s = Some (Inr s')" and "tasks_wf s' (xs @ ys) (F - owned (mem s) t \<union> G)"
    and "heap_split s' (F - owned (mem s) t) G"
    and "\<forall>u \<in> set (xs @ ys). task_info (mem s') u = task_info (mem s) u"
    and "current s' = (if current s = t then (if ys @ xs = [] then 0 else hd (ys @ xs)) else current s)"
proof -
  let ?L = "F \<union> G"
  have ring: "task_ring s (xs @ t # ys)" and rep: "heap_rep s ?L"
    and bl: "\<forall>u \<in> set (xs @ t # ys). task_block ?L u \<and> stack_block ?L (t_stack (mem s) u)"
    and dis: "distinct ((xs @ t # ys) @ map (t_stack (mem s)) (xs @ t # ys))"
    using wf by (simp_all add: tasks_wf_def)
  let ?s = "unlink_process t s"
  note un = unlink_process_ring [OF ring]
  have sp1: "heap_split ?s F G" by (rule unlink_process_split [OF sp ring]) (use bl in blast)
  then have rep1: "heap_rep ?s ?L" by (rule hpf.split_rep)
  have st: "t_stack (mem ?s) u = t_stack (mem s) u" if "u \<in> set (xs @ t # ys)" for u
    using info_fields [OF un(2) [OF that]] by blast
  obtain n where n: "(t, n) \<in> ?L" using bl by (auto simp: task_block_def)
  obtain k where k: "(t_stack (mem s) t, k) \<in> ?L" using bl by (auto simp: stack_block_def)
  have "(t_stack (mem s) t, k) \<noteq> (t, n)" using dis by auto
  from hpf.free_two [OF sp1 k n this] obtain m where fr: "reap t s = Some (Inr (?s\<lparr>mem := m\<rparr>))"
      and sp2: "heap_split (?s\<lparr>mem := m\<rparr>) (F - {(t_stack (mem s) t, k), (t, n)}) G"
      and on: "\<forall>d \<in> ?L - {(t_stack (mem s) t, k), (t, n)}. agree_on (mem ?s) m (block_bytes d)"
    using st [of t] by (auto simp: reap_def)
  have own: "F - {(t_stack (mem s) t, k), (t, n)} = F - owned (mem s) t"
    using hpf.split_inj [OF sp _ k] hpf.split_inj [OF sp _ n] by (auto simp: owned_def)
  let ?L' = "F - owned (mem s) t \<union> G"
  have keep: "(u, j) \<in> ?L - {(t_stack (mem s) t, k), (t, n)}"
    if "(u, j) \<in> ?L" "u \<noteq> t" "u \<noteq> t_stack (mem s) t" for u j using that by auto
  have ne: "u \<noteq> t" "u \<noteq> t_stack (mem s) t" "t_stack (mem s) u \<noteq> t" "t_stack (mem s) u \<noteq> t_stack (mem s) t"
    if "u \<in> set (xs @ ys)" for u
    using dis that by (auto dest: arg_cong [of _ _ "\<lambda>a. a \<in> t_stack (mem s) ` (set xs \<union> set ys)"])
  have same: "task_info m u = task_info (mem ?s) u \<and> t_next m u = t_next (mem ?s) u \<and> t_prev m u = t_prev (mem ?s) u"
    if u: "u \<in> set (xs @ ys)" for u
  proof -
    have "task_block ?L u" using bl u by auto
    then obtain j where j: "(u, j) \<in> ?L" "task_bytes u \<subseteq> block_bytes (u, j)" "unat u + 224 < 2 ^ 64"
      using task_block_bytes [OF rep1] by metis
    then have "agree_on (mem ?s) m (task_bytes u)" using on keep ne u agree_on_mono by blast
    then show ?thesis using task_on j(3) by blast
  qed
  have info: "task_info m u = task_info (mem s) u" if "u \<in> set (xs @ ys)" for u
    using same [OF that] un(2) [of u] that by auto
  then have st': "t_stack m u = t_stack (mem s) u" if "u \<in> set (xs @ ys)" for u
    using info_fields that by blast
  have "task_block ?L' u \<and> stack_block ?L' (t_stack m u)" if u: "u \<in> set (xs @ ys)" for u
  proof -
    obtain a where a: "(u, a) \<in> ?L" "TASK_SIZE \<le> a" using bl u by (auto simp: task_block_def)
    obtain b where b: "(t_stack (mem s) u, b) \<in> ?L" "STACK_SIZE \<le> b" using bl u by (auto simp: stack_block_def)
    have "(u, a) \<in> ?L'" "(t_stack (mem s) u, b) \<in> ?L'"
      using keep [OF a(1) ne(1,2) [OF u]] keep [OF b(1) ne(3,4) [OF u]] own by blast+
    then show ?thesis using a(2) b(2) st' [OF u] by (auto simp: task_block_def stack_block_def)
  qed
  moreover have "task_ring (?s\<lparr>mem := m\<rparr>) (xs @ ys)" using task_ring_on [OF un(1)] same by simp
  moreover have st_map: "map (t_stack m) (xs @ ys) = map (t_stack (mem s)) (xs @ ys)"
    using st' by (intro map_cong) auto
  have "distinct ((xs @ ys) @ map (t_stack m) (xs @ ys))" unfolding st_map using dis by auto
  ultimately have "tasks_wf (?s\<lparr>mem := m\<rparr>) (xs @ ys) ?L'"
    using hpf.split_rep [OF sp2] own by (simp add: tasks_wf_def)
  then show thesis by (rule that [OF fr]) (use info un(3) sp2 own in auto)
qed

text \<open>The blocks of the terminated tasks of a list.\<close>

definition reaped :: "memory \<Rightarrow> u64 list \<Rightarrow> (u64 \<times> u64) set" where
  "reaped m us = \<Union> (owned m ` {u \<in> set us. \<not> alive m u})"

lemma reaped_simps:
  "reaped m [] = {}" "reaped m (t # us) = (if alive m t then {} else owned m t) \<union> reaped m us"
  by (auto simp: reaped_def)

lemma tasks_wf_split:
  assumes "tasks_wf s ts L"
  obtains F G where "heap_split s F G" and "L = F \<union> G"
proof -
  have "heap_rep s L" using assms by (simp add: tasks_wf_def)
  then show thesis using that unfolding heap_split_rep by blast
qed

lemma info_same:
  assumes "\<forall>u \<in> set us. task_info m' u = task_info m u"
  shows "reaped m' us = reaped m us" and "filter (alive m') us = filter (alive m) us"
proof -
  have same: "owned m' u = owned m u \<and> alive m' u = alive m u" if "u \<in> set us" for u
    using info_fields [of m' u m] bspec [OF assms that] by (simp add: owned_def alive_def)
  then have "{u \<in> set us. \<not> alive m' u} = {u \<in> set us. \<not> alive m u}" by blast
  then show "reaped m' us = reaped m us" unfolding reaped_def using same by auto
  show "filter (alive m') us = filter (alive m) us" using same by (intro filter_cong) auto
qed

lemma cleanup_from:
  "tasks_wf s (h # xs @ t # ys) (F \<union> G) \<Longrightarrow> heap_split s F G \<Longrightarrow> alive (mem s) h \<Longrightarrow>
   \<exists>s'. cleanup_loop t s = Some (Inr s') \<and> heap_split s' (F - reaped (mem s) (t # ys)) G \<and>
     tasks_wf s' (h # xs @ filter (alive (mem s)) (t # ys)) (F - reaped (mem s) (t # ys) \<union> G) \<and>
     (\<forall>u \<in> set (h # xs @ filter (alive (mem s)) (t # ys)). task_info (mem s') u = task_info (mem s) u)"
proof (induction ys arbitrary: t xs s F)
  case Nil
  have ring: "task_ring s (h # xs @ [t])" using Nil by (simp add: tasks_wf_def)
  then have nx: "t_next (mem s) t = h" "head s = h"
    using task_ring_ne [OF _ ring] by (auto simp: ring_def nexts_append)
  show ?case
  proof (cases "alive (mem s) t")
    case True
    then show ?thesis using Nil nx by (subst cleanup_loop.simps) (auto simp: alive_def reaped_simps)
  next
    case False
    obtain s' where r: "reap t s = Some (Inr s')" "tasks_wf s' (h # xs) (F - owned (mem s) t \<union> G)"
        "heap_split s' (F - owned (mem s) t) G" "\<forall>u \<in> set (h # xs). task_info (mem s') u = task_info (mem s) u"
      by (rule reap_ok [of s "h # xs" t "[]" F G]) (use Nil in auto)
    have "task_ring s' (h # xs)" using r(2) by (simp add: tasks_wf_def)
    then have "head s' = h" using task_ring_ne by fastforce
    then have "cleanup_loop t s = Some (Inr s')" using False r(1) nx by (subst cleanup_loop.simps) (auto simp: alive_def)
    moreover have "reaped (mem s) [t] = owned (mem s) t" using False by (simp add: reaped_simps)
    ultimately show ?thesis using False r(2-4) by simp
  qed
next
  case (Cons v ys)
  have ring: "task_ring s (h # xs @ t # v # ys)" using Cons.prems by (simp add: tasks_wf_def)
  then have nx: "t_next (mem s) t = v" "head s = h" "pcount s \<noteq> 0" "v \<noteq> h"
    using task_ring_ne [OF _ ring] by (auto simp: ring_def nexts_append task_ring_def)
  show ?case
  proof (cases "alive (mem s) t")
    case True
    then have "cleanup_loop t s = cleanup_loop v s"
      using nx by (subst cleanup_loop.simps) (auto simp: alive_def word_gt_0)
    then show ?thesis using Cons.IH [of s "xs @ [t]" v F] Cons.prems True by (simp add: reaped_simps)
  next
    case False
    let ?F = "F - owned (mem s) t"
    obtain s1 where r: "reap t s = Some (Inr s1)" "tasks_wf s1 (h # xs @ v # ys) (?F \<union> G)" "heap_split s1 ?F G"
        "\<forall>u \<in> set (h # xs @ v # ys). task_info (mem s1) u = task_info (mem s) u"
      by (rule reap_ok [of s "h # xs" t "v # ys" F G]) (use Cons.prems in auto)
    have "task_ring s1 (h # xs @ v # ys)" using r(2) by (simp add: tasks_wf_def)
    then have "head s1 = h" "pcount s1 \<noteq> 0" using task_ring_ne by fastforce+
    then have loop: "cleanup_loop t s = cleanup_loop v s1"
      using nx False r(1) by (subst cleanup_loop.simps) (auto simp: alive_def word_gt_0)
    have "\<forall>u \<in> set (v # ys). task_info (mem s1) u = task_info (mem s) u" using r(4) by simp
    note same = info_same [OF this]
    have "alive (mem s1) h" using info_fields [of "mem s1" h "mem s"] r(4) Cons.prems(3) by (simp add: alive_def)
    from Cons.IH [OF r(2,3) this, unfolded same]
    obtain s' where s': "cleanup_loop v s1 = Some (Inr s')" "heap_split s' (?F - reaped (mem s) (v # ys)) G"
        "tasks_wf s' (h # xs @ filter (alive (mem s)) (v # ys)) (?F - reaped (mem s) (v # ys) \<union> G)"
        "\<forall>u \<in> set (h # xs @ filter (alive (mem s)) (v # ys)). task_info (mem s') u = task_info (mem s1) u"
      by blast
    have "?F - reaped (mem s) (v # ys) = F - reaped (mem s) (t # v # ys)" using False by (auto simp: reaped_simps)
    then show ?thesis using s' loop r(4) False by (intro exI [of _ s']) auto
  qed
qed

lemma cleanup_alive_head:
  assumes wf: "tasks_wf s (h # ts) (F \<union> G)" and sp: "heap_split s F G" and h: "alive (mem s) h"
  shows "\<exists>s'. cleanup_terminated s = Some (Inr s') \<and> heap_split s' (F - reaped (mem s) (h # ts)) G \<and>
     tasks_wf s' (filter (alive (mem s)) (h # ts)) (F - reaped (mem s) (h # ts) \<union> G) \<and>
     (\<forall>u \<in> set (filter (alive (mem s)) (h # ts)). task_info (mem s') u = task_info (mem s) u)"
proof -
  have ring: "task_ring s (h # ts)" using wf by (simp add: tasks_wf_def)
  then have hd: "head s = h" "h \<noteq> 0" "pcount s \<noteq> 0" and nx: "t_next (mem s) h = hd (ts @ [h])" and "h \<notin> set ts"
    using task_ring_ne [OF _ ring] by (auto simp: task_ring_def ring_def)
  show ?thesis
  proof (cases ts)
    case Nil
    then show ?thesis using wf sp h cleanup_none [OF ring] by (intro exI [of _ s]) (auto simp: reaped_simps)
  next
    case (Cons t ys)
    have "cleanup_terminated s = cleanup_loop t s"
      using hd nx h Cons \<open>h \<notin> set ts\<close>
      by (simp add: cleanup_terminated_def cleanup_loop.simps [of h] alive_def word_gt_0)
    moreover have "reaped (mem s) (h # ts) = reaped (mem s) (t # ys)" using h Cons by (simp add: reaped_simps)
    ultimately show ?thesis using cleanup_from [of s h "[]" t ys F G] wf sp h Cons by simp
  qed
qed


lemma cleanup_head:
  assumes wf: "tasks_wf s (h # ts) L" and h: "\<not> alive (mem s) h"
  obtains s' L' where "cleanup_terminated s = Some (Inr s')" and "tasks_wf s' ts L'" and "L' \<subseteq> L"
    and "\<forall>u \<in> set ts. task_info (mem s') u = task_info (mem s) u"
    and "current s' = (if current s = h then (if ts = [] then 0 else hd ts) else current s)"
proof -
  have ring: "task_ring s (h # ts)" using wf by (simp add: tasks_wf_def)
  then have hd: "head s = h" "h \<noteq> 0" and nx: "t_next (mem s) h = hd (ts @ [h])"
    using task_ring_ne [OF _ ring] by (auto simp: ring_def)
  obtain F G where sp: "heap_split s F G" "L = F \<union> G" using tasks_wf_split [OF wf] .
  obtain s' where r: "reap h s = Some (Inr s')" "tasks_wf s' ts (F - owned (mem s) h \<union> G)"
        "\<forall>u \<in> set ts. task_info (mem s') u = task_info (mem s) u"
        "current s' = (if current s = h then (if ts = [] then 0 else hd ts) else current s)"
    by (rule reap_ok [of s "[]" h ts F G]) (use wf sp in auto)
  have ring': "task_ring s' ts" using r(2) by (simp add: tasks_wf_def)
  have "\<not> (hd (ts @ [h]) \<noteq> head s' \<and> pcount s' > 0)"
  proof (cases "ts = []")
    case True
    then have "unat (pcount s') = 0" using ring' by (simp add: task_ring_def)
    then show ?thesis by (simp add: unat_eq_zero)
  next
    case False
    then show ?thesis using task_ring_ne [OF _ ring'] by simp
  qed
  then have "cleanup_terminated s = Some (Inr s')"
    using hd nx h r(1) by (auto simp: cleanup_terminated_def cleanup_loop.simps [of h] alive_def Let_def)
  moreover have "F - owned (mem s) h \<union> G \<subseteq> L" using sp(2) by blast
  ultimately show thesis using that r by blast
qed

text \<open>
  (C33) With a terminated task at the head, the loop of \<open>cleanup_terminated\<close> stops after its first
  round: the task after the head has become the head, which is what the loop ends on. Every other
  terminated task stays in the list, and its blocks in use.
\<close>

theorem cleanup_stops_at_head:
  assumes "tasks_wf s (h # ts) L" and "\<not> alive (mem s) h" and "t \<in> set ts" and "\<not> alive (mem s) t"
  shows "\<exists>s' L'. cleanup_terminated s = Some (Inr s') \<and> tasks_wf s' ts L' \<and> \<not> alive (mem s') t"
proof -
  obtain s' L' where s': "cleanup_terminated s = Some (Inr s')" "tasks_wf s' ts L'"
      "\<forall>u \<in> set ts. task_info (mem s') u = task_info (mem s) u"
    using cleanup_head [OF assms(1,2)] by metis
  then have "\<not> alive (mem s') t" using assms(3,4) info_fields [of "mem s'" t "mem s"] by (simp add: alive_def)
  then show ?thesis using s' by blast
qed

section \<open>Killing the current task\<close>

lemma set_state_wf:
  assumes wf: "tasks_wf s ts L" and t: "t \<in> set ts"
  shows "tasks_wf (set_state t st s) ts L"
proof -
  have ring: "task_ring s ts" and rep: "heap_rep s L" and bl: "task_block L t"
    using wf t by (simp_all add: tasks_wf_def)
  have "t_stack (mem (set_state t st s)) u = t_stack (mem s) u" if "u \<in> set ts" for u
    using task_ring_apart [OF ring that t] by (simp add: set_state_def store_state)
  moreover from this have "map (t_stack (mem (set_state t st s))) ts = map (t_stack (mem s)) ts" by simp
  moreover have "heap_rep (set_state t st s) L"
    unfolding set_state_def
    by (rule rep_task_write [where m = "mem s"]) (use rep bl task_store_on(2) [of t 172] in simp_all)
  ultimately show ?thesis using wf set_state_ring [OF ring t] unfolding tasks_wf_def by metis
qed

lemma cleanup_two:
  assumes wf: "tasks_wf s ts L" and ts: "ts = [c, u] \<or> ts = [u, c]" and cur: "current s = c"
    and st: "\<not> alive (mem s) c" "alive (mem s) u"
  obtains s' L' where "cleanup_terminated s = Some (Inr s')" and "tasks_wf s' [u] L'" and "current s' = u"
proof -
  from ts show thesis
  proof
    assume ts: "ts = [c, u]"
    show thesis by (rule cleanup_head [OF wf [unfolded ts] st(1)]) (use that cur in auto)
  next
    assume ts: "ts = [u, c]"
    have ring: "task_ring s [u, c]" using wf ts by (simp add: tasks_wf_def)
    then have h: "head s = u" "u \<noteq> 0" "u \<noteq> c" "pcount s \<noteq> 0" "t_next (mem s) u = c" "t_next (mem s) c = u"
      using task_ring_ne [OF _ ring] by (auto simp: ring_def task_ring_def)
    obtain F G where sp: "heap_split s F G" "L = F \<union> G" using tasks_wf_split [OF wf] .
    obtain s' L' where r: "reap c s = Some (Inr s')" "tasks_wf s' [u] L'" "current s' = u"
      by (rule reap_ok [of s "[u]" c "[]" F G]) (use wf ts cur sp in auto)
    then have "head s' = u" using task_ring_ne [of "[u]" s'] by (simp add: tasks_wf_def)
    then have "cleanup_terminated s = Some (Inr s')"
      using h st r by (simp add: cleanup_terminated_def cleanup_loop.simps [of u] cleanup_loop.simps [of c] alive_def word_gt_0)
    then show thesis using that r by blast
  qed
qed

text \<open>
  (C34) \<open>kill_current\<close> with one other task, able to run: cleaning up moves \<open>current\<close> on to that task, the
  search then starts after it, comes back to it, and \<open>yield\<close> returns as if the running task were
  still the current one. So \<open>kill_current\<close> returns into the task it has killed, whose stack and
  control block are free, and the other task is not run.
\<close>

theorem kill_current_returns:
  assumes wf: "tasks_wf s ts L" and ts: "ts = [c, u] \<or> ts = [u, c]" and cur: "current s = c" and u: "runnable (mem s) u"
  shows "\<exists>s' L'. kill_current s = Some (Inr (None, s')) \<and> tasks_wf s' [u] L' \<and> current s' = u"
proof -
  let ?s = "set_state c TERMINATED s"
  have in_ts: "c \<in> set ts" "u \<in> set ts" using ts by auto
  have ring: "task_ring s ts" using wf by (simp add: tasks_wf_def)
  have sep: "task_sep c u" "c \<noteq> u" "c \<noteq> 0" using task_ring_apart [OF ring in_ts(2,1)] ring ts by (auto simp: task_ring_def)
  have st: "\<not> alive (mem ?s) c" "alive (mem ?s) u" "current ?s = c"
    using sep u cur by (auto simp: set_state_def alive_def runnable_def store_state)
  obtain s' L' where s': "cleanup_terminated ?s = Some (Inr s')" "tasks_wf s' [u] L'" "current s' = u"
    by (rule cleanup_two [OF set_state_wf [OF wf in_ts(1)] ts st(3,1,2)])
  have ring': "task_ring s' ([] @ u # [])" using s'(2) by (simp add: tasks_wf_def)
  then have "u \<noteq> 0" "pcount s' \<noteq> 0" using task_ring_ne [OF _ ring'] by (auto simp: task_ring_def)
  then have "yield_task ?s = Some (Inr (None, s'))"
    using yield_search [OF ring' s'(3)] s' by (simp add: yield_task_def yield_to_def)
  then show ?thesis using s' cur sep(3) by (auto simp: kill_current_def)
qed

section \<open>Spawning\<close>

lemma fill_task_info:
  "task_info (fill_task entry name priority pid t (store64 m (t + 160) stack)) t =
     (entry, stack + STACK_SIZE, stack, pid, status_code READY, name, priority)"
  by (simp add: fill_task_def Let_def task_info_def task_fields mem_simps addr_simps)

lemma fill_task_on:
  assumes "unat t + 224 < 2 ^ 64"
  shows "agree_on m (fill_task entry name priority pid t (store64 m (t + 160) stack)) (- task_bytes t)"
  unfolding fill_task_def Let_def
  by (intro agree_on_trans [OF _ task_store_on(1)] agree_on_trans [OF _ task_store_on(2)]
        agree_on_trans [OF _ task_store_on(3)] agree_on_refl assms) simp_all

lemma more_fields:
  assumes "heap_state.more s' = heap_state.more (s :: 'a task_state_scheme)"
  shows "head s' = head s" and "tail s' = tail s" and "current s' = current s" and "pcount s' = pcount s"
    and "next_pid s' = next_pid s"
  using assms by (cases s; cases s'; simp)+

text \<open>A new block is not one of the blocks the tasks have.\<close>

lemma fresh_block:
  assumes "heap_rep s (insert (p, n) L)" and "(p, n) \<notin> L" and "0 < n" and "task_block L u \<or> stack_block L u"
  shows "u \<noteq> p"
proof
  assume "u = p"
  then obtain k where "(p, k) \<in> L" "0 < k" using assms(4) by (auto simp: task_block_def stack_block_def)
  then show False using rep_inj [OF assms(1), of p n k] assms(2,3) by auto
qed

lemma tasks_wf_mono:
  assumes wf: "tasks_wf s ts L" and rep: "heap_rep s' L'" and sub: "L \<subseteq> L'"
    and on: "\<forall>b \<in> L. agree_on (mem s) (mem s') (block_bytes b)" and more: "heap_state.more s' = heap_state.more s"
  shows "tasks_wf s' ts L'" and "\<forall>u \<in> set ts. task_info (mem s') u = task_info (mem s) u"
proof -
  have same: "task_info (mem s') u = task_info (mem s) u \<and> t_next (mem s') u = t_next (mem s) u \<and>
      t_prev (mem s') u = t_prev (mem s) u" if "u \<in> set ts" for u
  proof -
    have "heap_rep s L" "task_block L u" using wf that by (simp_all add: tasks_wf_def)
    then obtain n where n: "(u, n) \<in> L" "task_bytes u \<subseteq> block_bytes (u, n)" "unat u + 224 < 2 ^ 64"
      by (rule task_block_bytes)
    have "agree_on (mem s) (mem s') (task_bytes u)" by (rule agree_on_mono [OF bspec [OF on n(1)] n(2)])
    from task_on [OF this n(3)] show ?thesis by simp
  qed
  then have st: "t_stack (mem s') u = t_stack (mem s) u" if "u \<in> set ts" for u using that info_fields by blast
  have "map (t_stack (mem s')) ts = map (t_stack (mem s)) ts" using st by (intro map_cong) auto
  then have "distinct (ts @ map (t_stack (mem s')) ts)" using wf unfolding tasks_wf_def by metis
  moreover have "ring (mem s') ts = ring (mem s) ts" by (rule ring_cong) (use same in blast)
  then have "task_ring s' ts" using wf more_fields [OF more] unfolding tasks_wf_def task_ring_def by simp
  moreover have "task_block L' u \<and> stack_block L' (t_stack (mem s') u)" if "u \<in> set ts" for u
    using wf that sub st [OF that] by (fastforce simp: tasks_wf_def task_block_def stack_block_def)
  ultimately show "tasks_wf s' ts L'"
    using rep unfolding tasks_wf_def by blast
  show "\<forall>u \<in> set ts. task_info (mem s') u = task_info (mem s) u" using same by blast
qed

text \<open>
  The room a new task needs: each of the two calls of \<open>kmalloc\<close> finds a free segment or unused frames for
  a new page. It does not hold when the second call has to make a page of nine frames for the stack and the
  search position of the frame allocator is inside the page made for the stack of an earlier task.
\<close>

definition spawn_heap :: "'a heap_state_scheme \<Rightarrow> bool" where
  "spawn_heap s \<longleftrightarrow> heap_room TASK_SIZE s \<and>
     (case kmalloc TASK_SIZE s of Some (Inr (_, s1)) \<Rightarrow> heap_room STACK_SIZE s1 | _ \<Rightarrow> False)"

text \<open>The blocks of a new task and its stack, before the task is filled in.\<close>

lemma spawn_blocks:
  assumes wf: "tasks_wf s ts L" and room: "spawn_heap s"
  obtains t s1 stack s2 n k where "kmalloc TASK_SIZE s = Some (Inr (t, s1))"
    and "kmalloc STACK_SIZE s1 = Some (Inr (stack, s2))" and "t \<noteq> 0" and "stack \<noteq> 0"
    and "TASK_SIZE \<le> n" and "STACK_SIZE \<le> k" and "(t, n) \<notin> L" and "(stack, k) \<notin> insert (t, n) L"
    and "tasks_wf s2 ts (insert (stack, k) (insert (t, n) L))"
    and "heap_state.more s2 = heap_state.more s" and "\<forall>u \<in> set ts. task_info (mem s2) u = task_info (mem s) u"
    and "\<forall>b \<in> L. agree_on (mem s) (mem s2) (block_bytes b)"
proof -
  have rep: "heap_rep s L" using wf by (simp add: tasks_wf_def)
  have fits: "heap_room TASK_SIZE s" using room by (simp add: spawn_heap_def)
  obtain t n s1 where n: "kmalloc TASK_SIZE s = Some (Inr (t, s1))" "heap_rep s1 (insert (t, n) L)" "(t, n) \<notin> L"
      "TASK_SIZE \<le> n" "t \<noteq> 0" and on1: "\<forall>b \<in> L. agree_on (mem s) (mem s1) (block_bytes b)"
    using hp.malloc_ok [OF rep fits] by blast
  have "heap_room STACK_SIZE s1" using room n(1) by (simp add: spawn_heap_def)
  then obtain stack k s2 where k: "kmalloc STACK_SIZE s1 = Some (Inr (stack, s2))"
      "heap_rep s2 (insert (stack, k) (insert (t, n) L))" "(stack, k) \<notin> insert (t, n) L" "STACK_SIZE \<le> k"
      "stack \<noteq> 0" and on2: "\<forall>b \<in> insert (t, n) L. agree_on (mem s1) (mem s2) (block_bytes b)"
    using hp.malloc_ok [OF n(2)] by blast
  have more: "heap_state.more s2 = heap_state.more s" using kmalloc_more [OF n(1)] kmalloc_more [OF k(1)] by simp
  have on: "\<forall>b \<in> L. agree_on (mem s) (mem s2) (block_bytes b)" using on1 on2 agree_on_trans by blast
  note t2 = tasks_wf_mono [OF wf k(2) _ on more]
  show thesis by (rule that [OF n(1) k(1) n(5) k(5) n(4) k(4) n(3) k(3) t2(1) more t2(2) on]) auto
qed

lemma link_process_on:
  assumes ring: "task_ring s ts" and top: "\<forall>u \<in> set (ts @ [t]). unat u + 224 < 2 ^ 64"
  shows "agree_on (mem s) (mem (link_process t s)) (- \<Union> (task_bytes ` set (ts @ [t])))"
proof -
  define A where "A = - \<Union> (task_bytes ` set (ts @ [t]))"
  have st: "agree_on (mem s) (store64 m (u + x) v) A"
    if "agree_on (mem s) m A" "u \<in> set (ts @ [t])" "unat x + 8 \<le> 224" for m u x v
    by (rule agree_on_trans [OF that(1) agree_on_mono [OF task_store_on(1)]]) (use that top in \<open>auto simp: A_def\<close>)
  have "agree_on (mem s) (mem (link_process t s)) A"
  proof (cases "ts = []")
    case True
    then have "head s = 0" using ring by (simp add: task_ring_def)
    then show ?thesis by (simp add: link_process_def st)
  next
    case False
    then have "head s \<in> set (ts @ [t])" "tail s \<in> set (ts @ [t])" "head s \<noteq> 0"
      using task_ring_ne [OF _ ring] by auto
    then show ?thesis by (simp add: link_process_def Let_def st)
  qed
  then show ?thesis by (simp add: A_def)
qed

lemma task_ring_next_pid [simp]: "task_ring (s\<lparr>next_pid := p\<rparr>) ts = task_ring s ts"
  by (simp add: task_ring_def)

lemma spawn_link:
  assumes wf: "tasks_wf s ts L" and n: "length ts + 1 < 2 ^ 32" and t0: "t \<noteq> 0"
    and tb: "task_block L t" "stack_block L stack" and new: "distinct ((ts @ map (t_stack (mem s)) ts) @ [t, stack])"
    and m: "task_info m t = (entry, rsp, stack, pid, st, name, priority)"
    and on: "unat t + 224 < 2 ^ 64 \<Longrightarrow> agree_on (mem s) m (- task_bytes t)"
  shows "tasks_wf (link_process t (s\<lparr>mem := m, next_pid := p\<rparr>)) (ts @ [t]) L"
    and "\<forall>u \<in> set ts. task_info (mem (link_process t (s\<lparr>mem := m, next_pid := p\<rparr>))) u = task_info (mem s) u"
    and "task_info (mem (link_process t (s\<lparr>mem := m, next_pid := p\<rparr>))) t = (entry, rsp, stack, pid, st, name, priority)"
    and "agree_on (mem s) (mem (link_process t (s\<lparr>mem := m, next_pid := p\<rparr>))) (- \<Union> (task_bytes ` set (ts @ [t])))"
proof -
  let ?s = "s\<lparr>mem := m, next_pid := p\<rparr>" and ?s' = "link_process t (s\<lparr>mem := m, next_pid := p\<rparr>)"
  have ring: "task_ring s ts" and rep: "heap_rep s L" using wf by (simp_all add: tasks_wf_def)
  have bl: "task_block L u \<and> stack_block L (t_stack (mem s) u)" if "u \<in> set ts" for u
    using wf that by (simp add: tasks_wf_def)
  have rep1: "heap_rep (s\<lparr>mem := m\<rparr>) L" by (rule rep_task_write [where m = "mem s", OF _ tb(1) on]) (use rep in simp_all)
  have ap: "tasks_apart t u" if "u \<in> set ts" for u
    by (rule task_blocks_apart [OF rep tb(1)]) (use bl that new in auto)
  have t64: "unat t + 224 < 2 ^ 64" using task_block_bytes [OF rep tb(1)] by blast
  have same: "task_info m u = task_info (mem s) u \<and> t_next m u = t_next (mem s) u \<and> t_prev m u = t_prev (mem s) u"
    if u: "u \<in> set ts" for u
  proof -
    have u64: "unat u + 224 < 2 ^ 64" using task_block_bytes [OF rep] bl [OF u] by blast
    have "task_bytes u \<subseteq> - task_bytes t" using ap [OF u] t64 u64 by (rule apart_task_bytes)
    then have "agree_on (mem s) m (task_bytes u)" using on [OF t64] by (elim agree_on_mono)
    from task_on [OF this u64] show ?thesis by simp
  qed
  have ring1: "task_ring ?s ts" using task_ring_on [OF ring] same by simp
  note lk = link_process_ring [OF ring1 t0 _ n]
  show info: "\<forall>u \<in> set ts. task_info (mem ?s') u = task_info (mem s) u" using lk(2) ap same by simp
  show tinfo: "task_info (mem ?s') t = (entry, rsp, stack, pid, st, name, priority)" using lk(2) [of t] ap m by simp
  have st: "t_stack (mem ?s') t = stack" using tinfo by (simp add: task_info_def)
  have st': "t_stack (mem ?s') u = t_stack (mem s) u" if "u \<in> set ts" for u using bspec [OF info that] info_fields by blast
  then have st_map: "map (t_stack (mem ?s')) (ts @ [t]) = map (t_stack (mem s)) ts @ [stack]" using st by simp
  have "distinct ((ts @ [t]) @ map (t_stack (mem ?s')) (ts @ [t]))" unfolding st_map using new by auto
  moreover have "heap_rep ?s' L" by (rule link_process_rep [OF _ tb(1) ring1]) (use rep1 bl in auto)
  moreover have "task_block L u \<and> stack_block L (t_stack (mem ?s') u)" if "u \<in> set (ts @ [t])" for u
    using that bl [of u] tb st st' [of u] by auto
  moreover have "task_ring ?s' (ts @ [t])" using lk(1) ap by blast
  ultimately show "tasks_wf ?s' (ts @ [t]) L" unfolding tasks_wf_def by blast
  have "\<forall>u \<in> set (ts @ [t]). unat u + 224 < 2 ^ 64"
  proof
    fix u assume "u \<in> set (ts @ [t])"
    then have "task_block L u" using bl tb(1) by auto
    then show "unat u + 224 < 2 ^ 64" by (rule task_block_bytes [OF rep])
  qed
  from link_process_on [OF ring1 this] show "agree_on (mem s) (mem ?s') (- \<Union> (task_bytes ` set (ts @ [t])))"
    by (intro agree_on_trans [OF agree_on_mono [OF on [OF t64]]]) auto
qed

lemma heap_wf_link: "heap_wf (link_process t s) H = heap_wf (s\<lparr>mem := mem (link_process t s)\<rparr>) H"
  "heap_wf (s\<lparr>next_pid := p, mem := m\<rparr>) H = heap_wf (s\<lparr>mem := m\<rparr>) H"
  by (simp_all add: link_process_def Let_def heap_wf_def frame_wf_def taken_def frame_addr_def)

lemma spawn_process_parts:
  assumes wf: "tasks_wf s ts L" and room: "spawn_heap s" and n: "length ts + 1 < 2 ^ 32"
  obtains t stack j k s1 s2 s' where "kmalloc TASK_SIZE s = Some (Inr (t, s1))"
    and "kmalloc STACK_SIZE s1 = Some (Inr (stack, s2))"
    and "spawn_process entry name priority s = Some (Inr (t, s'))" and "t \<notin> set ts"
    and "TASK_SIZE \<le> j" and "STACK_SIZE \<le> k" and "(t, j) \<notin> L" and "(stack, k) \<notin> insert (t, j) L"
    and "tasks_wf s' (ts @ [t]) (insert (stack, k) (insert (t, j) L))"
    and "task_info (mem s') t = (entry, stack + STACK_SIZE, stack, next_pid s, status_code READY, name, priority)"
    and "next_pid s' = next_pid s + 1" and "current s' = current s"
    and "\<forall>u \<in> set ts. task_info (mem s') u = task_info (mem s) u"
    and "\<forall>b \<in> L. fst b \<notin> set ts \<longrightarrow> agree_on (mem s) (mem s') (block_bytes b)"
    and "\<forall>H. heap_wf s2 H \<longrightarrow> heap_wf s' H \<and> live H = insert (stack, k) (insert (t, j) L)"
proof -
  obtain t s1 stack s2 j k where km: "kmalloc TASK_SIZE s = Some (Inr (t, s1))"
      "kmalloc STACK_SIZE s1 = Some (Inr (stack, s2))" "t \<noteq> 0" "stack \<noteq> 0" "TASK_SIZE \<le> j" "STACK_SIZE \<le> k"
      and new: "(t, j) \<notin> L" "(stack, k) \<notin> insert (t, j) L"
      and wf2: "tasks_wf s2 ts (insert (stack, k) (insert (t, j) L))"
      and more: "heap_state.more s2 = heap_state.more s" and info: "\<forall>u \<in> set ts. task_info (mem s2) u = task_info (mem s) u"
      and on: "\<forall>b \<in> L. agree_on (mem s) (mem s2) (block_bytes b)"
    by (rule spawn_blocks [OF wf room])
  let ?L = "insert (stack, k) (insert (t, j) L)"
  have rep2: "heap_rep s2 ?L" using wf2 by (simp add: tasks_wf_def)
  have tb: "task_block ?L t" "stack_block ?L stack" using km(5,6) by (auto simp: task_block_def stack_block_def)
  have old: "task_block L u" "stack_block L (t_stack (mem s2) u)" if "u \<in> set ts" for u
    using wf that bspec [OF info that] info_fields [of "mem s2" u "mem s"] by (simp_all add: tasks_wf_def)
  have fresh: "p \<noteq> t \<and> p \<noteq> stack" if "task_block L p \<or> stack_block L p" for p
  proof
    have "heap_rep s2 (insert (t, j) (insert (stack, k) L))" using rep2 by (simp add: insert_commute)
    from fresh_block [OF this] show "p \<noteq> t" using new km(5) that by (auto simp: task_block_def stack_block_def)
    from fresh_block [OF rep2] show "p \<noteq> stack" using new km(6) that by (auto simp: task_block_def stack_block_def)
  qed
  have "stack \<noteq> t" using rep_inj [OF rep2, of t j k] new(2) km(5,6) by auto
  moreover have "distinct (ts @ map (t_stack (mem s2)) ts)" using wf2 by (simp add: tasks_wf_def)
  ultimately have dis: "distinct ((ts @ map (t_stack (mem s2)) ts) @ [t, stack])" using old fresh by fastforce
  note fill = fill_task_info [of entry name priority "next_pid s" t "mem s2" stack]
  note lk = spawn_link [where p = "next_pid s + 1", OF wf2 n km(3) tb dis fill fill_task_on]
  define s' where "s' = link_process t (s2\<lparr>mem := fill_task entry name priority (next_pid s) t (store64 (mem s2) (t + 160) stack),
      next_pid := next_pid s + 1\<rparr>)"
  note lk' = lk [folded s'_def]
  have sp: "spawn_process entry name priority s = Some (Inr (t, s'))"
    using km more_fields [OF more] by (simp add: spawn_process_def t_stack_def s'_def)
  have f: "next_pid s' = next_pid s + 1" "current s' = current s"
    using more_fields [OF more] by (simp_all add: link_process_def Let_def s'_def)
  have info': "\<forall>u \<in> set ts. task_info (mem s') u = task_info (mem s) u" using lk'(2) info by simp
  have tn: "t \<notin> set ts" using dis by auto
  have blk: "\<exists>i. (u, i) \<in> ?L \<and> task_bytes u \<subseteq> block_bytes (u, i)" if "u \<in> set (ts @ [t])" for u
  proof -
    have "task_block ?L u" using wf2 tb(1) that by (auto simp: tasks_wf_def)
    from task_block_bytes [OF rep2 this] show ?thesis by metis
  qed
  have keep: "agree_on (mem s) (mem s') (block_bytes b)" if b: "b \<in> L" "fst b \<notin> set ts" for b
  proof (rule agree_on_trans [OF bspec [OF on b(1)] agree_on_mono [OF lk'(4)]])
    have "block_bytes b \<inter> task_bytes u = {}" if u: "u \<in> set (ts @ [t])" for u
    proof -
      obtain i where i: "(u, i) \<in> ?L" "task_bytes u \<subseteq> block_bytes (u, i)" using blk [OF u] by blast
      have "b \<noteq> (u, i)"
      proof
        assume bu: "b = (u, i)"
        then have "u = t" using b(2) u by auto
        then have "0 < i" using i(2) by (cases "i = 0") (auto simp: block_bytes_def task_bytes_def word_gt_0)
        then show False using rep_inj [OF rep2, of t i j] bu b(1) new(1) km(5) \<open>u = t\<close> by auto
      qed
      then have "block_bytes b \<inter> block_bytes (u, i) = {}" using b(1) i(1) by (intro hp.rep_disjoint [OF rep2]) auto
      then show ?thesis using i(2) by blast
    qed
    then show "block_bytes b \<subseteq> - \<Union> (task_bytes ` set (ts @ [t]))" by blast
  qed
  have same: "heap_wf s' H \<and> live H = ?L" if H: "heap_wf s2 H" for H
  proof
    show live: "live H = ?L" using rep2 heap_wf_unique [OF H] by (auto simp: heap_rep_def)
    have "\<Union> (task_bytes ` set (ts @ [t])) \<subseteq> \<Union> (block_bytes ` live H)"
      unfolding live using blk by (intro UN_least) blast
    then have "- \<Union> (block_bytes ` live H) \<subseteq> - \<Union> (task_bytes ` set (ts @ [t]))" by (rule Compl_anti_mono)
    from agree_on_mono [OF lk'(4) this] have "agree_on (mem s2) (mem s') (- \<Union> (block_bytes ` live H))" by blast
    from heap_write_blocks [OF H this] show "heap_wf s' H" by (simp add: s'_def heap_wf_link)
  qed
  have keep': "\<forall>b \<in> L. fst b \<notin> set ts \<longrightarrow> agree_on (mem s) (mem s') (block_bytes b)" using keep by blast
  have same': "\<forall>H. heap_wf s2 H \<longrightarrow> heap_wf s' H \<and> live H = ?L" using same by blast
  show thesis by (rule that [OF km(1,2) sp tn km(5,6) new lk'(1,3) f info' keep' same'])
qed


text \<open>On a heap with free space at the end of its one page, a task takes its two blocks there.\<close>

definition TASK_STACK_SPACE :: nat where
  "TASK_STACK_SPACE = unat TASK_SIZE + unat STACK_SIZE + 65"

lemma spawn_tail_heap:
  assumes t: "heap_tail s H (TASK_STACK_SPACE + k)"
  shows "spawn_heap s"
proof -
  have "heap_tail s H (unat TASK_SIZE + 32 + Suc (unat STACK_SIZE + 32 + k))"
    using t by (simp add: TASK_STACK_SPACE_def TASK_SIZE_def STACK_SIZE_def)
  then obtain p s1 H1 where km: "kmalloc TASK_SIZE s = Some (Inr (p, s1))" "heap_tail s1 H1 (Suc (unat STACK_SIZE + 32 + k))"
    by (rule kmalloc_tail)
  moreover have "heap_room STACK_SIZE s1" using km(2) by (rule tail_room) simp
  moreover have "heap_room TASK_SIZE s" using t by (rule tail_room) (simp add: TASK_STACK_SPACE_def TASK_SIZE_def)
  ultimately show ?thesis by (simp add: spawn_heap_def)
qed

lemma spawn_tail:
  assumes wf: "tasks_wf s ts (live H)" and t: "heap_tail s H (TASK_STACK_SPACE + k)" and n: "length ts + 1 < 2 ^ 32"
  obtains t s' H' where "spawn_process entry name priority s = Some (Inr (t, s'))" and "t \<notin> set ts"
    and "tasks_wf s' (ts @ [t]) (live H')" and "heap_tail s' H' k"
proof -
  obtain t stack j i s1 s2 s' where sp: "kmalloc TASK_SIZE s = Some (Inr (t, s1))" "kmalloc STACK_SIZE s1 = Some (Inr (stack, s2))"
      "spawn_process entry name priority s = Some (Inr (t, s'))" "t \<notin> set ts" "TASK_SIZE \<le> j" "STACK_SIZE \<le> i"
      "tasks_wf s' (ts @ [t]) (insert (stack, i) (insert (t, j) (live H)))"
      and same: "\<forall>H'. heap_wf s2 H' \<longrightarrow> heap_wf s' H' \<and> live H' = insert (stack, i) (insert (t, j) (live H))"
    by (rule spawn_process_parts [OF wf spawn_tail_heap [OF t] n, of entry name priority]) blast
  have "heap_tail s H (unat TASK_SIZE + 32 + Suc (unat STACK_SIZE + 32 + k))"
    using t by (simp add: TASK_STACK_SPACE_def TASK_SIZE_def STACK_SIZE_def)
  from kmalloc_tail [OF this] sp(1) obtain H1 where "heap_tail s1 H1 (Suc (unat STACK_SIZE + 32 + k))" by auto
  then have "heap_tail s1 H1 (unat STACK_SIZE + 32 + Suc k)" by simp
  from kmalloc_tail [OF this] sp(2) obtain H2 where H2: "heap_tail s2 H2 (Suc k)" by auto
  then have "heap_wf s2 H2" by (auto simp: heap_tail_def)
  then have "heap_tail s' H2 k" and "live H2 = insert (stack, i) (insert (t, j) (live H))"
    using same H2 by (auto simp: heap_tail_def)
  then show thesis using that [OF sp(3,4), of H2] sp(7) by simp
qed

section \<open>Witnesses\<close>

text \<open>Two ready tasks in a heap of one page, the first of them current.\<close>

definition ex_tasks_mem :: memory where
  "ex_tasks_mem = foldl (\<lambda>m (a, v). store32 m a v) (foldl (\<lambda>m (a, v). store64 m a v) (\<lambda>_. 0)
     [(0xffff800000100008, 0xffff800000100020),
      (0xffff800000100020, 0xffff800000100040), (0xffff800000100028, 224), (0xffff800000100038, 0xffff800000100120),
      (0xffff800000100120, 0xffff800000100140), (0xffff800000100128, 0x8000), (0xffff800000100138, 0xffff800000108140),
      (0xffff800000108140, 0xffff800000108160), (0xffff800000108148, 224), (0xffff800000108158, 0xffff800000108240),
      (0xffff800000108240, 0xffff800000108260), (0xffff800000108248, 0x8000),
      (0xffff8000001000e0, 0xffff800000100140), (0xffff8000001000f0, 0xffff800000108160), (0xffff8000001000f8, 0xffff800000108160),
      (0xffff800000108200, 0xffff800000108260), (0xffff800000108210, 0xffff800000100040), (0xffff800000108218, 0xffff800000100040)])
     [(0xffff8000001000e8, 1), (0xffff8000001000ec, 3), (0xffff800000108208, 2), (0xffff80000010820c, 3)]"

definition ex_tasks_heap :: heap_state where
  "ex_tasks_heap = ex_heap\<lparr>mem := ex_tasks_mem, heap := 0xffff800000100000, frames := (\<lambda>k. k < 17), latest_frame := 17\<rparr>"

definition ex_tasks :: task_state where
  "ex_tasks = heap_state.extend ex_tasks_heap
     (task_state.fields 0xffff800000100040 0xffff800000108160 0xffff800000100040 2 3 True)"

definition ex_tasks_H :: "hpage list" where
  "ex_tasks_H = [(0xffff800000100000, 0x10260, [(0xffff800000100020, 224, False), (0xffff800000100120, 0x8000, False),
     (0xffff800000108140, 224, False), (0xffff800000108240, 0x8000, False)])]"

definition ex_ts :: "u64 list" where
  "ex_ts = [0xffff800000100040, 0xffff800000108160]"

lemma load32_zero [simp]: "load32 (\<lambda>_. 0) a = 0"
  by (rule bit_word_eqI) (simp add: bit_load32)

lemma ex_tasks_sel [simp]:
  "mem ex_tasks = ex_tasks_mem" "heap ex_tasks = 0xffff800000100000" "head ex_tasks = 0xffff800000100040"
  "tail ex_tasks = 0xffff800000108160" "current ex_tasks = 0xffff800000100040" "pcount ex_tasks = 2"
  "frames ex_tasks = (\<lambda>k. k < 17)" "available_frames ex_tasks = 64" "base_addr ex_tasks = 0xffff800000100000"
  "latest_frame ex_tasks = 17"
  by (simp_all add: ex_tasks_def ex_tasks_heap_def ex_heap_def ex_paging_def ex_frames_def
      frame_state.defs paging_state.defs heap_state.defs task_state.defs)

lemma frames_from_base:
  assumes fw: "frame_wf s" and k: "\<And>i. i < k \<Longrightarrow> frames s (of_nat i) \<and> of_nat i < available_frames s" and k32: "k < 2 ^ 32"
    and x: "unat (base_addr s) \<le> x" "x < unat (base_addr s) + 4096 * k"
  shows "x \<in> \<Union> (frame_bytes ` taken s)"
proof -
  define n where "n = (x - unat (base_addr s)) div 4096"
  have "x - unat (base_addr s) < k * 4096" using x by simp
  then have n: "n < k" unfolding n_def by (rule less_mult_imp_div_less)
  then have u: "unat (of_nat n :: u32) = n" using k32 by (simp add: unsigned_of_nat take_bit_nat_eq_self)
  have "unat (frame_addr s (of_nat n)) = unat (base_addr s) + 4096 * n"
    using unat_frame_addr [OF fw, of "of_nat n"] k [OF n] u by simp
  then have "x \<in> frame_bytes (frame_addr s (of_nat n))" unfolding frame_bytes_def n_def using x by simp linarith
  then show ?thesis using k [OF n] by (auto simp: taken_def)
qed

lemma ex_tasks_heap_wf: "heap_wf ex_tasks ex_tasks_H"
proof -
  have fw: "frame_wf ex_tasks" by (simp add: frame_wf_def)
  have "pages ex_tasks_mem 0xffff800000100000 ex_tasks_H 0"
    by (simp add: ex_tasks_mem_def ex_tasks_H_def page_at_def header_def mem_simps apart_def one_le_u64)
  moreover have "x \<in> \<Union> (frame_bytes ` taken ex_tasks)" if "x \<in> {0xffff800000100000..<0xffff800000110260}" for x
    by (rule frames_from_base [OF fw, of 17]) (use that in \<open>auto simp: word_less_nat_alt unsigned_of_nat take_bit_nat_eq_self\<close>)
  ultimately show ?thesis
    by (auto simp: heap_wf_def ex_tasks_H_def page_laid_def page_bytes_def frame_wf_def)
qed

lemma ex_tasks_fields [simp]:
  "t_next ex_tasks_mem 0xffff800000100040 = 0xffff800000108160" "t_prev ex_tasks_mem 0xffff800000100040 = 0xffff800000108160"
  "t_next ex_tasks_mem 0xffff800000108160 = 0xffff800000100040" "t_prev ex_tasks_mem 0xffff800000108160 = 0xffff800000100040"
  "t_stack ex_tasks_mem 0xffff800000100040 = 0xffff800000100140" "t_stack ex_tasks_mem 0xffff800000108160 = 0xffff800000108260"
  "t_state ex_tasks_mem 0xffff800000100040 = 3" "t_state ex_tasks_mem 0xffff800000108160 = 3"
  "t_pid ex_tasks_mem 0xffff800000100040 = 1" "t_pid ex_tasks_mem 0xffff800000108160 = 2"
  by (simp_all add: ex_tasks_mem_def task_fields mem_simps apart_def)

lemma ex_tasks_ring: "task_ring ex_tasks ex_ts"
  by (simp add: task_ring_def ex_ts_def ring_def task_sep_def tasks_apart_def apart_def)

lemma ex_tasks_wf: "tasks_wf ex_tasks ex_ts (live ex_tasks_H)"
proof -
  have "heap_rep ex_tasks (live ex_tasks_H)" using ex_tasks_heap_wf by (auto simp: heap_rep_def)
  moreover have "\<forall>t \<in> set ex_ts. task_block (live ex_tasks_H) t \<and> stack_block (live ex_tasks_H) (t_stack ex_tasks_mem t)"
    by (simp add: ex_ts_def ex_tasks_H_def task_block_def stack_block_def TASK_SIZE_def STACK_SIZE_def)
  ultimately show ?thesis using ex_tasks_ring by (simp add: tasks_wf_def) (simp add: ex_ts_def)
qed

lemma ex_alive: "\<forall>u \<in> set ex_ts. alive ex_tasks_mem u" "filter (runnable ex_tasks_mem) ex_ts = ex_ts"
  by (simp_all add: ex_ts_def alive_def runnable_def)

theorem kill_process_correct_witness:
  "\<exists>s'. kill_process 2 ex_tasks = Some s' \<and> task_ring s' ex_ts \<and> t_state (mem s') 0xffff800000108160 = 2 \<and>
     t_state (mem s') 0xffff800000100040 = 3"
  using kill_process_correct [OF ex_tasks_ring, of 2] by (auto simp: ex_ts_def)

theorem process_reports_witness:
  "get_active_count ex_tasks = Some 2 \<and> get_process_count ex_tasks = 2"
  using process_reports [OF ex_tasks_ring] ex_alive(2) by (simp add: ex_ts_def)

theorem start_scheduler_correct_witness:
  "\<exists>e s'. start_scheduler ex_tasks = Some (Some e, s') \<and> current s' = 0xffff800000100040 \<and>
     t_state (mem s') 0xffff800000100040 = 0"
proof -
  have ne: "ex_ts \<noteq> []" and f: "find (runnable ex_tasks_mem) ex_ts = Some 0xffff800000100040"
    by (simp_all add: ex_ts_def runnable_def)
  obtain s' where "start_scheduler ex_tasks = Some (Some (t_rip (mem ex_tasks) 0xffff800000100040), s')"
      "current s' = 0xffff800000100040" "t_state (mem s') 0xffff800000100040 = status_code ACTIVE"
    using start_scheduler_correct [OF ex_tasks_ring ne refl] f by auto
  then show ?thesis by simp
qed

theorem yield_round_robin_witness:
  "\<exists>s'. yields 3 ex_tasks = Some (Inr s') \<and> task_ring s' ex_ts \<and> current s' = 0xffff800000108160"
  using yield_round_robin [OF ex_tasks_ring, of 0 3] ex_alive by (simp add: ex_ts_def flip: numeral_2_eq_2)


theorem cleanup_stops_at_head_witness:
  "\<exists>s' L'. cleanup_terminated (set_state 0xffff800000100040 TERMINATED (set_state 0xffff800000108160 TERMINATED ex_tasks)) =
       Some (Inr s') \<and> tasks_wf s' [0xffff800000108160] L' \<and> \<not> alive (mem s') 0xffff800000108160"
proof -
  let ?s = "set_state 0xffff800000100040 TERMINATED (set_state 0xffff800000108160 TERMINATED ex_tasks)"
  have st: "\<not> alive (mem ?s) 0xffff800000100040" "\<not> alive (mem ?s) 0xffff800000108160"
    by (simp_all add: alive_def set_state_def task_fields mem_simps apart_def)
  have "tasks_wf ?s ex_ts (live ex_tasks_H)"
    by (intro set_state_wf ex_tasks_wf) (simp_all add: ex_ts_def)
  from cleanup_stops_at_head [OF this [unfolded ex_ts_def] st(1) _ st(2)] show ?thesis by auto
qed

theorem kill_current_returns_witness:
  "\<exists>s' L'. kill_current ex_tasks = Some (Inr (None, s')) \<and> tasks_wf s' [0xffff800000108160] L' \<and>
     current s' = 0xffff800000108160"
  using kill_current_returns [OF ex_tasks_wf, of "0xffff800000100040" "0xffff800000108160"]
  by (simp add: ex_ts_def runnable_def)

text \<open>An empty process list on the heap of two pages.\<close>

definition ex_no_tasks :: task_state where
  "ex_no_tasks = heap_state.extend ex_heap_pages (task_state.fields 0 0 0 0 1 False)"

lemma ex_no_tasks_heap: "heap_wf ex_no_tasks ex_H"
  using ex_heap_pages_wf
  by (simp add: heap_wf_def frame_wf_def taken_def frame_addr_def ex_no_tasks_def heap_state.defs task_state.defs)


text \<open>An empty process list on a heap of one page of 17 frames, all of it free.\<close>

definition ex_space_mem :: memory where
  "ex_space_mem = store8 (foldl (\<lambda>m (a, v). store64 m a v) (\<lambda>_. 0)
     [(0xffff800000100008, 0xffff800000100020), (0xffff800000100020, 0xffff800000100040), (0xffff800000100028, 0x10fc0)])
     0xffff800000100030 1"

definition ex_space_H :: "hpage list" where
  "ex_space_H = [(0xffff800000100000, 0x11000, [(0xffff800000100020, 0x10fc0, True)])]"

definition ex_space :: task_state where
  "ex_space = heap_state.extend (ex_tasks_heap\<lparr>mem := ex_space_mem\<rparr>) (task_state.fields 0 0 0 0 1 False)"

lemma ex_space_sel [simp]:
  "mem ex_space = ex_space_mem" "heap ex_space = 0xffff800000100000" "head ex_space = 0" "tail ex_space = 0"
  "current ex_space = 0" "pcount ex_space = 0" "frames ex_space = (\<lambda>k. k < 17)" "available_frames ex_space = 64"
  "base_addr ex_space = 0xffff800000100000" "latest_frame ex_space = 17"
  by (simp_all add: ex_space_def ex_tasks_heap_def ex_heap_def ex_paging_def ex_frames_def
      frame_state.defs paging_state.defs heap_state.defs task_state.defs)

lemma ex_space_wf: "heap_wf ex_space ex_space_H"
proof -
  have fw: "frame_wf ex_space" by (simp add: frame_wf_def)
  have "pages ex_space_mem 0xffff800000100000 ex_space_H 0"
    by (simp add: ex_space_mem_def ex_space_H_def page_at_def header_def mem_simps apart_def one_le_u64)
  moreover have "x \<in> \<Union> (frame_bytes ` taken ex_space)" if "x \<in> {0xffff800000100000..<0xffff800000111000}" for x
    by (rule frames_from_base [OF fw, of 17]) (use that in \<open>auto simp: word_less_nat_alt unsigned_of_nat take_bit_nat_eq_self\<close>)
  ultimately show ?thesis
    by (auto simp: heap_wf_def ex_space_H_def page_laid_def page_bytes_def frame_wf_def)
qed

lemma ex_space_tail: "heap_tail ex_space ex_space_H (TASK_STACK_SPACE + TASK_STACK_SPACE)"
  using ex_space_wf unfolding heap_tail_def
  by (auto simp: ex_space_H_def TASK_STACK_SPACE_def TASK_SIZE_def STACK_SIZE_def)

lemma ex_space_tasks: "tasks_wf ex_space [] (live ex_space_H)"
  using ex_space_wf by (auto simp: tasks_wf_def task_ring_def heap_rep_def)

end
