(* ===== verification/Lifecycle.thy ===== *)
theory Lifecycle
  imports Processes
begin

text \<open>
  The scheduler over its whole life: any sequence of calls of its interface, mixed with writes of the
  tasks of the ring to their own stacks. Every call made in a state reached that way returns. A call of
  \<open>spawn_process\<close> is in the sequence only where the heap has room for it, and a task that has been
  unlinked writes nothing any more.
\<close>

section \<open>The calls\<close>

datatype sched_call =
  Spawn_process u64 u64 u32
| Kill_process u32
| Kill_current
| Yield
| Sleep u64
| Start_scheduler
| Stop_scheduler

primrec run_call :: "sched_call \<Rightarrow> 'a task_state_scheme \<Rightarrow> (fault + 'a task_state_scheme) option" where
  "run_call (Spawn_process entry name priority) s =
     then_do (spawn_process entry name priority s) (\<lambda>(_, s'). Some (Inr s'))"
| "run_call (Kill_process pid) s = (case kill_process pid s of None \<Rightarrow> None | Some s' \<Rightarrow> Some (Inr s'))"
| "run_call Kill_current s = then_do (kill_current s) (\<lambda>(_, s'). Some (Inr s'))"
| "run_call Yield s = then_do (yield_task s) (\<lambda>(_, s'). Some (Inr s'))"
| "run_call (Sleep ticks) s = then_do (sleep_task ticks s) (\<lambda>(_, s'). Some (Inr s'))"
| "run_call Start_scheduler s = (case start_scheduler s of None \<Rightarrow> None | Some (_, s') \<Rightarrow> Some (Inr s'))"
| "run_call Stop_scheduler s = Some (Inr (stop_scheduler s))"

text \<open>
  A new task needs room on the heap for its control block and its stack, each in a free segment or in a page of
  unused frames, and a count that does not wrap. With a heap page for every stack that holds for one task only,
  since the frame allocator makes the next such page overlap the last; with free segments it holds
  as long as they last.
\<close>

definition spawn_room :: "'a task_state_scheme \<Rightarrow> bool" where
  "spawn_room s \<longleftrightarrow> spawn_heap s \<and> unat (pcount s) + 1 < 2 ^ 32"

fun call_ready :: "sched_call \<Rightarrow> 'a task_state_scheme \<Rightarrow> bool" where
  "call_ready (Spawn_process entry name priority) s = spawn_room s"
| "call_ready c s = True"

definition stack_bytes :: "memory \<Rightarrow> u64 \<Rightarrow> nat set" where
  "stack_bytes m t = {unat (t_stack m t)..<unat (t_stack m t) + unat STACK_SIZE}"

inductive sched_step :: "'a task_state_scheme \<Rightarrow> 'a task_state_scheme \<Rightarrow> bool" where
  step_call: "call_ready c s \<Longrightarrow> run_call c s = Some (Inr s') \<Longrightarrow> sched_step s s'"
| step_stack: "task_ring s ts \<Longrightarrow> t \<in> set ts \<Longrightarrow> agree_on (mem s) m (- stack_bytes (mem s) t) \<Longrightarrow> sched_step s (s\<lparr>mem := m\<rparr>)"

inductive_cases sched_stepE [elim]: "sched_step s s'"

section \<open>Each operation\<close>

definition sched_wf :: "'a task_state_scheme \<Rightarrow> bool" where
  "sched_wf s \<longleftrightarrow> (\<exists>ts L. tasks_wf s ts L)"

lemma sched_wfI [intro]: "tasks_wf s ts L \<Longrightarrow> sched_wf s"
  by (auto simp: sched_wf_def)

lemma tasks_wf_ring: "tasks_wf s ts L \<Longrightarrow> task_ring s ts"
  by (simp add: tasks_wf_def)

lemma tasks_wf_current:
  assumes "tasks_wf s ts L" and "t \<in> set ts"
  shows "tasks_wf (s\<lparr>current := t\<rparr>) ts L"
  using assms by (simp add: tasks_wf_def task_ring_def)

lemma tasks_wf_running [simp]: "tasks_wf (s\<lparr>scheduler_running := b\<rparr>) ts L = tasks_wf s ts L"
  by (simp add: tasks_wf_def task_ring_def heap_rep_def heap_wf_def frame_wf_def taken_def frame_addr_def)

lemma activate_wf: "tasks_wf s ts L \<Longrightarrow> t \<in> set ts \<Longrightarrow> tasks_wf (set_state t ACTIVE (s\<lparr>current := t\<rparr>)) ts L"
  by (intro set_state_wf tasks_wf_current)

lemma cleanup_wf:
  assumes wf: "tasks_wf s ts L"
  obtains s' ts' L' where "cleanup_terminated s = Some (Inr s')" and "tasks_wf s' ts' L'"
proof (cases ts)
  case Nil
  then have "head s = 0" using wf by (simp add: tasks_wf_def task_ring_def)
  then show thesis using that [OF _ wf] by (simp add: cleanup_terminated_def)
next
  case (Cons h us)
  show thesis
  proof (cases "alive (mem s) h")
    case True
    obtain F G where sp: "heap_split s F G" "L = F \<union> G" using tasks_wf_split [OF wf] .
    from cleanup_alive_head [OF wf [unfolded Cons sp(2)] sp(1) True] that show thesis by blast
  next
    case False
    then show thesis using cleanup_head [OF wf [unfolded Cons] False] that by metis
  qed
qed

lemma yield_wf:
  assumes "tasks_wf s ts L"
  obtains e s' ts' L' where "yield_task s = Some (Inr (e, s'))" and "tasks_wf s' ts' L'"
proof -
  obtain s1 us M where c: "cleanup_terminated s = Some (Inr s1)" and wf: "tasks_wf s1 us M"
    using cleanup_wf [OF assms] .
  show thesis
  proof (cases "current s1 = 0 \<or> pcount s1 = 0")
    case True
    then have "yield_task s = Some (Inr (None, s1))" using c by (simp add: yield_task_def)
    then show thesis using wf by (rule that)
  next
    case False
    then have "current s1 \<in> set us" using tasks_wf_ring [OF wf] by (auto simp: task_ring_def)
    then obtain xs ys where us: "us = xs @ current s1 # ys" by (meson split_list)
    let ?r = "find (runnable (mem s1)) (ys @ xs)"
    have y: "yield_task s = Some (Inr (yield_to ?r s1))"
      using c False yield_search [OF tasks_wf_ring [OF wf, unfolded us] refl] by (simp add: yield_task_def)
    show thesis
    proof (cases ?r)
      case None
      then show thesis using that [OF _ wf] y by (simp add: yield_to_def)
    next
      case (Some u)
      then have "u \<in> set us" using find_in_set [OF Some] us by auto
      then show thesis using that [OF _ activate_wf [OF wf]] y Some by (simp add: yield_to_def)
    qed
  qed
qed

lemma yield_after_wf:
  assumes wf: "tasks_wf s ts L" and c: "current s \<noteq> 0"
  obtains e s' ts' L' where "yield_task (set_state (current s) st s) = Some (Inr (e, s'))" and "tasks_wf s' ts' L'"
proof -
  have "current s \<in> set ts" using tasks_wf_ring [OF wf] c by (auto simp: task_ring_def)
  from yield_wf [OF set_state_wf [OF wf this]] that show thesis .
qed

lemma kill_process_wf:
  assumes wf: "tasks_wf s ts L"
  obtains s' where "kill_process pid s = Some s'" and "tasks_wf s' ts L"
proof -
  note ring = tasks_wf_ring [OF wf]
  show thesis
  proof (cases "find (\<lambda>u. t_pid (mem s) u = pid) ts")
    case None
    then show thesis using that [OF _ wf] by (simp add: kill_process_def get_by_pid_ring [OF ring])
  next
    case (Some u)
    then have u: "u \<in> set ts" by (rule find_in_set)
    then have "u \<noteq> 0" using ring by (auto simp: task_ring_def)
    then show thesis using that [OF _ set_state_wf [OF wf u]] Some
      by (simp add: kill_process_def get_by_pid_ring [OF ring])
  qed
qed

lemma start_scheduler_wf:
  assumes wf: "tasks_wf s ts L"
  obtains e s' where "start_scheduler s = Some (e, s')" and "tasks_wf s' ts L"
proof (cases ts)
  case Nil
  then have "unat (pcount s) = 0" using tasks_wf_ring [OF wf] by (simp add: task_ring_def)
  then have "pcount s = 0" by (simp add: unat_eq_zero)
  then show thesis using that [OF _ wf] by (simp add: start_scheduler_def)
next
  case (Cons h ys)
  note ring = tasks_wf_ring [OF wf]
  have h: "head s = h" "pcount s \<noteq> 0" "nexts (mem s) (h # ys) h" "h \<notin> set ys" "0 \<notin> set (h # ys)"
    using ring task_ring_ne [OF _ ring] Cons by (auto simp: task_ring_def ring_def)
  define t where "t = (case find (runnable (mem s)) (h # ys) of None \<Rightarrow> h | Some u \<Rightarrow> u)"
  have t: "t \<in> set ts" unfolding t_def using find_in_set [of "runnable (mem s)" "h # ys"] Cons
    by (auto split: option.split)
  then have "t \<noteq> 0" using h(5) Cons by auto
  moreover have "start_loop (mem s) h h = Some t" unfolding t_def by (rule start_loop_ring) (use h in auto)
  moreover have "tasks_wf (set_state t ACTIVE ((s\<lparr>scheduler_running := True\<rparr>)\<lparr>current := t\<rparr>)) ts L"
    using wf t by (intro activate_wf) simp_all
  ultimately show thesis using that h by (simp add: start_scheduler_def Let_def)
qed

lemma spawn_wf:
  assumes wf: "tasks_wf s ts L" and room: "spawn_room s"
  obtains t s' ts' L' where "spawn_process entry name priority s = Some (Inr (t, s'))" and "tasks_wf s' ts' L'"
proof -
  have "spawn_heap s" and n: "unat (pcount s) + 1 < 2 ^ 32" using room by (simp_all add: spawn_room_def)
  have "length ts + 1 < 2 ^ 32" using n tasks_wf_ring [OF wf] by (simp add: task_ring_def)
  from spawn_process_parts [OF wf \<open>spawn_heap s\<close> this, of entry name priority] show thesis
    using that by metis
qed

text \<open>A call in a well-formed state returns, in a well-formed state.\<close>

lemma call_returns:
  assumes "sched_wf s" and ready: "call_ready c s"
  obtains s' where "run_call c s = Some (Inr s')" and "sched_wf s'"
proof -
  obtain ts L where wf: "tasks_wf s ts L" using assms(1) by (auto simp: sched_wf_def)
  show thesis
  proof (cases c)
    case (Spawn_process entry name priority)
    then have room: "spawn_room s" using ready by simp
    show thesis by (rule spawn_wf [OF wf room, of entry name priority]) (use Spawn_process that in auto)
  next
    case (Kill_process pid)
    show thesis by (rule kill_process_wf [OF wf, of pid]) (use Kill_process that in auto)
  next
    case Kill_current
    show thesis
    proof (cases "current s = 0")
      case False
      show thesis by (rule yield_after_wf [OF wf False, of TERMINATED])
        (use False Kill_current that in \<open>auto simp: kill_current_def\<close>)
    qed (use that wf Kill_current in \<open>auto simp: kill_current_def\<close>)
  next
    case Yield
    show thesis by (rule yield_wf [OF wf]) (use Yield that in auto)
  next
    case (Sleep ticks)
    show thesis
    proof (cases "current s = 0")
      case False
      show thesis by (rule yield_after_wf [OF wf False, of WAITING])
        (use False Sleep that in \<open>auto simp: sleep_task_def\<close>)
    qed (use that wf Sleep in \<open>auto simp: sleep_task_def\<close>)
  next
    case Start_scheduler
    show thesis by (rule start_scheduler_wf [OF wf]) (use Start_scheduler that in auto)
  next
    case Stop_scheduler
    have "sched_wf (stop_scheduler s)" by (rule sched_wfI [of _ ts L]) (simp add: stop_scheduler_def wf)
    then show thesis using that Stop_scheduler by simp
  qed
qed

text \<open>The stack of a task holds none of the control blocks.\<close>

lemma nexts_unique:
  "length xs = length ys \<Longrightarrow> nexts m xs e \<Longrightarrow> nexts m ys e' \<Longrightarrow> xs \<noteq> [] \<Longrightarrow> hd xs = hd ys \<Longrightarrow> xs = ys"
proof (induction xs ys rule: list_induct2)
  case (Cons x xs y ys)
  show ?case
  proof (cases "xs = []")
    case False
    then have "ys \<noteq> []" using Cons.hyps by auto
    then have "hd xs = hd ys" using Cons.prems False by simp
    then show ?thesis using Cons.IH Cons.prems False by simp
  qed (use Cons in simp)
qed simp

lemma task_ring_unique:
  assumes "task_ring s ts" and "task_ring s us"
  shows "ts = us"
proof (cases "ts = []")
  case False
  have "length ts = length us" using assms by (simp add: task_ring_def)
  moreover have "us \<noteq> []" using calculation False by auto
  ultimately show ?thesis using assms False nexts_unique [of ts us "mem s" "hd ts" "hd us"]
    by (auto simp: task_ring_def ring_def)
qed (use assms in \<open>auto simp: task_ring_def\<close>)

lemma stack_write_wf:
  assumes wf: "tasks_wf s ts L" and ct: "c \<in> set ts" and on: "agree_on (mem s) m (- stack_bytes (mem s) c)"
  shows "tasks_wf (s\<lparr>mem := m\<rparr>) ts L"
proof -
  note ring = tasks_wf_ring [OF wf]
  have rep: "heap_rep s L" using wf by (simp add: tasks_wf_def)
  have "stack_block L (t_stack (mem s) c)" using wf ct by (simp add: tasks_wf_def)
  then obtain k where k: "(t_stack (mem s) c, k) \<in> L" "STACK_SIZE \<le> k" by (auto simp: stack_block_def)
  let ?b = "(t_stack (mem s) c, k)"
  have on': "agree_on (mem s) m (- block_bytes ?b)"
    using k(2) by (intro agree_on_mono [OF on]) (auto simp: stack_bytes_def block_bytes_def word_le_nat_alt)
  have same: "task_info m u = task_info (mem s) u \<and> t_next m u = t_next (mem s) u \<and> t_prev m u = t_prev (mem s) u"
    if u: "u \<in> set ts" for u
  proof -
    have "task_block L u" using wf u by (simp add: tasks_wf_def)
    then obtain n where n: "(u, n) \<in> L" "task_bytes u \<subseteq> block_bytes (u, n)" "unat u + 224 < 2 ^ 64"
      by (rule task_block_bytes [OF rep])
    have "u \<noteq> t_stack (mem s) c" using wf u ct by (auto simp: tasks_wf_def)
    then have "block_bytes (u, n) \<inter> block_bytes ?b = {}" using n(1) k(1) by (intro hp.rep_disjoint [OF rep]) auto
    then have "agree_on (mem s) m (task_bytes u)" using n(2) by (intro agree_on_mono [OF on']) blast
    from task_on [OF this n(3)] show ?thesis by simp
  qed
  then have st: "t_stack m u = t_stack (mem s) u" if "u \<in> set ts" for u using that info_fields by blast
  have "map (t_stack m) ts = map (t_stack (mem s)) ts" using st by (intro map_cong) auto
  then have "distinct (ts @ map (t_stack m) ts)" using wf unfolding tasks_wf_def by metis
  moreover have "heap_rep (s\<lparr>mem := m\<rparr>) L" using hp.rep_write [OF rep k(1) on'] .
  moreover have "task_ring (s\<lparr>mem := m\<rparr>) ts" using task_ring_on [OF ring] same by blast
  moreover have "\<forall>u \<in> set ts. task_block L u \<and> stack_block L (t_stack m u)" using wf st by (simp add: tasks_wf_def)
  ultimately show ?thesis by (simp add: tasks_wf_def)
qed

interpretation sched: step_invariant sched_step sched_wf
proof
  fix s s' :: "'a task_state_scheme"
  assume "sched_step s s'" and "sched_wf s"
  then show "sched_wf s'"
  proof cases
    case (step_call c)
    then show ?thesis using call_returns [OF \<open>sched_wf s\<close> step_call(1)] by auto
  next
    case (step_stack ts t m)
    obtain us L where wf: "tasks_wf s us L" using \<open>sched_wf s\<close> by (auto simp: sched_wf_def)
    have "us = ts" using task_ring_unique tasks_wf_ring [OF wf] step_stack(2) by blast
    then show ?thesis using stack_write_wf [OF wf] step_stack by blast
  qed
qed

section \<open>Type soundness\<close>



end
