(* ===== verification/Mapper.thy ===== *)
theory Mapper
  imports Paging
begin

unbundle bit_operations_syntax

text \<open>
  The initial address space, \<open>include/mem/mapper.h\<close>, \<open>kernel/mem/map/mapper.cc\<close> and the function
  \<open>Mem::Paging::init\<close> of \<open>kernel/mem/paging/paging.cc\<close> that calls it: the regions of the memory map
  are mapped at the higher half, the sections of the kernel image at their link addresses, and the
  new tables are installed.

  The section boundaries are symbols of the linker script and a parameter of the model.
\<close>

section \<open>Operations\<close>

record linker_symbols =
  text_start_ld :: u64
  text_end_ld :: u64
  rodata_start_ld :: u64
  rodata_end_ld :: u64
  data_start_ld :: u64
  data_end_ld :: u64

text \<open>One of the three loops of \<open>map_kernel_code\<close>.\<close>

definition map_section ::
    "u64 \<Rightarrow> u64 \<Rightarrow> u64 \<Rightarrow> u64 \<Rightarrow> u64 \<Rightarrow> 'a paging_state_scheme \<Rightarrow> (fault + 'a paging_state_scheme) option" where
  "map_section phys_base virt_base sec_start sec_end flags =
     for_loop (\<lambda>a. Paging_map (a - virt_base + phys_base) a flags) FRAME_SIZE sec_start sec_end"

definition map_kernel_code ::
    "linker_symbols \<Rightarrow> 'a paging_state_scheme \<Rightarrow> (fault + 'a paging_state_scheme) option" where
  "map_kernel_code ld s =
     (let phys_base = kern_address_phys s;
          virt_base = kern_address_virt s;
          text_start = ALIGN_DOWN (text_start_ld ld) FRAME_SIZE;
          text_end = ALIGN_UP (text_end_ld ld) FRAME_SIZE;
          rodata_start = ALIGN_DOWN (rodata_start_ld ld) FRAME_SIZE;
          rodata_end = ALIGN_UP (rodata_end_ld ld) FRAME_SIZE;
          data_start = ALIGN_DOWN (data_start_ld ld) FRAME_SIZE;
          data_end = ALIGN_UP (data_end_ld ld) FRAME_SIZE
      in then_do (map_section phys_base virt_base text_start text_end (PAGE_PRESENT OR PAGE_USER) s) (\<lambda>s1.
         then_do (map_section phys_base virt_base rodata_start rodata_end
                    (PAGE_PRESENT OR PAGE_NX OR PAGE_USER) s1) (\<lambda>s2.
         map_section phys_base virt_base data_start data_end
           (PAGE_PRESENT OR PAGE_WRITE OR PAGE_NX OR PAGE_USER) s2)))"

text \<open>The loop over the pages of one memory map entry.\<close>

definition map_entry ::
    "limine_memmap_entry \<Rightarrow> 'a paging_state_scheme \<Rightarrow> (fault + 'a paging_state_scheme) option" where
  "map_entry entry s =
     (let vaddr = PHYS2VIRT s (me_base entry); paddr = me_base entry; pages = me_length entry div FRAME_SIZE
      in for_loop (\<lambda>page. Paging_map (paddr + page * FRAME_SIZE) (vaddr + page * FRAME_SIZE)
                            (PAGE_PRESENT OR PAGE_WRITE OR PAGE_USER)) 1 0 pages s)"

primrec map_entries ::
    "memmap_type \<Rightarrow> limine_memmap_entry list \<Rightarrow> 'a paging_state_scheme \<Rightarrow> (fault + 'a paging_state_scheme) option" where
  "map_entries ty [] s = Some (Inr s)"
| "map_entries ty (e # es) s =
     (if me_type e \<noteq> ty then map_entries ty es s
      else then_do (map_entry e s) (map_entries ty es))"

definition map_found_memory :: "'a paging_state_scheme \<Rightarrow> (fault + 'a paging_state_scheme) option" where
  "map_found_memory s = map_entries LIMINE_MEMMAP_USABLE (memmap_entries s) s"

definition map_hhdm_memory :: "'a paging_state_scheme \<Rightarrow> (fault + 'a paging_state_scheme) option" where
  "map_hhdm_memory s = map_entries LIMINE_MEMMAP_USABLE (memmap_entries s) s"

definition map_bootloader_memory :: "'a paging_state_scheme \<Rightarrow> (fault + 'a paging_state_scheme) option" where
  "map_bootloader_memory s = map_entries LIMINE_MEMMAP_BOOTLOADER_RECLAIMABLE (memmap_entries s) s"

definition map_framebuffer_memory :: "'a paging_state_scheme \<Rightarrow> (fault + 'a paging_state_scheme) option" where
  "map_framebuffer_memory s = map_entries LIMINE_MEMMAP_FRAMEBUFFER (memmap_entries s) s"

definition full_map ::
    "linker_symbols \<Rightarrow> 'a paging_state_scheme \<Rightarrow> (fault + 'a paging_state_scheme) option" where
  "full_map ld s =
     then_do (map_bootloader_memory s) (\<lambda>s.
     then_do (map_framebuffer_memory s) (\<lambda>s.
     then_do (map_found_memory s) (\<lambda>s.
     then_do (map_hhdm_memory s) (map_kernel_code ld))))"

definition Paging_init ::
    "linker_symbols \<Rightarrow> 'a paging_state_scheme \<Rightarrow> (fault + 'a paging_state_scheme) option" where
  "Paging_init ld s =
     (let (p, s1) = Frame_alloc s; s2 = s1\<lparr>pml4 := p\<rparr> in
      if p = 0 then Some (Inl NullDeref)
      else then_do (full_map ld (s2\<lparr>mem := memset (mem s2) p 0 FRAME_SIZE\<rparr>)) (\<lambda>s3.
             Some (Inr (enable_paging (load_cr3 (pml4 s3) s3)))))"

section \<open>The requests\<close>

text \<open>The calls of \<open>map\<close> the loops make, as lists.\<close>

definition entry_requests :: "u64 \<Rightarrow> limine_memmap_entry \<Rightarrow> (u64 \<times> u64 \<times> u64) list" where
  "entry_requests h e =
     map (\<lambda>k. (me_base e + of_nat k * FRAME_SIZE, h + me_base e + of_nat k * FRAME_SIZE,
               PAGE_PRESENT OR PAGE_WRITE OR PAGE_USER)) [0..<unat (me_length e) div 4096]"

definition type_requests :: "u64 \<Rightarrow> memmap_type \<Rightarrow> limine_memmap_entry list \<Rightarrow> (u64 \<times> u64 \<times> u64) list" where
  "type_requests h ty es = concat (map (entry_requests h) (filter (\<lambda>e. me_type e = ty) es))"

definition section_requests :: "u64 \<Rightarrow> u64 \<Rightarrow> u64 \<Rightarrow> u64 \<Rightarrow> u64 \<Rightarrow> (u64 \<times> u64 \<times> u64) list" where
  "section_requests pb vb a b flags = map (\<lambda>x. (x - vb + pb, x, flags)) (for_range FRAME_SIZE a b)"

text \<open>The page aligned sections with the permissions their pages get.\<close>

definition kernel_sections :: "linker_symbols \<Rightarrow> (u64 \<times> u64 \<times> u64) list" where
  "kernel_sections ld =
     [(ALIGN_DOWN (text_start_ld ld) FRAME_SIZE, ALIGN_UP (text_end_ld ld) FRAME_SIZE,
       PAGE_PRESENT OR PAGE_USER),
      (ALIGN_DOWN (rodata_start_ld ld) FRAME_SIZE, ALIGN_UP (rodata_end_ld ld) FRAME_SIZE,
       PAGE_PRESENT OR PAGE_NX OR PAGE_USER),
      (ALIGN_DOWN (data_start_ld ld) FRAME_SIZE, ALIGN_UP (data_end_ld ld) FRAME_SIZE,
       PAGE_PRESENT OR PAGE_WRITE OR PAGE_NX OR PAGE_USER)]"

definition kernel_requests :: "linker_symbols \<Rightarrow> u64 \<Rightarrow> u64 \<Rightarrow> (u64 \<times> u64 \<times> u64) list" where
  "kernel_requests ld pb vb =
     concat (map (\<lambda>(a, b, flags). section_requests pb vb a b flags) (kernel_sections ld))"

definition memory_requests :: "u64 \<Rightarrow> limine_memmap_entry list \<Rightarrow> (u64 \<times> u64 \<times> u64) list" where
  "memory_requests h es =
     type_requests h LIMINE_MEMMAP_BOOTLOADER_RECLAIMABLE es @ type_requests h LIMINE_MEMMAP_FRAMEBUFFER es @
     type_requests h LIMINE_MEMMAP_USABLE es @ type_requests h LIMINE_MEMMAP_USABLE es"

text \<open>What \<open>map\<close> leaves of the boot context.\<close>

lemma pml_next_boot:
  "pml_next t i s = Inr (t', s') \<Longrightarrow>
   memmap_entries s' = memmap_entries s \<and> hhdm_addr s' = hhdm_addr s \<and>
   kern_address_phys s' = kern_address_phys s \<and> kern_address_virt s' = kern_address_virt s"
  by (auto simp: pml_next_def Frame_alloc_def Let_def split: if_splits)

lemma Paging_map_boot:
  "Paging_map p v f s = Inr s' \<Longrightarrow>
   memmap_entries s' = memmap_entries s \<and> hhdm_addr s' = hhdm_addr s \<and>
   kern_address_phys s' = kern_address_phys s \<and> kern_address_virt s' = kern_address_virt s"
  by (auto simp: Paging_map_def pml1_set_def flush_tlb_def Let_def dest!: pml_next_boot split: sum.splits if_splits)

lemma map_all_boot:
  "pg.map_all rs s = Inr s' \<Longrightarrow>
   memmap_entries s' = memmap_entries s \<and> hhdm_addr s' = hhdm_addr s \<and>
   kern_address_phys s' = kern_address_phys s \<and> kern_address_virt s' = kern_address_virt s"
  by (induction rs arbitrary: s) (auto simp: pg.map_all_def dest!: Paging_map_boot split: sum.splits)

text \<open>What \<open>map\<close> leaves of the frame allocator and of the state above the page tables.\<close>

definition frames_kept :: "'a paging_state_scheme \<Rightarrow> 'a paging_state_scheme \<Rightarrow> bool" where
  "frames_kept s s' \<longleftrightarrow> available_frames s' = available_frames s \<and> base_addr s' = base_addr s \<and>
     paging_state.more s' = paging_state.more s \<and> (frame_wf s \<longrightarrow> frame_wf s' \<and> (ahead_free s \<longrightarrow> ahead_free s'))"

lemma frames_kept_refl [simp]: "frames_kept s s"
  by (simp add: frames_kept_def)

lemma frames_kept_trans: "frames_kept s s' \<Longrightarrow> frames_kept s' s'' \<Longrightarrow> frames_kept s s''"
  by (auto simp: frames_kept_def)

lemma ahead_free_fields [simp]:
  "ahead_free (s\<lparr>mem := m\<rparr>) = ahead_free s" "ahead_free (s\<lparr>tlb := b\<rparr>) = ahead_free s" "ahead_free (s\<lparr>pml4 := p\<rparr>) = ahead_free s"
  "ahead_free (s\<lparr>cr0 := p\<rparr>) = ahead_free s" "ahead_free (s\<lparr>cr3 := p\<rparr>) = ahead_free s" "ahead_free (s\<lparr>cr4 := p\<rparr>) = ahead_free s"
  by (simp_all add: ahead_free_def frontier_def)

lemma frame_wf_fields [simp]:
  "frame_wf (s\<lparr>tlb := b\<rparr>) = frame_wf s" "frame_wf (s\<lparr>pml4 := p\<rparr>) = frame_wf s"
  "frame_wf (s\<lparr>cr0 := p\<rparr>) = frame_wf s" "frame_wf (s\<lparr>cr3 := p\<rparr>) = frame_wf s" "frame_wf (s\<lparr>cr4 := p\<rparr>) = frame_wf s"
  by (simp_all add: frame_wf_def)

lemma frames_kept_fields [simp]:
  "frames_kept s (s'\<lparr>mem := m\<rparr>) = frames_kept s s'" "frames_kept s (s'\<lparr>tlb := b\<rparr>) = frames_kept s s'"
  "frames_kept s (s'\<lparr>cr0 := p\<rparr>) = frames_kept s s'" "frames_kept s (s'\<lparr>cr3 := p\<rparr>) = frames_kept s s'"
  "frames_kept s (s'\<lparr>cr4 := p\<rparr>) = frames_kept s s'"
  "frames_kept (s\<lparr>mem := m\<rparr>) s' = frames_kept s s'" "frames_kept (s\<lparr>pml4 := p\<rparr>) s' = frames_kept s s'"
  by (simp_all add: frames_kept_def)

lemma Frame_alloc_kept: "Frame_alloc s = (p, s') \<Longrightarrow> frames_kept s s'"
  using fa.alloc_inv [of s p s'] alloc_ahead_free [of s p s']
  by (auto simp: frames_kept_def Frame_alloc_def Let_def split: if_splits)

lemma pml_next_kept: "pml_next t i s = Inr (q, s') \<Longrightarrow> frames_kept s s'"
  by (auto simp: pml_next_def Let_def split: if_splits prod.splits dest: Frame_alloc_kept)

lemma pml1_set_kept: "pml1_set t i e s = Inr s' \<Longrightarrow> frames_kept s s'"
  by (auto simp: pml1_set_def flush_tlb_def Let_def split: if_splits)

lemma Paging_map_kept: "Paging_map p v f s = Inr s' \<Longrightarrow> frames_kept s s'"
  by (auto simp: Paging_map_def split: sum.splits prod.splits dest!: pml_next_kept pml1_set_kept intro: frames_kept_trans)

lemma map_all_kept: "pg.map_all rs s = Inr s' \<Longrightarrow> frames_kept s s'"
proof (induction rs arbitrary: s)
  case (Cons r rs)
  then show ?case
    by (auto simp: pg.map_all_def split: sum.splits prod.splits dest!: Paging_map_kept intro: frames_kept_trans)
qed (simp add: pg.map_all_def)

lemma map_all_then:
  assumes "\<And>s'. pg.map_all rs s = Inr s' \<Longrightarrow> g s' = Some (pg.map_all rs' s')"
  shows "then_do (Some (pg.map_all rs s)) g = Some (pg.map_all (rs @ rs') s)"
  using assms by (simp add: pg.map_all_def run_list_append then_do_def split: sum.split)

lemma map_entry_requests:
  "map_entry e s = Some (pg.map_all (entry_requests (hhdm_addr s) e) s)"
proof -
  have fits: "unat (me_length e div FRAME_SIZE) + 1 \<le> 2 ^ 64"
    using unsigned_less [of "me_length e div FRAME_SIZE", where 'a = nat] by simp
  have "for_range 1 0 (me_length e div FRAME_SIZE) = map of_nat [0..<unat (me_length e) div 4096]"
    by (simp add: for_range_def unat_div)
  then show ?thesis
    using fits unfolding map_entry_def Let_def
    by (subst for_loop_run) (simp_all add: pg.map_all_def entry_requests_def run_list_map PHYS2VIRT_def add.assoc)
qed

lemma map_entries_requests:
  "map_entries ty es s = Some (pg.map_all (type_requests (hhdm_addr s) ty es) s)"
proof (induction es arbitrary: s)
  case (Cons e es)
  show ?case
  proof (cases "me_type e = ty")
    case True
    have "then_do (map_entry e s) (map_entries ty es) =
        Some (pg.map_all (entry_requests (hhdm_addr s) e @ type_requests (hhdm_addr s) ty es) s)"
      unfolding map_entry_requests by (rule map_all_then) (simp add: Cons map_all_boot)
    with True show ?thesis by (simp add: type_requests_def)
  qed (simp add: Cons type_requests_def)
qed (simp add: type_requests_def pg.map_all_def)

lemma ALIGN_UP_aligned: "4096 dvd unat (ALIGN_UP x FRAME_SIZE)"
  and ALIGN_DOWN_aligned: "4096 dvd unat (ALIGN_DOWN x FRAME_SIZE)"
proof -
  have "4096 dvd unat (w * FRAME_SIZE :: u64)" for w
    by (simp add: unat_word_ariths) (intro dvd_mod; simp)
  then show "4096 dvd unat (ALIGN_UP x FRAME_SIZE)" and "4096 dvd unat (ALIGN_DOWN x FRAME_SIZE)"
    by (simp_all add: ALIGN_UP_def ALIGN_DOWN_def)
qed

lemma aligned_fits:
  assumes "4096 dvd unat (b :: u64)"
  shows "unat b + unat (FRAME_SIZE :: u64) \<le> 2 ^ 64"
proof -
  obtain q where q: "unat b = 4096 * q" using assms by auto
  have "unat b < 2 ^ 64" using unsigned_less [of b, where 'a = nat] by simp
  then show ?thesis using q by simp
qed

lemma map_section_requests:
  "4096 dvd unat b \<Longrightarrow>
   map_section pb vb a b flags s = Some (pg.map_all (section_requests pb vb a b flags) s)"
  unfolding map_section_def
  by (subst for_loop_run) (use aligned_fits in \<open>simp_all add: pg.map_all_def section_requests_def run_list_map\<close>)

lemma map_kernel_code_requests:
  "map_kernel_code ld s = Some (pg.map_all (kernel_requests ld (kern_address_phys s) (kern_address_virt s)) s)"
  unfolding map_kernel_code_def Let_def kernel_requests_def kernel_sections_def
  by (simp add: map_section_requests ALIGN_UP_aligned map_all_then)

text \<open>
  \<open>full_map\<close> always ends, and is the mapping of its requests one after the other.
\<close>

lemma full_map_requests:
  "full_map ld s = Some (pg.map_all (memory_requests (hhdm_addr s) (memmap_entries s) @
                           kernel_requests ld (kern_address_phys s) (kern_address_virt s)) s)"
  unfolding full_map_def map_bootloader_memory_def map_framebuffer_memory_def map_found_memory_def
    map_hhdm_memory_def map_entries_requests memory_requests_def append_assoc
  by (intro map_all_then) (simp add: map_all_then map_all_boot map_kernel_code_requests)

section \<open>The initial address space\<close>

text \<open>
  The layout of the address space at boot: the higher half map starts at the first address of the
  upper canonical half, the regions that are mapped are page aligned and end below 64 TiB, and the
  page aligned sections of the kernel image follow one another in the top 2 GiB.
\<close>

abbreviation HHDM_BASE :: u64 where "HHDM_BASE \<equiv> 0xffff800000000000"
abbreviation KERNEL_BASE :: u64 where "KERNEL_BASE \<equiv> 0xffffffff80000000"

definition mapped_type :: "memmap_type \<Rightarrow> bool" where
  "mapped_type ty \<longleftrightarrow> ty = LIMINE_MEMMAP_USABLE \<or> ty = LIMINE_MEMMAP_BOOTLOADER_RECLAIMABLE \<or>
                   ty = LIMINE_MEMMAP_FRAMEBUFFER"

definition entry_ok :: "limine_memmap_entry \<Rightarrow> bool" where
  "entry_ok e \<longleftrightarrow> unat (me_base e) mod 4096 = 0 \<and> unat (me_base e) + unat (me_length e) \<le> 2 ^ 46"

definition sections_ok :: "linker_symbols \<Rightarrow> bool" where
  "sections_ok ld \<longleftrightarrow>
     KERNEL_BASE \<le> ALIGN_DOWN (text_start_ld ld) FRAME_SIZE \<and>
     KERNEL_BASE \<le> ALIGN_DOWN (rodata_start_ld ld) FRAME_SIZE \<and>
     ALIGN_UP (text_end_ld ld) FRAME_SIZE \<le> ALIGN_DOWN (rodata_start_ld ld) FRAME_SIZE \<and>
     ALIGN_UP (text_end_ld ld) FRAME_SIZE \<le> ALIGN_DOWN (data_start_ld ld) FRAME_SIZE \<and>
     ALIGN_UP (rodata_end_ld ld) FRAME_SIZE \<le> ALIGN_DOWN (data_start_ld ld) FRAME_SIZE \<and>
     KERNEL_BASE \<le> ALIGN_DOWN (data_start_ld ld) FRAME_SIZE"

definition boot_layout :: "linker_symbols \<Rightarrow> 'a boot_state_scheme \<Rightarrow> bool" where
  "boot_layout ld s \<longleftrightarrow> hhdm_addr s = HHDM_BASE \<and> sections_ok ld \<and>
     (\<forall>e \<in> set (memmap_entries s). mapped_type (me_type e) \<longrightarrow> entry_ok e)"

lemma high_vpn:
  assumes "HHDM_BASE \<le> v" and "HHDM_BASE \<le> w"
  shows "vpn v = vpn w \<longleftrightarrow> ROUND_DOWN v = ROUND_DOWN w"
proof -
  have u: "unat (x - HHDM_BASE) = unat x - unat HHDM_BASE" if "HHDM_BASE \<le> x" for x :: u64
    using that by (rule unat_sub)
  have lt: "unat (x - HHDM_BASE) < 2 ^ 48" if "HHDM_BASE \<le> x" for x :: u64
    using u [OF that] unsigned_less [of x, where 'a = nat] by simp
  have d: "unat x div 4096 = 4503565267632128 + unat (x - HHDM_BASE) div 4096" if "HHDM_BASE \<le> x" for x :: u64
  proof -
    have "unat x = unat (x - HHDM_BASE) + 4096 * 4503565267632128"
      using u [OF that] that by (simp add: word_le_nat_alt)
    then show ?thesis by (simp only: div_mult_self2)
  qed
  have "vpn v = vpn w \<longleftrightarrow> unat (v - HHDM_BASE) div 4096 = unat (w - HHDM_BASE) div 4096"
    using vpn_offset_eq [of HHDM_BASE "v - HHDM_BASE" "w - HHDM_BASE"] lt [OF assms(1)] lt [OF assms(2)] by simp
  also have "\<dots> \<longleftrightarrow> unat v div 4096 = unat w div 4096"
    using d [OF assms(1)] d [OF assms(2)] by linarith
  finally show ?thesis by (simp add: word_unat_eq_iff unat_ROUND_DOWN)
qed

lemma ROUND_DOWN_aligned: "4096 dvd unat x \<Longrightarrow> ROUND_DOWN x = x"
  by (auto simp: word_unat_eq_iff unat_ROUND_DOWN)

lemma in_for_range:
  assumes "4096 dvd unat (a :: u64)" and "4096 dvd unat b" and "x \<in> set (for_range FRAME_SIZE a b)"
  shows "4096 dvd unat x \<and> a \<le> x \<and> x < b"
proof -
  obtain p q where p: "unat a = 4096 * p" and q: "unat b = 4096 * q" using assms(1,2) by (elim dvdE)
  obtain k where x: "x = a + of_nat k * FRAME_SIZE" and k: "k < (unat b - unat a + 4095) div 4096"
    using assms(3) unfolding for_range_pages by auto
  have k': "p + k < q" using k p q by (simp add: div_less_iff_less_mult)
  have b: "unat b < 2 ^ 64" using unsigned_less [of b, where 'a = nat] by simp
  have "unat (of_nat k * FRAME_SIZE :: u64) = 4096 * k"
    by (rule unat_page_offset) (use k' b q in simp)
  then have "unat x = 4096 * (p + k)"
    using k' b p q unfolding x by (subst unat_add_lem [THEN iffD1]) simp_all
  with k' p q show ?thesis by (simp add: word_le_nat_alt word_less_nat_alt)
qed

lemma in_for_range_round:
  assumes "4096 dvd unat (a :: u64)" and "4096 dvd unat b" and "a \<le> w" and "w < b"
  shows "ROUND_DOWN w \<in> set (for_range FRAME_SIZE a b)"
proof -
  obtain p q where p: "unat a = 4096 * p" and q: "unat b = 4096 * q" using assms(1,2) by (elim dvdE)
  have "p \<le> unat w div 4096" using assms(3) p by (simp add: word_le_nat_alt less_eq_div_iff_mult_less_eq)
  then obtain k where pk: "unat w div 4096 = p + k" using le_Suc_ex by blast
  have "unat w div 4096 < q" using assms(4) q by (simp add: word_less_nat_alt div_less_iff_less_mult)
  then have k: "k < (unat b - unat a + 4095) div 4096"
    using p q pk by (simp add: less_eq_div_iff_mult_less_eq Suc_le_eq [symmetric])
  have lt: "4096 * (p + k) < 2 ^ 64"
    using unsigned_less [of w, where 'a = nat] unfolding pk [symmetric]
    by (simp add: le_less_trans [OF times_div_less_eq_dividend])
  then have "unat (of_nat k * FRAME_SIZE :: u64) = 4096 * k" by (intro unat_page_offset) simp
  then have "unat (a + of_nat k * FRAME_SIZE) = 4096 * (p + k)"
    using lt p by (subst unat_add_lem [THEN iffD1]) simp_all
  then have "ROUND_DOWN w = a + of_nat k * FRAME_SIZE" by (simp add: word_unat_eq_iff unat_ROUND_DOWN pk)
  with k show ?thesis unfolding for_range_pages by auto
qed

lemma in_memory_requests:
  assumes "(p, v, f) \<in> set (memory_requests h es)"
    and "\<And>e. e \<in> set es \<Longrightarrow> mapped_type (me_type e) \<Longrightarrow> entry_ok e"
  shows "v = h + p \<and> f = PAGE_PRESENT OR PAGE_WRITE OR PAGE_USER \<and> 4096 dvd unat p \<and> unat p < 2 ^ 46"
proof -
  obtain e k where e: "e \<in> set es" "mapped_type (me_type e)" and k: "k < unat (me_length e) div 4096"
      and p: "p = me_base e + of_nat k * FRAME_SIZE" and v: "v = h + p"
      and f: "f = PAGE_PRESENT OR PAGE_WRITE OR PAGE_USER"
    using assms(1) by (auto simp: memory_requests_def type_requests_def entry_requests_def mapped_type_def add.assoc)
  from assms(2) [OF e] obtain q where q: "unat (me_base e) = 4096 * q"
      and le: "unat (me_base e) + unat (me_length e) \<le> 2 ^ 46"
    by (auto simp: entry_ok_def mod_eq_0_iff_dvd)
  have k': "4096 * k < unat (me_length e)" using k by (simp add: less_eq_div_iff_mult_less_eq Suc_le_eq [symmetric])
  then have "unat (of_nat k * FRAME_SIZE :: u64) = 4096 * k" using le by (intro unat_page_offset) simp
  then have "unat p = 4096 * (q + k)"
    using le k' q unfolding p by (subst unat_add_lem [THEN iffD1]) simp_all
  then show ?thesis using v f k' le q by simp
qed

lemma memory_request_at:
  assumes e: "e \<in> set es" "mapped_type (me_type e)" "entry_ok e"
    and off: "unat off < unat (me_length e) div 4096 * 4096"
  shows "(ROUND_DOWN (me_base e + off), h + ROUND_DOWN (me_base e + off), PAGE_PRESENT OR PAGE_WRITE OR PAGE_USER)
           \<in> set (memory_requests h es)"
proof -
  let ?k = "unat off div 4096"
  have k: "?k < unat (me_length e) div 4096" using off by (simp add: div_less_iff_less_mult)
  have "unat off < unat (me_length e)" using off div_times_less_eq_dividend by (rule less_le_trans)
  then have le: "unat (me_base e) mod 4096 = 0" "unat (me_base e) + unat off < 2 ^ 46"
    using e(3) by (simp_all add: entry_ok_def)
  have "4096 * ?k < 2 ^ 64" using le(2) by (simp add: le_less_trans [OF times_div_less_eq_dividend])
  then have "of_nat ?k * FRAME_SIZE = ROUND_DOWN off"
    by (simp add: word_unat_eq_iff unat_ROUND_DOWN unat_page_offset)
  then have eq: "ROUND_DOWN (me_base e + off) = me_base e + of_nat ?k * FRAME_SIZE"
    using ROUND_DOWN_shift [OF le(1), of off] le(2) by simp
  have "(ROUND_DOWN (me_base e + off), h + ROUND_DOWN (me_base e + off), PAGE_PRESENT OR PAGE_WRITE OR PAGE_USER)
      \<in> set (entry_requests h e)"
    using k unfolding eq entry_requests_def by (auto simp: add.assoc)
  then show ?thesis
    using e(1,2) by (auto simp: memory_requests_def type_requests_def mapped_type_def)
qed

lemma in_section_requests:
  assumes "(p, v, f) \<in> set (section_requests pb vb a b flags)" and "4096 dvd unat a" and "4096 dvd unat b"
  shows "p = v - vb + pb \<and> f = flags \<and> 4096 dvd unat v \<and> a \<le> v \<and> v < b"
  using assms(1) in_for_range [OF assms(2,3)] by (auto simp: section_requests_def)

lemma section_aligned:
  "(a, b, flags) \<in> set (kernel_sections ld) \<Longrightarrow> 4096 dvd unat a \<and> 4096 dvd unat b"
  by (auto simp: kernel_sections_def ALIGN_UP_aligned ALIGN_DOWN_aligned)

lemma section_high: "sections_ok ld \<Longrightarrow> (a, b, flags) \<in> set (kernel_sections ld) \<Longrightarrow> KERNEL_BASE \<le> a"
  by (auto simp: kernel_sections_def sections_ok_def)

lemma section_unique:
  assumes "sections_ok ld" and "(a, b, f) \<in> set (kernel_sections ld)" and "(a', b', f') \<in> set (kernel_sections ld)"
    and "a \<le> x" "x < b" "a' \<le> x" "x < b'"
  shows "f' = f"
  using assms by (auto simp: kernel_sections_def sections_ok_def)

lemma in_kernel_requests:
  assumes "(p, v, f) \<in> set (kernel_requests ld pb vb)"
  obtains a b where "(a, b, f) \<in> set (kernel_sections ld)" and "a \<le> v" and "v < b"
    and "4096 dvd unat v" and "p = v - vb + pb"
proof -
  from assms obtain a b flags where s: "(a, b, flags) \<in> set (kernel_sections ld)"
      and r: "(p, v, f) \<in> set (section_requests pb vb a b flags)"
    by (auto simp: kernel_requests_def)
  with in_section_requests [OF r] section_aligned [OF s] that show thesis by blast
qed

lemma kernel_page:
  assumes "(a, b, f) \<in> set (kernel_sections ld)" and "a \<le> w" and "w < b"
  shows "(ROUND_DOWN w - vb + pb, ROUND_DOWN w, f) \<in> set (kernel_requests ld pb vb)"
    and "a \<le> ROUND_DOWN w" and "ROUND_DOWN w < b"
proof -
  note al = section_aligned [OF assms(1)]
  have r: "ROUND_DOWN w \<in> set (for_range FRAME_SIZE a b)" using al assms(2,3) in_for_range_round by blast
  then show "a \<le> ROUND_DOWN w" and "ROUND_DOWN w < b" using al in_for_range by blast+
  from r assms(1) show "(ROUND_DOWN w - vb + pb, ROUND_DOWN w, f) \<in> set (kernel_requests ld pb vb)"
    by (force simp: kernel_requests_def section_requests_def)
qed

lemma hhdm_page:
  assumes "HHDM_BASE \<le> v" and "4096 dvd unat v" and "HHDM_BASE \<le> w"
  shows "vpn v = vpn w \<longleftrightarrow> v = ROUND_DOWN w"
  using high_vpn [OF assms(1,3)] ROUND_DOWN_aligned [OF assms(2)] by simp

text \<open>Addresses of the higher half map.\<close>

lemma hhdm_offset:
  assumes "unat y < 2 ^ 46"
  shows "HHDM_BASE \<le> HHDM_BASE + y" and "HHDM_BASE + y < KERNEL_BASE"
    and "ROUND_DOWN (HHDM_BASE + y) = HHDM_BASE + ROUND_DOWN y"
    and "4096 dvd unat y \<Longrightarrow> 4096 dvd unat (HHDM_BASE + y)"
proof -
  have u: "unat (HHDM_BASE + y) = unat HHDM_BASE + unat y"
    using assms by (subst unat_add_lem [THEN iffD1]) simp_all
  then show "HHDM_BASE \<le> HHDM_BASE + y" and "HHDM_BASE + y < KERNEL_BASE"
    using assms by (simp_all add: word_le_nat_alt word_less_nat_alt)
  show "ROUND_DOWN (HHDM_BASE + y) = HHDM_BASE + ROUND_DOWN y"
    using assms by (intro ROUND_DOWN_shift) simp_all
  show "4096 dvd unat (HHDM_BASE + y)" if "4096 dvd unat y"
    unfolding u by (rule dvd_add) (use that in simp_all)
qed

text \<open>Where the requests of the two kinds lie.\<close>

lemma memory_request_place:
  assumes "boot_layout ld s" and "(p, v, f) \<in> set (memory_requests (hhdm_addr s) (memmap_entries s))"
  shows "v = HHDM_BASE + p" and "f = PAGE_PRESENT OR PAGE_WRITE OR PAGE_USER" and "4096 dvd unat v"
    and "HHDM_BASE \<le> v" and "v < KERNEL_BASE"
proof -
  have h: "hhdm_addr s = HHDM_BASE" and ok: "\<And>e. e \<in> set (memmap_entries s) \<Longrightarrow> mapped_type (me_type e) \<Longrightarrow> entry_ok e"
    using assms(1) by (auto simp: boot_layout_def)
  note r = in_memory_requests [OF assms(2) ok]
  then show "v = HHDM_BASE + p" and "f = PAGE_PRESENT OR PAGE_WRITE OR PAGE_USER" using h by simp_all
  have "4096 dvd unat p" "unat p < 2 ^ 46" using r by simp_all
  then show "4096 dvd unat v" "HHDM_BASE \<le> v" "v < KERNEL_BASE"
    unfolding \<open>v = HHDM_BASE + p\<close> using hhdm_offset by blast+
qed

lemma kernel_request_place:
  assumes "boot_layout ld s" and "(p, v, f) \<in> set (kernel_requests ld pb vb)"
  shows "KERNEL_BASE \<le> v" and "HHDM_BASE \<le> v" and "4096 dvd unat v"
proof -
  obtain a b where sec: "(a, b, f) \<in> set (kernel_sections ld)" and "a \<le> v" and "4096 dvd unat v"
    using assms(2) by (rule in_kernel_requests)
  moreover have "KERNEL_BASE \<le> a" using section_high [OF _ sec] assms(1) by (simp add: boot_layout_def)
  ultimately show "KERNEL_BASE \<le> v" "4096 dvd unat v" by (auto intro: order_trans)
  have "HHDM_BASE \<le> KERNEL_BASE" by simp
  then show "HHDM_BASE \<le> v" using \<open>KERNEL_BASE \<le> v\<close> by (rule order_trans)
qed

text \<open>The requests of the two kinds never meet in a page, and within a kind they agree.\<close>

lemma boot_view_memory:
  assumes lay: "boot_layout ld s"
    and rs: "rs = memory_requests (hhdm_addr s) (memmap_entries s) @ kernel_requests ld pb vb"
    and e: "e \<in> set (memmap_entries s)" "mapped_type (me_type e)"
    and off: "unat off < unat (me_length e) div 4096 * 4096"
  shows "vm_run rs T (PHYS2VIRT s (me_base e + off)) =
           Some (ROUND_DOWN (me_base e + off) OR PAGE_PRESENT OR PAGE_WRITE OR PAGE_USER)"
proof -
  let ?y = "me_base e + off"
  have h: "hhdm_addr s = HHDM_BASE" and ok: "entry_ok e" using lay e by (auto simp: boot_layout_def)
  have "unat off < unat (me_length e)" using off div_times_less_eq_dividend by (rule less_le_trans)
  then have y: "unat ?y < 2 ^ 46"
    using ok by (subst unat_add_lem [THEN iffD1]) (simp_all add: entry_ok_def)
  note w = hhdm_offset [OF y]
  have req: "(ROUND_DOWN ?y, HHDM_BASE + ROUND_DOWN ?y, PAGE_PRESENT OR PAGE_WRITE OR PAGE_USER)
      \<in> set (memory_requests (hhdm_addr s) (memmap_entries s))"
    using memory_request_at [OF e ok off] unfolding h .
  have hit: "v = HHDM_BASE + ROUND_DOWN ?y" if "HHDM_BASE \<le> v" "4096 dvd unat v" "vpn v = vpn (HHDM_BASE + ?y)" for v
    using hhdm_page [OF that(1,2) w(1)] that(3) unfolding w(3) by simp
  have "vm_run rs T (HHDM_BASE + ?y) = pte (ROUND_DOWN ?y OR PAGE_PRESENT OR PAGE_WRITE OR PAGE_USER)"
  proof (rule vm_run_hit)
    show "(ROUND_DOWN ?y, HHDM_BASE + ROUND_DOWN ?y, PAGE_PRESENT OR PAGE_WRITE OR PAGE_USER) \<in> set rs"
      using req unfolding rs by simp
    show "vpn (HHDM_BASE + ROUND_DOWN ?y) = vpn (HHDM_BASE + ?y)"
      using memory_request_place [OF lay req] w(1,3) hhdm_page by metis
    fix p v f assume "(p, v, f) \<in> set rs" and same: "vpn v = vpn (HHDM_BASE + ?y)"
    then consider "(p, v, f) \<in> set (memory_requests (hhdm_addr s) (memmap_entries s))" | "(p, v, f) \<in> set (kernel_requests ld pb vb)"
      unfolding rs by auto
    then show "p OR f = ROUND_DOWN ?y OR PAGE_PRESENT OR PAGE_WRITE OR PAGE_USER"
    proof cases
      case 1
      note pl = memory_request_place [OF lay 1]
      from hit [OF pl(4,3) same] pl(1,2) show ?thesis by simp
    next
      case 2
      note pl = kernel_request_place [OF lay 2]
      from hit [OF pl(2,3) same] have "v = ROUND_DOWN (HHDM_BASE + ?y)" unfolding w(3) .
      then have "v \<le> HHDM_BASE + ?y" by (simp only: ROUND_DOWN_le)
      with pl(1) w(2) have False by (meson le_less_trans not_le)
      then show ?thesis ..
    qed
  qed
  then show ?thesis by (simp add: PHYS2VIRT_def h pte_def)
qed

lemma boot_view_kernel:
  assumes lay: "boot_layout ld s"
    and rs: "rs = memory_requests (hhdm_addr s) (memmap_entries s) @ kernel_requests ld pb vb"
    and sec: "(a, b, flags) \<in> set (kernel_sections ld)" and w: "a \<le> w" "w < b"
  shows "vm_run rs T w = pte ((ROUND_DOWN w - vb + pb) OR flags)"
proof -
  have secs: "sections_ok ld" using lay by (simp add: boot_layout_def)
  note req = kernel_page [OF sec w]
  have high: "HHDM_BASE \<le> w"
    using section_high [OF secs sec] w(1) by (rule order_trans [OF _ order_trans, rotated]) simp
  note pl = kernel_request_place [OF lay req(1)]
  have hit: "v = ROUND_DOWN w" if "HHDM_BASE \<le> v" "4096 dvd unat v" "vpn v = vpn w" for v
    using hhdm_page [OF that(1,2) high] that(3) by simp
  show ?thesis
  proof (rule vm_run_hit)
    show "(ROUND_DOWN w - vb + pb, ROUND_DOWN w, flags) \<in> set rs" using req(1) unfolding rs by simp
    show "vpn (ROUND_DOWN w) = vpn w" using hhdm_page [OF pl(2,3) high] by simp
    fix p v f assume "(p, v, f) \<in> set rs" and same: "vpn v = vpn w"
    then consider "(p, v, f) \<in> set (memory_requests (hhdm_addr s) (memmap_entries s))" | "(p, v, f) \<in> set (kernel_requests ld pb vb)"
      unfolding rs by auto
    then show "p OR f = (ROUND_DOWN w - vb + pb) OR flags"
    proof cases
      case 1
      note pm = memory_request_place [OF lay 1]
      from hit [OF pm(4,3) same] pm(5) pl(1) have False by simp
      then show ?thesis ..
    next
      case 2
      then obtain a' b' where sec': "(a', b', f) \<in> set (kernel_sections ld)" "a' \<le> v" "v < b'"
          and p: "p = v - vb + pb"
        by (rule in_kernel_requests)
      have v: "v = ROUND_DOWN w" using hit kernel_request_place [OF lay 2] same by blast
      then have "f = flags" using section_unique [OF secs sec sec'(1) req(2,3)] sec'(2,3) by simp
      with p v show ?thesis by simp
    qed
  qed
qed

section \<open>Initialisation\<close>

definition boot_requests :: "linker_symbols \<Rightarrow> 'a boot_state_scheme \<Rightarrow> (u64 \<times> u64 \<times> u64) list" where
  "boot_requests ld s = memory_requests (hhdm_addr s) (memmap_entries s) @
     kernel_requests ld (kern_address_phys s) (kern_address_virt s)"

text \<open>The tables below the first level that these requests need, each counted once.\<close>

definition boot_tables :: "linker_symbols \<Rightarrow> 'a boot_state_scheme \<Rightarrow> u16 list set" where
  "boot_tables ld s = (\<Union>(p, v, f) \<in> set (boot_requests ld s). table_paths v)"

lemma card_boot_tables: "card (boot_tables ld s - P) \<le> card (boot_tables ld s)" "card (boot_tables ld s) \<le> 3 * length (boot_requests ld s)"
proof -
  have "finite (boot_tables ld s)" by (auto simp: boot_tables_def card_table_paths)
  then show "card (boot_tables ld s - P) \<le> card (boot_tables ld s)" by (intro card_mono) auto
  show "card (boot_tables ld s) \<le> 3 * length (boot_requests ld s)"
    using pg.card_needs [of "boot_requests ld s" "{}"] by (simp add: pg.needs_def boot_tables_def)
qed

lemma fresh_pml4:
  assumes fw: "frame_wf s" and ph: "phys_ok s" and al: "Frame_alloc s = (p, s1)" and p: "p \<noteq> 0"
    and s2: "s2 = s1\<lparr>pml4 := p, mem := memset (mem s1) p 0 FRAME_SIZE\<rparr>"
  shows "pt_wf s2" and "boot_requests ld s2 = boot_requests ld s" and "free_ahead s2 = free_ahead s1"
    and "hhdm_addr s2 = hhdm_addr s"
proof -
  have "frame_wf s2" using fa.alloc_inv [OF fw al] by (simp add: s2 frame_wf_def)
  moreover have "phys_ok s2" using ph Frame_alloc_paging [OF al] by (simp add: s2 phys_ok_def)
  moreover have "pml4 s2 \<in> taken s2"
    using fa.alloc_new [OF fw al p] by (simp add: s2 taken_def frame_addr_def)
  moreover have "load64 (mem s2) (slot (pml4 s2) i) = 0" if "i < 512" for i
    using that unfolding s2
    by simp (rule load64_memset_zero; simp add: slot_def word_le_nat_alt unat_sub_if' unat_slot word_less_nat_alt)
  ultimately show "pt_wf s2" by (rule empty_tables)
  show "boot_requests ld s2 = boot_requests ld s" "free_ahead s2 = free_ahead s1" "hhdm_addr s2 = hhdm_addr s"
    using al by (auto simp: s2 boot_requests_def free_ahead_def Frame_alloc_def Let_def split: if_splits)
qed

lemma Paging_init_returns:
  assumes fw: "frame_wf s" and ph: "phys_ok s" and room: "card (boot_tables ld s) < free_ahead s"
  obtains s' T where "Paging_init ld s = Some (Inr s')" and "pt_wf s'"
    and "translate s' = vm_run (boot_requests ld s) T" and "hhdm_addr s' + cr3 s' = pml4 s'"
    and "tlb s' = Map.empty" and "bit (cr0 s') 31" and "bit (cr4 s') 5"
    and "free_ahead s \<le> free_ahead s' + 1 + card (boot_tables ld s)" and "frames_kept s s'"
    and "frontier s u \<Longrightarrow> u < available_frames s \<Longrightarrow> ahead_free s'"
proof -
  obtain p s1 where al: "Frame_alloc s = (p, s1)" by fastforce
  define s2 where "s2 = s1\<lparr>pml4 := p, mem := memset (mem s1) p 0 FRAME_SIZE\<rparr>"
  have "0 < free_ahead s" using room by simp
  note fr = free_ahead_alloc [OF fw al this]
  note f = fresh_pml4 [OF fw ph al fr(1) s2_def]
  have bt: "pg.needs (boot_requests ld s2) = boot_tables ld s" by (simp add: pg.needs_def boot_tables_def f(2))
  have "card (pg.needs (boot_requests ld s2) - tables s2) \<le> free_ahead s2"
    unfolding bt using card_boot_tables(1) [of ld s "tables s2"] room fr(2) f(3) by simp
  then obtain s3 where s3: "pg.map_all (boot_requests ld s2) s2 = Inr s3" "pt_wf s3"
      "translate s3 = vm_run (boot_requests ld s2) (translate s2)"
      and left: "free_ahead s2 = free_ahead s3 + card (boot_tables ld s - tables s2)"
    using pg.map_all_tables [OF f(1), of "boot_requests ld s2"] unfolding bt by blast
  have kept: "frames_kept s1 s3" using map_all_kept [OF s3(1)] by (simp add: s2_def)
  define s' where "s' = enable_paging (load_cr3 (pml4 s3) s3)"
  have "full_map ld s2 = Some (Inr s3)"
    using s3(1) by (simp add: full_map_requests boot_requests_def)
  then have "Paging_init ld s = Some (Inr s')"
    using al fr(1) by (simp add: Paging_init_def s2_def s'_def)
  moreover have "pt_wf s'"
    using s3(2) by (simp add: s'_def enable_paging_def load_cr3_def pt_wf_def frame_wf_def phys_ok_def taken_def
        frame_addr_def)
  moreover have "translate s' = translate s3"
    by (simp add: s'_def enable_paging_def load_cr3_def translate_def fun_eq_iff split: option.split)
  moreover have "hhdm_addr s' + cr3 s' = pml4 s'" "tlb s' = Map.empty" "bit (cr0 s') 31" "bit (cr4 s') 5"
    by (simp_all add: s'_def enable_paging_def load_cr3_def VIRT2PHYS_def bit_or_iff)
  moreover have same: "free_ahead s' = free_ahead s3" "frames_kept s1 s'" "ahead_free s' = ahead_free s3"
    using kept by (simp_all add: s'_def enable_paging_def load_cr3_def free_ahead_def)
  moreover have "free_ahead s \<le> free_ahead s' + 1 + card (boot_tables ld s)"
    using left fr(2) f(3) same(1) card_boot_tables(1) [of ld s "tables s2"] by simp
  moreover have "frames_kept s s'" using frames_kept_trans [OF Frame_alloc_kept [OF al]] same(2) by blast
  moreover have "ahead_free s'" if "frontier s u" "u < available_frames s"
    using alloc_frontier [OF fw al that] fa.alloc_inv [OF fw al] kept same(3) by (simp add: frames_kept_def)
  ultimately show thesis using that s3(3) f(2) by simp
qed

text \<open>
  (C11) \<open>Mem::Paging::init\<close> with a frame for each table that its requests need, and one more: it returns with the processor walking
  the new tables and paging on. Every byte of the usable, bootloader and framebuffer regions is then
  mapped writable at its higher half address, and the three sections of the kernel image at their
  link addresses, text without write permission, read only data without write or execute permission,
  data without execute permission.
\<close>

theorem Paging_init_correct:
  assumes "frame_wf s" and "phys_ok s" and "boot_layout ld s"
    and "card (boot_tables ld s) < free_ahead s"
  shows "\<exists>s'. Paging_init ld s = Some (Inr s') \<and> pt_wf s' \<and> tlb_ok s' \<and>
    hhdm_addr s' + cr3 s' = pml4 s' \<and> bit (cr0 s') 31 \<and>
    (\<forall>e \<in> set (memmap_entries s). mapped_type (me_type e) \<longrightarrow>
       (\<forall>off. unat off < unat (me_length e) div 4096 * 4096 \<longrightarrow>
          translate s' (PHYS2VIRT s (me_base e + off)) =
            Some (ROUND_DOWN (me_base e + off) OR PAGE_PRESENT OR PAGE_WRITE OR PAGE_USER))) \<and>
    (\<forall>(a, b, flags) \<in> set (kernel_sections ld). \<forall>w. a \<le> w \<and> w < b \<longrightarrow>
       translate s' w = Some ((ROUND_DOWN w - kern_address_virt s + kern_address_phys s) OR flags))"
proof -
  obtain s' T where s': "Paging_init ld s = Some (Inr s')" "pt_wf s'"
      "translate s' = vm_run (boot_requests ld s) T" "hhdm_addr s' + cr3 s' = pml4 s'"
      "tlb s' = Map.empty" "bit (cr0 s') 31"
    using Paging_init_returns [OF assms(1,2,4)] .
  note mem = boot_view_memory [OF assms(3) boot_requests_def]
  note ker = boot_view_kernel [OF assms(3) boot_requests_def]
  have present: "pte (x OR flags) = Some (x OR flags)" if "(a, b, flags) \<in> set (kernel_sections ld)" for a b flags x
    using that present_or [of x] by (auto simp: kernel_sections_def pte_def)
  have "\<forall>(a, b, flags) \<in> set (kernel_sections ld). \<forall>w. a \<le> w \<and> w < b \<longrightarrow>
      translate s' w = Some ((ROUND_DOWN w - kern_address_virt s + kern_address_phys s) OR flags)"
    using ker present s'(3) by auto
  moreover have "tlb_ok s'" using s'(5) by (simp add: tlb_ok_def)
  ultimately show ?thesis using s' mem by auto
qed

section \<open>Witnesses\<close>

definition ex_linker :: linker_symbols where
  "ex_linker = \<lparr>text_start_ld = 0xffffffff80000000, text_end_ld = 0xffffffff80000800,
     rodata_start_ld = 0xffffffff80001000, rodata_end_ld = 0xffffffff80001010,
     data_start_ld = 0xffffffff80002000, data_end_ld = 0xffffffff80003000\<rparr>"

definition ex_boot_paging :: paging_state where
  "ex_boot_paging = ex_paging\<lparr>frames := (\<lambda>_. False),
     memmap_entries := [\<lparr>me_base = 0x100000, me_length = 0x2000, me_type = LIMINE_MEMMAP_USABLE\<rparr>]\<rparr>"

lemma ex_boot_paging_sel [simp]:
  "mem ex_boot_paging = (\<lambda>_. 0)" "hhdm_addr ex_boot_paging = HHDM_BASE" "frames ex_boot_paging = (\<lambda>_. False)"
  "latest_frame ex_boot_paging = 0" "available_frames ex_boot_paging = 64"
  "base_addr ex_boot_paging = 0xffff800000100000"
  "memmap_entries ex_boot_paging = [\<lparr>me_base = 0x100000, me_length = 0x2000, me_type = LIMINE_MEMMAP_USABLE\<rparr>]"
  "kern_address_virt ex_boot_paging = KERNEL_BASE" "kern_address_phys ex_boot_paging = 0x400000"
  by (simp_all add: ex_boot_paging_def) (simp_all add: ex_paging_def ex_frames_def frame_state.defs paging_state.defs)

lemma ex_linker_sections:
  "kernel_sections ex_linker =
     [(KERNEL_BASE, 0xffffffff80001000, PAGE_PRESENT OR PAGE_USER),
      (0xffffffff80001000, 0xffffffff80002000, PAGE_PRESENT OR PAGE_NX OR PAGE_USER),
      (0xffffffff80002000, 0xffffffff80003000, PAGE_PRESENT OR PAGE_WRITE OR PAGE_NX OR PAGE_USER)]"
  by (simp add: kernel_sections_def ex_linker_def ALIGN_DOWN_def ALIGN_UP_def ROUND_UP_def)

lemma ex_boot_room: "length (boot_requests ex_linker ex_boot_paging) = 7" "free_ahead ex_boot_paging = 64"
  using card_word_range [of "0 :: u32" 64]
  by (simp_all add: boot_requests_def memory_requests_def type_requests_def entry_requests_def
      kernel_requests_def ex_linker_sections section_requests_def for_range_def free_ahead_def)

lemma ex_boot_tables: "card (boot_tables ex_linker ex_boot_paging) < free_ahead ex_boot_paging"
  using card_boot_tables(2) [of ex_linker ex_boot_paging] by (simp add: ex_boot_room)

theorem Paging_init_correct_witness:
  "\<exists>s'. Paging_init ex_linker ex_boot_paging = Some (Inr s') \<and> pt_wf s' \<and>
     translate s' 0xffff800000101234 = Some 0x101007 \<and> translate s' 0xffffffff80000010 = Some 0x400005"
proof -
  have wf: "frame_wf ex_boot_paging" "phys_ok ex_boot_paging" by (simp_all add: frame_wf_def phys_ok_def)
  have lay: "boot_layout ex_linker ex_boot_paging"
    by (simp add: boot_layout_def sections_ok_def entry_ok_def ex_linker_def ALIGN_DOWN_def ALIGN_UP_def ROUND_UP_def)
  obtain s' where s': "Paging_init ex_linker ex_boot_paging = Some (Inr s')" "pt_wf s'"
    and m: "\<forall>e \<in> set (memmap_entries ex_boot_paging). mapped_type (me_type e) \<longrightarrow>
       (\<forall>off. unat off < unat (me_length e) div 4096 * 4096 \<longrightarrow>
          translate s' (PHYS2VIRT ex_boot_paging (me_base e + off)) =
            Some (ROUND_DOWN (me_base e + off) OR PAGE_PRESENT OR PAGE_WRITE OR PAGE_USER))"
    and k: "\<forall>(a, b, flags) \<in> set (kernel_sections ex_linker). \<forall>w. a \<le> w \<and> w < b \<longrightarrow>
       translate s' w = Some ((ROUND_DOWN w - kern_address_virt ex_boot_paging + kern_address_phys ex_boot_paging) OR flags)"
    using Paging_init_correct [OF wf lay ex_boot_tables] by auto
  have "translate s' (PHYS2VIRT ex_boot_paging (0x100000 + 0x1234)) =
      Some (ROUND_DOWN (0x100000 + 0x1234) OR PAGE_PRESENT OR PAGE_WRITE OR PAGE_USER)"
    using m by (auto simp: mapped_type_def dest!: spec [of _ "0x1234"])
  moreover have "translate s' 0xffffffff80000010 =
      Some ((ROUND_DOWN 0xffffffff80000010 - KERNEL_BASE + 0x400000) OR PAGE_PRESENT OR PAGE_USER)"
    using k by (simp add: ex_linker_sections)
  ultimately show ?thesis
    using s' by (simp add: PHYS2VIRT_def ROUND_DOWN_def PAGE_PRESENT_def PAGE_WRITE_def PAGE_USER_def)
qed

end
