(* ===== verification/Descriptors.thy ===== *)
theory Descriptors
  imports Tasks
begin

unbundle bit_operations_syntax

text \<open>
  The processor's descriptor tables: \<open>kernel/cpu/gdt/gdt.cc\<close>, \<open>kernel/cpu/tss/tss.cc\<close> and
  \<open>kernel/cpu/interrupts/idt.cc\<close> with their headers. The addresses the linker gives the tables and the
  interrupt stubs are a parameter; what \<open>lgdt\<close>, \<open>ltr\<close>, \<open>lidt\<close> and \<open>sti\<close> do is state of the processor.
\<close>

section \<open>Data\<close>

record tss_seg =
  rsp0 :: u64
  rsp1 :: u64
  rsp2 :: u64
  ist1 :: u64
  ist2 :: u64
  ist3 :: u64
  ist4 :: u64
  ist5 :: u64
  ist6 :: u64
  ist7 :: u64
  iopb_offset :: u16

record tss_desc =
  limit_low :: u16
  base_low :: u16
  base_mid :: u8
  access :: u8
  granularity :: u8
  base_high :: u8
  base_ext :: u32

record gate =
  offset_low :: u16
  selector :: u16
  ist :: u8
  type_attr :: u8
  offset_mid :: u16
  offset_high :: u32
  zero :: u32

record desc_syms =
  table_at :: u64
  tss_at :: u64
  idt_at :: u64
  isr_at :: "u8 \<Rightarrow> u64"

record desc_state = task_state +
  tss :: tss_seg
  ist_stacks :: "nat \<Rightarrow> u64"
  gdt_table :: "u64 list"
  gp :: "u16 \<times> u64"
  gdtr :: "u16 \<times> u64"
  tr :: u16
  cs :: u16
  ds :: u16
  idt :: "u8 \<Rightarrow> gate"
  idtr :: "u16 \<times> u64"
  idtr_loaded :: "u16 \<times> u64"
  isr_handlers :: "u8 \<Rightarrow> u64"
  interrupts :: bool

definition IST_STACK_SIZE :: u64 where "IST_STACK_SIZE = 16384"
definition INT_GATE :: u8 where "INT_GATE = 0x8E"
definition TRAP_GATE :: u8 where "TRAP_GATE = 0x8F"
definition IST_EXCEPTION :: u8 where "IST_EXCEPTION = 1"
definition IST_IRQ :: u8 where "IST_IRQ = 2"

text \<open>\<open>sizeof(TaskStateSegment)\<close>, packed.\<close>

definition TSS_SIZE :: u32 where "TSS_SIZE = 104"

section \<open>The task state segment\<close>

definition tss_fields :: "u64 \<Rightarrow> tss_desc" where
  "tss_fields tss_addr =
     (let limit = TSS_SIZE - 1 in
      \<lparr>limit_low = ucast (limit AND 0xFFFF), base_low = ucast (tss_addr AND 0xFFFF),
       base_mid = ucast (drop_bit 16 tss_addr AND 0xFF), access = 0x89,
       granularity = ucast (drop_bit 16 limit AND 0x0F), base_high = ucast (drop_bit 24 tss_addr AND 0xFF),
       base_ext = ucast (drop_bit 32 tss_addr AND 0xFFFFFFFF)\<rparr>)"

definition create_tss_descriptor :: "u64 \<Rightarrow> u64" where
  "create_tss_descriptor tss_addr =
     (let desc = tss_fields tss_addr;
          r1 = ucast (limit_low desc) :: u64;
          r2 = r1 OR push_bit 16 (ucast (base_low desc));
          r3 = r2 OR push_bit 32 (ucast (base_mid desc));
          r4 = r3 OR push_bit 40 (ucast (access desc));
          r5 = r4 OR push_bit 48 (ucast (granularity desc))
      in r5 OR push_bit 56 (ucast (base_high desc)))"

definition create_tss_descriptor_high :: "u64 \<Rightarrow> u64" where
  "create_tss_descriptor_high tss_addr = drop_bit 32 tss_addr AND 0xFFFFFFFF"

definition tss_zero :: tss_seg where
  "tss_zero = \<lparr>rsp0 = 0, rsp1 = 0, rsp2 = 0, ist1 = 0, ist2 = 0, ist3 = 0, ist4 = 0, ist5 = 0, ist6 = 0, ist7 = 0,
     iopb_offset = 0\<rparr>"

definition TSS_init :: "'a desc_state_scheme \<Rightarrow> 'a desc_state_scheme" where
  "TSS_init s = s\<lparr>tss := tss_zero\<lparr>iopb_offset := ucast TSS_SIZE\<rparr>\<rparr>"

definition set_ist :: "nat \<Rightarrow> u64 \<Rightarrow> tss_seg \<Rightarrow> tss_seg" where
  "set_ist i v t =
     (if i = 1 then t\<lparr>ist1 := v\<rparr> else if i = 2 then t\<lparr>ist2 := v\<rparr> else if i = 3 then t\<lparr>ist3 := v\<rparr>
      else if i = 4 then t\<lparr>ist4 := v\<rparr> else if i = 5 then t\<lparr>ist5 := v\<rparr> else if i = 6 then t\<lparr>ist6 := v\<rparr>
      else if i = 7 then t\<lparr>ist7 := v\<rparr> else t)"

text \<open>The loop of \<open>init_stacks\<close> over the numbers \<open>i\<close>; it returns early when the frames run out.\<close>

fun init_stacks_loop :: "nat list \<Rightarrow> 'a desc_state_scheme \<Rightarrow> 'a desc_state_scheme" where
  "init_stacks_loop [] s = s"
| "init_stacks_loop (i # is) s =
     (let frames_per_stack = IST_STACK_SIZE div FRAME_SIZE;
          (p, s1) = Frame_allocs frames_per_stack s;
          s2 = s1\<lparr>ist_stacks := (ist_stacks s1)(i := p)\<rparr>
      in if p = 0 then s2
         else init_stacks_loop is (s2\<lparr>tss := set_ist i (p + IST_STACK_SIZE) (tss s2)\<rparr>))"

definition TSS_init_stacks :: "'a desc_state_scheme \<Rightarrow> 'a desc_state_scheme" where
  "TSS_init_stacks s = init_stacks_loop [1, 2, 3, 4, 5, 6, 7] s"

definition set_kernel_stack :: "u64 \<Rightarrow> 'a desc_state_scheme \<Rightarrow> 'a desc_state_scheme" where
  "set_kernel_stack stack_ptr s = s\<lparr>tss := (tss s)\<lparr>rsp0 := stack_ptr\<rparr>\<rparr>"

definition get_ist_stack :: "nat \<Rightarrow> 'a desc_state_scheme \<Rightarrow> u64" where
  "get_ist_stack index s =
     (if index < 1 \<or> index > 7 then 0
      else if index = 1 then ist1 (tss s) else if index = 2 then ist2 (tss s) else 0)"

definition load_tss :: "'a desc_state_scheme \<Rightarrow> 'a desc_state_scheme" where
  "load_tss s = s\<lparr>tr := 0x28\<rparr>"

definition get_tss_descriptor_low :: "desc_syms \<Rightarrow> u64" where
  "get_tss_descriptor_low K = create_tss_descriptor (tss_at K)"

definition get_tss_descriptor_high :: "desc_syms \<Rightarrow> u64" where
  "get_tss_descriptor_high K = create_tss_descriptor_high (tss_at K)"

section \<open>The global descriptor table\<close>

definition gdt_initial :: "u64 list" where
  "gdt_initial = [0x00, 0xaf9a000000ffff, 0xaf92000000ffff, 0xcffa000000ffff, 0xcff2000000ffff, 0x00, 0x00]"

definition load_gdt :: "'a desc_state_scheme \<Rightarrow> 'a desc_state_scheme" where
  "load_gdt s = s\<lparr>gdtr := gp s\<rparr>"

definition reload_cs_segments :: "'a desc_state_scheme \<Rightarrow> 'a desc_state_scheme" where
  "reload_cs_segments s = s\<lparr>cs := 0x08, ds := 0x10\<rparr>"

definition GDT_init :: "desc_syms \<Rightarrow> 'a desc_state_scheme \<Rightarrow> 'a desc_state_scheme" where
  "GDT_init K s =
     (let s1 = s\<lparr>gp := (8 * 7 - 1, table_at K)\<rparr>;
          s2 = reload_cs_segments (load_gdt s1);
          s3 = TSS_init s2;
          s4 = s3\<lparr>gdt_table := (gdt_table s3)[5 := get_tss_descriptor_low K]\<rparr>;
          s5 = s4\<lparr>gdt_table := (gdt_table s4)[6 := get_tss_descriptor_high K]\<rparr>
      in load_tss (load_gdt s5))"

section \<open>The interrupt descriptor table\<close>

definition gate_with :: "u64 \<Rightarrow> u16 \<Rightarrow> u8 \<Rightarrow> u8 \<Rightarrow> gate" where
  "gate_with offset sel type n =
     \<lparr>offset_low = ucast (offset AND 0xFFFF), selector = sel, ist = n, type_attr = type OR 0x80,
      offset_mid = ucast (drop_bit 16 offset AND 0xFFFF), offset_high = ucast (drop_bit 32 offset AND 0xFFFFFFFF),
      zero = 0\<rparr>"

definition register_entry :: "u8 \<Rightarrow> u64 \<Rightarrow> u16 \<Rightarrow> u8 \<Rightarrow> 'a desc_state_scheme \<Rightarrow> 'a desc_state_scheme" where
  "register_entry index offset sel type s = s\<lparr>idt := (idt s)(index := gate_with offset sel type 0)\<rparr>"

definition register_entry_with_ist ::
    "u8 \<Rightarrow> u64 \<Rightarrow> u16 \<Rightarrow> u8 \<Rightarrow> u8 \<Rightarrow> 'a desc_state_scheme \<Rightarrow> 'a desc_state_scheme" where
  "register_entry_with_ist index offset sel type n s = s\<lparr>idt := (idt s)(index := gate_with offset sel type n)\<rparr>"

text \<open>The initialiser of \<open>isr_handlers\<close>: the stubs 0 to 47.\<close>

definition isr_initial :: "desc_syms \<Rightarrow> u8 \<Rightarrow> u64" where
  "isr_initial K i = (if i < 48 then isr_at K i else 0)"

definition register_exception :: "u8 \<Rightarrow> 'a desc_state_scheme \<Rightarrow> fault + 'a desc_state_scheme" where
  "register_exception i s =
     Inr (if isr_handlers s i = 0 then s else register_entry_with_ist i (isr_handlers s i) 0x08 INT_GATE IST_EXCEPTION s)"

definition IDT_init :: "desc_syms \<Rightarrow> 'a desc_state_scheme \<Rightarrow> (fault + 'a desc_state_scheme) option" where
  "IDT_init K s =
     (let s1 = s\<lparr>idtr := (16 * 256 - 1, idt_at K)\<rparr>;
          s2 = s1\<lparr>isr_handlers := (isr_handlers s1)(0xF0 := isr_at K 0xF0)\<rparr>;
          s3 = s2\<lparr>isr_handlers := (isr_handlers s2)(0xFF := isr_at K 0xFF)\<rparr>
      in then_do (for_loop register_exception 1 0 32 s3) (\<lambda>s4.
         then_do (Some (register_exception 0xF0 s4)) (\<lambda>s5.
         then_do (Some (register_exception 0xFF s5)) (\<lambda>s6.
           Some (Inr (s6\<lparr>idtr_loaded := idtr s6, interrupts := True\<rparr>))))))"

section \<open>What the processor reads\<close>

text \<open>The base, the limit and the type byte of a system descriptor of two table entries.\<close>

definition desc_base :: "u64 \<Rightarrow> u64 \<Rightarrow> u64" where
  "desc_base lo hi = take_bit 24 (drop_bit 16 lo) OR push_bit 24 (drop_bit 56 lo) OR push_bit 32 (take_bit 32 hi)"

definition desc_limit :: "u64 \<Rightarrow> u64" where
  "desc_limit lo = take_bit 16 lo OR push_bit 16 (take_bit 4 (drop_bit 48 lo))"

definition desc_type :: "u64 \<Rightarrow> u8" where
  "desc_type lo = ucast (drop_bit 40 lo)"

definition gate_target :: "gate \<Rightarrow> u64" where
  "gate_target g = ucast (offset_low g) OR push_bit 16 (ucast (offset_mid g)) OR push_bit 32 (ucast (offset_high g))"

lemma and_masks:
  "(x :: 'a::len word) AND 0xF = take_bit 4 x" "x AND 0xFF = take_bit 8 x" "x AND 0xFFFF = take_bit 16 x"
  "x AND 0xFFFFFFFF = take_bit 32 x"
  by (simp_all add: take_bit_eq_mask mask_eq_exp_minus_1)

lemma gate_target_with [simp]: "gate_target (gate_with offset sel type n) = offset"
proof (rule bit_word_eqI)
  fix k :: nat
  assume "k < LENGTH(64)"
  then consider "k < 16" | "16 \<le> k" "k < 32" | "32 \<le> k" "k < 64" by fastforce
  then show "bit (gate_target (gate_with offset sel type n)) k = bit offset k"
    by cases (auto simp: gate_target_def gate_with_def and_masks bit_simps)
qed

text \<open>The six fields of the lower entry, in the places \<open>create_tss_descriptor\<close> shifts them to.\<close>

definition pack_desc :: "u16 \<Rightarrow> u16 \<Rightarrow> u8 \<Rightarrow> u8 \<Rightarrow> u8 \<Rightarrow> u8 \<Rightarrow> u64" where
  "pack_desc l b m a g h = ((((ucast l OR push_bit 16 (ucast b)) OR push_bit 32 (ucast m)) OR push_bit 40 (ucast a)) OR
     push_bit 48 (ucast g)) OR push_bit 56 (ucast h)"

lemma shift_fields:
  "LENGTH('a) \<le> n \<Longrightarrow> drop_bit n (ucast (x :: 'a::len word) :: u64) = 0"
  "LENGTH('a) \<le> n \<Longrightarrow> take_bit n (ucast x :: u64) = ucast x"
  "n \<le> m \<Longrightarrow> take_bit n (push_bit m y) = (0 :: u64)"
  "n \<le> m \<Longrightarrow> n + LENGTH('a) \<le> 64 \<Longrightarrow> drop_bit m (push_bit n (ucast x) :: u64) = drop_bit (m - n) (ucast x)"
  "m \<le> n \<Longrightarrow> n + LENGTH('a) \<le> 64 \<Longrightarrow> drop_bit m (push_bit n (ucast x) :: u64) = push_bit (n - m) (ucast x)"
  "m + LENGTH('a) \<le> n \<Longrightarrow> take_bit n (push_bit m (ucast x) :: u64) = push_bit m (ucast x)"
  "LENGTH('b) \<le> n \<Longrightarrow> (ucast (push_bit n y) :: 'b::len word) = 0"
  by (rule bit_word_eqI, auto simp: bit_simps add.commute dest: bit_imp_le_length)+

lemma ucast_u8_back: "(ucast (ucast (a :: u8) :: u64) :: u8) = a"
  by (rule bit_word_eqI) (simp add: bit_simps)

lemma pack_desc_fields:
  "take_bit 16 (pack_desc l b m a g h) = ucast l"
  "take_bit 24 (drop_bit 16 (pack_desc l b m a g h)) = ucast b OR push_bit 16 (ucast m)"
  "drop_bit 56 (pack_desc l b m a g h) = ucast h"
  "(ucast (drop_bit 40 (pack_desc l b m a g h)) :: u8) = a"
  "take_bit 4 (drop_bit 48 (pack_desc l b m a g h)) = take_bit 4 (ucast g)"
  by (simp_all add: pack_desc_def take_bit_or drop_bit_or shift_fields unsigned_or_eq ucast_u8_back)

lemma ucast_take_bit: "LENGTH('b) \<le> n \<Longrightarrow> (ucast (take_bit n (x :: 'a::len word)) :: 'b::len word) = ucast x"
  by (rule bit_word_eqI) (auto simp: bit_simps)

lemma tss_packed:
  "create_tss_descriptor a = pack_desc 103 (ucast a) (ucast (drop_bit 16 a)) 0x89 0 (ucast (drop_bit 24 a))"
  by (simp add: create_tss_descriptor_def tss_fields_def TSS_SIZE_def Let_def and_masks pack_desc_def ucast_take_bit)

text \<open>
  (C35) The descriptor of the task state segment, put together from shifted and masked pieces of its
  address: the processor reads back the whole 64 bit address as the base, the last byte of the segment
  as the limit, and an available 64 bit task state segment, present, as the type.
\<close>

theorem tss_descriptor_roundtrip:
  "desc_base (create_tss_descriptor a) (create_tss_descriptor_high a) = a \<and>
   desc_limit (create_tss_descriptor a) = ucast TSS_SIZE - 1 \<and> desc_type (create_tss_descriptor a) = 0x89"
proof -
  have "desc_base (create_tss_descriptor a) (create_tss_descriptor_high a) = a"
  proof (rule bit_word_eqI)
    fix k :: nat
    assume "k < LENGTH(64)"
    then consider "k < 16" | "16 \<le> k" "k < 24" | "24 \<le> k" "k < 32" | "32 \<le> k" "k < 64" by fastforce
    then show "bit (desc_base (create_tss_descriptor a) (create_tss_descriptor_high a)) k = bit a k"
      by cases (auto simp: desc_base_def tss_packed pack_desc_fields create_tss_descriptor_high_def and_masks bit_simps)
  qed
  then show ?thesis
    by (simp add: desc_limit_def desc_type_def tss_packed pack_desc_fields TSS_SIZE_def)
qed

section \<open>Installing the interrupt gates\<close>

text \<open>The gates that \<open>register_exception\<close> leaves when it runs on the vectors of a set.\<close>

definition exception_gates :: "(u8 \<Rightarrow> u64) \<Rightarrow> u8 set \<Rightarrow> (u8 \<Rightarrow> gate) \<Rightarrow> u8 \<Rightarrow> gate" where
  "exception_gates h A g = (\<lambda>i. if i \<in> A \<and> h i \<noteq> 0 then gate_with (h i) 0x08 INT_GATE IST_EXCEPTION else g i)"

lemma exception_gates_simps:
  "exception_gates h {} g = g"
  "h i = 0 \<Longrightarrow> exception_gates h (insert i A) g = exception_gates h A g"
  "h i \<noteq> 0 \<Longrightarrow> exception_gates h A (g(i := gate_with (h i) 0x08 INT_GATE IST_EXCEPTION)) = exception_gates h (insert i A) g"
  by (auto simp: exception_gates_def fun_eq_iff)

lemma register_exception_gates: "register_exception i s = Inr (s\<lparr>idt := exception_gates (isr_handlers s) {i} (idt s)\<rparr>)"
  using exception_gates_simps(3) [of "isr_handlers s" i "{}" "idt s"]
  by (auto simp: register_exception_def register_entry_with_ist_def exception_gates_simps)

lemma exception_gates_more [simp]: "exception_gates h A (exception_gates h B g) = exception_gates h (A \<union> B) g"
  by (auto simp: exception_gates_def fun_eq_iff)

lemma register_exceptions:
  "run_list register_exception is s = Inr (s\<lparr>idt := exception_gates (isr_handlers s) (set is) (idt s)\<rparr>)"
  by (induction "is" arbitrary: s) (simp_all add: register_exception_gates exception_gates_simps(1))

lemma exception_vectors: "set (for_range 1 0 (32 :: u8)) = {i. i < 32}"
proof -
  have "i \<in> of_nat ` {0..<32}" if "i < (32 :: u8)" for i
    using that by (intro image_eqI [of _ _ "unat i"]) (simp_all add: word_less_nat_alt)
  moreover have "(of_nat n :: u8) < 32" if "n < 32" for n
    using that by (simp add: word_less_nat_alt unsigned_of_nat take_bit_nat_eq_self)
  ultimately show ?thesis by (auto simp: for_range_def simp del: upt_rec_numeral)
qed

lemma IDT_init_ok:
  assumes "\<forall>i. i < 32 \<or> i = 0xF0 \<or> i = 0xFF \<longrightarrow> isr_at K i \<noteq> 0" and "isr_handlers s = isr_initial K"
  obtains h g where "IDT_init K s = Some (Inr (s\<lparr>idtr := (4095, idt_at K), isr_handlers := h, idt := g,
      idtr_loaded := (4095, idt_at K), interrupts := True\<rparr>))"
    and "\<forall>i. if i < 32 \<or> i = 0xF0 \<or> i = 0xFF
         then gate_target (g i) = isr_at K i \<and> selector (g i) = 8 \<and> ist (g i) = IST_EXCEPTION \<and> type_attr (g i) = 0x8E
         else g i = idt s i"
proof -
  let ?h = "(isr_initial K)(0xF0 := isr_at K 0xF0, 0xFF := isr_at K 0xFF)"
  let ?A = "insert 0xF0 (insert 0xFF {i :: u8. i < 32})"
  have "IDT_init K s = Some (Inr (s\<lparr>idtr := (4095, idt_at K), isr_handlers := ?h,
      idt := exception_gates ?h ?A (idt s), idtr_loaded := (4095, idt_at K), interrupts := True\<rparr>))"
    using assms(2)
    by (simp add: IDT_init_def for_loop_run register_exceptions register_exception_gates exception_vectors)
  moreover have "exception_gates ?h ?A (idt s) i =
      (if i < 32 \<or> i = 0xF0 \<or> i = 0xFF then gate_with (isr_at K i) 0x08 INT_GATE IST_EXCEPTION else idt s i)" for i
  proof (cases "i \<in> ?A")
    case True
    then have "?h i = isr_at K i" "isr_at K i \<noteq> 0"
      using assms(1) by (auto simp: isr_initial_def intro: less_trans [of _ 32])
    then show ?thesis using True by (auto simp: exception_gates_def)
  qed (simp add: exception_gates_def)
  moreover have "selector (gate_with a 8 INT_GATE IST_EXCEPTION) = 8 \<and> ist (gate_with a 8 INT_GATE IST_EXCEPTION) = IST_EXCEPTION \<and>
      type_attr (gate_with a 8 INT_GATE IST_EXCEPTION) = 0x8E" for a by (simp add: gate_with_def INT_GATE_def)
  ultimately show thesis using that by simp
qed

text \<open>
  (C16) \<open>IDT::init\<close>: the loop over the exceptions ends, and each exception vector, the vector 0xF0 and the
  spurious vector 0xFF gets a present interrupt gate in the kernel code segment that leads to its stub
  and runs on the exception stack. The other gates stay, the table is loaded with room for 256 gates,
  and interrupts are on.
\<close>

theorem IDT_init_correct:
  assumes "\<forall>i. i < 32 \<or> i = 0xF0 \<or> i = 0xFF \<longrightarrow> isr_at K i \<noteq> 0" and "isr_handlers s = isr_initial K"
  shows "\<exists>s'. IDT_init K s = Some (Inr s') \<and> idtr_loaded s' = (4095, idt_at K) \<and> interrupts s' \<and>
    (\<forall>i. if i < 32 \<or> i = 0xF0 \<or> i = 0xFF
         then gate_target (idt s' i) = isr_at K i \<and> selector (idt s' i) = 8 \<and> ist (idt s' i) = IST_EXCEPTION \<and>
              type_attr (idt s' i) = 0x8E
         else idt s' i = idt s i)"
proof -
  obtain h g where "IDT_init K s = Some (Inr (s\<lparr>idtr := (4095, idt_at K), isr_handlers := h, idt := g,
      idtr_loaded := (4095, idt_at K), interrupts := True\<rparr>))"
    and "\<forall>i. if i < 32 \<or> i = 0xF0 \<or> i = 0xFF
         then gate_target (g i) = isr_at K i \<and> selector (g i) = 8 \<and> ist (g i) = IST_EXCEPTION \<and> type_attr (g i) = 0x8E
         else g i = idt s i"
    by (rule IDT_init_ok [OF assms])
  then show ?thesis by (intro exI) (auto simp del: if_split_asm)
qed

section \<open>The interrupt stacks\<close>

lemma Frame_allocs_desc:
  "fst (Frame_allocs c (s\<lparr>ist_stacks := f, tss := t\<rparr>)) = fst (Frame_allocs c s)"
  "tss (snd (Frame_allocs c s)) = tss (s :: 'a desc_state_scheme)"
  by (simp_all add: Frame_allocs_def frame_addr_def Let_def split: prod.split)

lemma init_stacks_keep:
  "1 \<notin> set is \<Longrightarrow> 2 \<notin> set is \<Longrightarrow> ist1 (tss (init_stacks_loop is s)) = ist1 (tss s) \<and>
     ist2 (tss (init_stacks_loop is s)) = ist2 (tss s)"
proof (induction "is" arbitrary: s)
  case (Cons i "is")
  obtain p s1 where al: "Frame_allocs (IST_STACK_SIZE div FRAME_SIZE) s = (p, s1)" by fastforce
  then have "tss s1 = tss s" using Frame_allocs_desc(2) [of "IST_STACK_SIZE div FRAME_SIZE" s] by simp
  moreover have "ist1 (set_ist i v t) = ist1 t" "ist2 (set_ist i v t) = ist2 t" for v t
    using Cons.prems by (auto simp: set_ist_def)
  ultimately show ?case using Cons.IH Cons.prems al by (simp add: Let_def)
qed simp

text \<open>
  \<open>TSS::init_stacks\<close> with enough free frames in a row: each interrupt stack is meant to have four
  frames of its own, but the stack of the interrupt requests starts three frames after the start of
  the exception stack, so the two share a frame, and the exception stack grows down from the end of
  that frame into what a running interrupt request has on its stack.
\<close>

theorem ist_stacks_overlap:
  assumes wf: "frame_wf s" and free: "run_free (frames s) (unat (latest_frame s)) (unat (latest_frame s) + 7)"
    and fits: "unat (latest_frame s) + 7 \<le> unat (available_frames s)"
  shows "\<exists>p. p \<noteq> 0 \<and> get_ist_stack 1 (TSS_init_stacks s) = p + IST_STACK_SIZE \<and>
    get_ist_stack 2 (TSS_init_stacks s) = p + 12288 + IST_STACK_SIZE \<and> 12288 < IST_STACK_SIZE"
proof -
  have four: "IST_STACK_SIZE div FRAME_SIZE = 4" by (simp add: IST_STACK_SIZE_def)
  obtain p s1 where 1: "Frame_allocs 4 s = (p, s1)" by fastforce
  define s1' where "s1' = s1\<lparr>ist_stacks := (ist_stacks s1)(1 := p), tss := set_ist 1 (p + IST_STACK_SIZE) (tss s1)\<rparr>"
  obtain q s2 where 2: "Frame_allocs 4 s1' = (q, s2)" by fastforce
  then have "fst (Frame_allocs 4 s1) = q" unfolding s1'_def by (metis Frame_allocs_desc(1) fst_conv)
  then obtain s2' where 3: "Frame_allocs 4 s1 = (q, s2')" by (metis prod.collapse)
  have sum: "unat (latest_frame s) + unat (4 :: u64) + unat (4 :: u64) - 1 = unat (latest_frame s) + 7" by simp
  have c: "2 \<le> unat (4 :: u64)" by simp
  have pq: "p \<noteq> 0" "q = p + 12288" using allocs_second_block [OF wf c c _ _ 1 3, unfolded sum, OF free fits] by simp_all
  have q0: "q \<noteq> 0"
  proof -
    have "run_free (frames s) (unat (latest_frame s)) (unat (latest_frame s) + 4)"
      by (rule run_free_mono [OF free]) simp_all
    then have p: "p = frame_addr s (latest_frame s)" using Frame_allocs_free_run [of s 4] 1 fits by simp
    have "unat (latest_frame s + 3) = unat (latest_frame s) + 3"
      using fits unsigned_less [of "available_frames s", where 'a = nat] by (subst unat_add_lem [THEN iffD1]) simp_all
    then have "latest_frame s + 3 < available_frames s" using fits by (simp add: word_less_nat_alt)
    from unat_frame_addr [OF wf this] have "unat (frame_addr s (latest_frame s + 3)) \<noteq> 0" using wf by (simp add: frame_wf_def unat_eq_zero)
    moreover have "frame_addr s (latest_frame s + 3) = q"
      using frame_addr_diff [OF wf, of "latest_frame s" 3] fits p pq(2) by simp
    ultimately show ?thesis by auto
  qed
  let ?s = "s2\<lparr>ist_stacks := (ist_stacks s2)(2 := q), tss := set_ist 2 (q + IST_STACK_SIZE) (tss s2)\<rparr>"
  have "TSS_init_stacks s = init_stacks_loop [3, 4, 5, 6, 7] ?s"
    using 1 2 pq(1) q0 unfolding s1'_def by (simp add: TSS_init_stacks_def four Let_def)
  moreover have "tss s2 = tss s1'" using Frame_allocs_desc(2) [of 4 s1'] 2 by simp
  ultimately have "ist1 (tss (TSS_init_stacks s)) = p + IST_STACK_SIZE" "ist2 (tss (TSS_init_stacks s)) = q + IST_STACK_SIZE"
    using init_stacks_keep [of "[3, 4, 5, 6, 7]" ?s] by (simp_all add: s1'_def set_ist_def)
  then show ?thesis using pq by (auto simp: get_ist_stack_def IST_STACK_SIZE_def)
qed

section \<open>Witnesses\<close>

definition ex_syms :: desc_syms where
  "ex_syms = \<lparr>table_at = 0xffffffff80200000, tss_at = 0xffffffff80201000, idt_at = 0xffffffff80202000,
     isr_at = (\<lambda>i. 0xffffffff80000000 OR push_bit 4 (ucast i))\<rparr>"

definition ex_desc :: desc_state where
  "ex_desc = task_state.extend (heap_state.extend ex_heap (task_state.fields 0 0 0 0 1 False))
     (desc_state.fields tss_zero (\<lambda>_. 0) gdt_initial (0, 0) (0, 0) 0 0 0 (\<lambda>_. gate_with 0 0 0 0) (0, 0) (0, 0)
        (isr_initial ex_syms) False)"

lemma ex_desc_sel [simp]:
  "isr_handlers ex_desc = isr_initial ex_syms" "frames ex_desc = (\<lambda>k. k < 2)" "latest_frame ex_desc = 2"
  "available_frames ex_desc = 64" "base_addr ex_desc = 0xffff800000100000"
  by (simp_all add: ex_desc_def ex_heap_def ex_paging_def ex_frames_def frame_state.defs paging_state.defs
      heap_state.defs task_state.defs desc_state.defs)

theorem IDT_init_correct_witness:
  "\<exists>s'. IDT_init ex_syms ex_desc = Some (Inr s') \<and> interrupts s' \<and> gate_target (idt s' 14) = 0xffffffff800000e0"
proof -
  have "bit (isr_at ex_syms i) 63" for i by (simp add: ex_syms_def bit_simps)
  then have "isr_at ex_syms i \<noteq> 0" for i by (metis bit_0_eq bot_apply bot_bool_def)
  then obtain s' where "IDT_init ex_syms ex_desc = Some (Inr s')" "interrupts s'"
      and "\<forall>i. if i < 32 \<or> i = 0xF0 \<or> i = 0xFF then gate_target (idt s' i) = isr_at ex_syms i \<and> selector (idt s' i) = 8 \<and>
        ist (idt s' i) = IST_EXCEPTION \<and> type_attr (idt s' i) = 0x8E else idt s' i = idt ex_desc i"
    using IDT_init_correct [of ex_syms ex_desc] by auto
  then show ?thesis by (auto dest!: spec [of _ 14] simp: ex_syms_def)
qed

theorem ist_stacks_overlap_witness:
  "\<exists>p. p \<noteq> 0 \<and> get_ist_stack 1 (TSS_init_stacks ex_desc) = p + IST_STACK_SIZE \<and>
    get_ist_stack 2 (TSS_init_stacks ex_desc) = p + 12288 + IST_STACK_SIZE"
proof -
  have "frame_wf ex_desc" by (simp add: frame_wf_def)
  moreover have "run_free (frames ex_desc) 2 9" by (simp add: run_free_def word_less_nat_alt)
  ultimately show ?thesis using ist_stacks_overlap [of ex_desc] by auto
qed

end
