(* ===== verification/Timers.thy ===== *)
theory Timers
  imports Descriptors
begin

unbundle bit_operations_syntax

text \<open>
  The clock: \<open>kernel/cpu/interrupts/pit.cc\<close> (the interval timer), \<open>kernel/sys/timer.cc\<close> (the interface the
  rest of the kernel uses), \<open>kernel/cpu/interrupts/pic.cc\<close>, and the timer interrupt of
  \<open>kernel/cpu/interrupts/irq.cc\<close>.

  Output to a port is the list of the bytes written. A sleeping loop halts the processor until the
  next interrupt; the interrupts to come are a list, of timer interrupts, whose handler advances the
  tick count, and others, whose handlers do not.
\<close>

section \<open>State\<close>

datatype timer_type = T_NONE | T_PIT | T_APIC_TIMER | T_HPET

record timer_state = desc_state +
  out_log :: "(u16 \<times> u8) list"
  ticks_since_boot :: u64
  pit_frequency :: u32
  timer_interrupt_count :: u64
  active_timer :: timer_type
  timer_frequency :: u64

datatype irq_event = Timer_irq | Other_irq

definition outb :: "u16 \<Rightarrow> u8 \<Rightarrow> 'a timer_state_scheme \<Rightarrow> 'a timer_state_scheme" where
  "outb port v s = s\<lparr>out_log := out_log s @ [(port, v)]\<rparr>"

section \<open>The interval timer\<close>

definition PIT_FREQUENCY :: u32 where "PIT_FREQUENCY = 1193182"
definition PIT_COMMAND_PORT :: u16 where "PIT_COMMAND_PORT = 0x43"
definition PIT_DATA_PORT_0 :: u16 where "PIT_DATA_PORT_0 = 0x40"

definition PIT_set_frequency :: "u32 \<Rightarrow> 'a timer_state_scheme \<Rightarrow> fault + 'a timer_state_scheme" where
  "PIT_set_frequency frequency s =
     (if frequency = 0 then Inl DivideError
      else (let divisor = PIT_FREQUENCY div frequency;
                s1 = outb PIT_COMMAND_PORT 0x36 s;
                s2 = outb PIT_DATA_PORT_0 (ucast (divisor AND 0xFF)) s1
            in Inr (outb PIT_DATA_PORT_0 (ucast (drop_bit 8 divisor AND 0xFF)) s2)))"

definition PIT_init :: "u32 \<Rightarrow> 'a timer_state_scheme \<Rightarrow> fault + 'a timer_state_scheme" where
  "PIT_init frequency s = PIT_set_frequency frequency (s\<lparr>pit_frequency := frequency\<rparr>)"

definition PIT_tick :: "'a timer_state_scheme \<Rightarrow> 'a timer_state_scheme" where
  "PIT_tick s = s\<lparr>ticks_since_boot := ticks_since_boot s + 1\<rparr>"

definition PIT_get_ticks :: "'a timer_state_scheme \<Rightarrow> u64" where
  "PIT_get_ticks s = ticks_since_boot s"

definition PIT_get_uptime_ms :: "'a timer_state_scheme \<Rightarrow> u64" where
  "PIT_get_uptime_ms s =
     (if pit_frequency s = 0 then 0 else (ticks_since_boot s * 1000) div ucast (pit_frequency s))"

definition PIT_get_uptime_us :: "'a timer_state_scheme \<Rightarrow> u64" where
  "PIT_get_uptime_us s =
     (if pit_frequency s = 0 then 0 else (ticks_since_boot s * 1000000) div ucast (pit_frequency s))"

text \<open>The handler of the timer interrupt.\<close>

definition Timer_Handle :: "'a timer_state_scheme \<Rightarrow> 'a timer_state_scheme" where
  "Timer_Handle s = PIT_tick (s\<lparr>timer_interrupt_count := timer_interrupt_count s + 1\<rparr>)"

text \<open>
  The loop \<open>while (ticks_since_boot < target) hlt\<close>; \<open>None\<close> when it still sleeps after the last interrupt. A timer interrupt of the list
  is one that has reached the handler.
\<close>

fun sleep_until ::
    "u64 \<Rightarrow> irq_event list \<Rightarrow> 'a timer_state_scheme \<Rightarrow> (irq_event list \<times> 'a timer_state_scheme) option" where
  "sleep_until target ev s =
     (if ticks_since_boot s < target
      then (case ev of [] \<Rightarrow> None
            | Timer_irq # ev' \<Rightarrow> sleep_until target ev' (Timer_Handle s)
            | Other_irq # ev' \<Rightarrow> sleep_until target ev' s)
      else Some (ev, s))"

declare sleep_until.simps [simp del]

definition PIT_sleep_ms ::
    "u32 \<Rightarrow> irq_event list \<Rightarrow> 'a timer_state_scheme \<Rightarrow> (irq_event list \<times> 'a timer_state_scheme) option" where
  "PIT_sleep_ms milliseconds ev s =
     (if pit_frequency s = 0 then Some (ev, s)
      else sleep_until (ticks_since_boot s + ucast ((milliseconds * pit_frequency s) div 1000)) ev s)"

definition PIT_sleep_us ::
    "u32 \<Rightarrow> irq_event list \<Rightarrow> 'a timer_state_scheme \<Rightarrow> (irq_event list \<times> 'a timer_state_scheme) option" where
  "PIT_sleep_us microseconds ev s =
     (if pit_frequency s = 0 then Some (ev, s)
      else sleep_until (ticks_since_boot s + ucast ((microseconds * pit_frequency s) div 1000000)) ev s)"

section \<open>The legacy interrupt controller\<close>

definition PIC_disable :: "'a timer_state_scheme \<Rightarrow> 'a timer_state_scheme" where
  "PIC_disable s = outb 0xA1 0xFF (outb 0x21 0xFF s)"

section \<open>The timer interface\<close>

definition PIT_TARGET_FREQUENCY :: u32 where "PIT_TARGET_FREQUENCY = 1000"

definition Timer_init :: "'a timer_state_scheme \<Rightarrow> fault + (bool \<times> 'a timer_state_scheme)" where
  "Timer_init s =
     bind_sum (PIT_init PIT_TARGET_FREQUENCY s) (\<lambda>s1.
       Inr (True, s1\<lparr>active_timer := T_PIT, timer_frequency := ucast PIT_TARGET_FREQUENCY\<rparr>))"

definition get_active_timer :: "'a timer_state_scheme \<Rightarrow> timer_type" where
  "get_active_timer s = active_timer s"

definition get_frequency :: "'a timer_state_scheme \<Rightarrow> u64" where
  "get_frequency s = timer_frequency s"

definition get_timer_name :: "'a timer_state_scheme \<Rightarrow> string" where
  "get_timer_name s =
     (case active_timer s of T_PIT \<Rightarrow> ''PIT'' | T_APIC_TIMER \<Rightarrow> ''APIC'' | T_HPET \<Rightarrow> ''HPET'' | T_NONE \<Rightarrow> ''None'')"

definition get_counter :: "'a timer_state_scheme \<Rightarrow> u64" where
  "get_counter s = (case active_timer s of T_PIT \<Rightarrow> PIT_get_ticks s | _ \<Rightarrow> 0)"

definition get_uptime_ns :: "'a timer_state_scheme \<Rightarrow> u64" where
  "get_uptime_ns s = (case active_timer s of T_PIT \<Rightarrow> PIT_get_uptime_us s * 1000 | _ \<Rightarrow> 0)"

definition get_uptime_us :: "'a timer_state_scheme \<Rightarrow> u64" where
  "get_uptime_us s = (case active_timer s of T_PIT \<Rightarrow> PIT_get_uptime_us s | _ \<Rightarrow> 0)"

definition get_uptime_ms :: "'a timer_state_scheme \<Rightarrow> u64" where
  "get_uptime_ms s = (case active_timer s of T_PIT \<Rightarrow> PIT_get_uptime_ms s | _ \<Rightarrow> 0)"

text \<open>The arguments are 64 bit numbers; the calls of the interval timer take their lower 32 bits.\<close>

definition sleep_ns ::
    "u64 \<Rightarrow> irq_event list \<Rightarrow> 'a timer_state_scheme \<Rightarrow> (irq_event list \<times> 'a timer_state_scheme) option" where
  "sleep_ns nanoseconds ev s =
     (let us = (nanoseconds + 999) div 1000; microseconds = (if us = 0 then 1 else us) in
      case active_timer s of T_PIT \<Rightarrow> PIT_sleep_us (ucast microseconds) ev s | _ \<Rightarrow> Some (ev, s))"

definition sleep_us ::
    "u64 \<Rightarrow> irq_event list \<Rightarrow> 'a timer_state_scheme \<Rightarrow> (irq_event list \<times> 'a timer_state_scheme) option" where
  "sleep_us microseconds ev s =
     (case active_timer s of T_PIT \<Rightarrow> PIT_sleep_us (ucast microseconds) ev s | _ \<Rightarrow> Some (ev, s))"

definition sleep_ms ::
    "u64 \<Rightarrow> irq_event list \<Rightarrow> 'a timer_state_scheme \<Rightarrow> (irq_event list \<times> 'a timer_state_scheme) option" where
  "sleep_ms milliseconds ev s =
     (case active_timer s of T_PIT \<Rightarrow> PIT_sleep_ms (ucast milliseconds) ev s | _ \<Rightarrow> Some (ev, s))"

section \<open>Sleeping\<close>

text \<open>The number of timer interrupts of a list.\<close>

definition timer_irqs :: "irq_event list \<Rightarrow> nat" where
  "timer_irqs ev = length (filter (\<lambda>e. e = Timer_irq) ev)"

lemma timer_irqs_simps [simp]:
  "timer_irqs [] = 0" "timer_irqs (Timer_irq # ev) = Suc (timer_irqs ev)" "timer_irqs (Other_irq # ev) = timer_irqs ev"
  "timer_irqs (xs @ ys) = timer_irqs xs + timer_irqs ys"
  by (simp_all add: timer_irqs_def)

lemma sleep_until_ok:
  "unat (ticks_since_boot s) + n < 2 ^ 64 \<Longrightarrow> n \<le> timer_irqs ev \<Longrightarrow>
   \<exists>used rest s'. sleep_until (ticks_since_boot s + of_nat n) ev s = Some (rest, s') \<and> ev = used @ rest \<and>
     timer_irqs used = n \<and> ticks_since_boot s' = ticks_since_boot s + of_nat n"
proof (induction ev arbitrary: s n)
  case Nil
  then have "n = 0" by simp
  then show ?case by (simp add: sleep_until.simps)
next
  case (Cons e ev)
  show ?case
  proof (cases n)
    case 0
    then have "sleep_until (ticks_since_boot s + of_nat n) (e # ev) s = Some (e # ev, s)" by (simp add: sleep_until.simps)
    then show ?thesis using 0 by force
  next
    case (Suc k)
    have of_n: "unat (of_nat n :: u64) = n" using Cons.prems(1) by (simp add: unsigned_of_nat take_bit_nat_eq_self)
    have less: "ticks_since_boot s < ticks_since_boot s + of_nat n"
      using Cons.prems(1) of_n Suc by (subst word_less_nat_alt, subst unat_offset) simp_all
    show ?thesis
    proof (cases e)
      case Timer_irq
      let ?s = "Timer_Handle s"
      have t: "ticks_since_boot ?s = ticks_since_boot s + 1" by (simp add: Timer_Handle_def PIT_tick_def)
      have "unat (ticks_since_boot ?s) + k < 2 ^ 64"
        using Cons.prems(1) Suc t by (subst t, subst unat_offset) simp_all
      from Cons.IH [OF this] Cons.prems(2) Suc Timer_irq
      obtain used rest s' where r: "sleep_until (ticks_since_boot ?s + of_nat k) ev ?s = Some (rest, s')" "ev = used @ rest"
          "timer_irqs used = k" "ticks_since_boot s' = ticks_since_boot ?s + of_nat k" by auto
      have eq: "ticks_since_boot ?s + of_nat k = ticks_since_boot s + of_nat n" using Suc t by (simp add: algebra_simps)
      have "sleep_until (ticks_since_boot s + of_nat n) (e # ev) s = Some (rest, s')"
        using less r(1) Timer_irq unfolding eq by (subst sleep_until.simps) simp
      moreover have "e # ev = (e # used) @ rest" "timer_irqs (e # used) = n" using r(2,3) Timer_irq Suc by simp_all
      ultimately show ?thesis using r(4) eq by metis
    next
      case Other_irq
      from Cons.IH [OF Cons.prems(1)] Cons.prems(2) Other_irq
      obtain used rest s' where r: "sleep_until (ticks_since_boot s + of_nat n) ev s = Some (rest, s')" "ev = used @ rest"
          "timer_irqs used = n" "ticks_since_boot s' = ticks_since_boot s + of_nat n" by auto
      have "sleep_until (ticks_since_boot s + of_nat n) (e # ev) s = Some (rest, s')"
        using less r(1) Other_irq by (subst sleep_until.simps) simp
      moreover have "e # ev = (e # used) @ rest" "timer_irqs (e # used) = n" using r(2,3) Other_irq by simp_all
      ultimately show ?thesis using r(4) by metis
    qed
  qed
qed

text \<open>
  (C22) \<open>Sys::Timer::sleep_ms\<close> on the running interval timer, when milliseconds times frequency fit in 32
  bits: whatever other interrupts come between, it returns with the interrupt that completes the
  number of ticks that make up the time, and not before.
\<close>

theorem sleep_ms_wakes:
  assumes "active_timer s = T_PIT" and "pit_frequency s \<noteq> 0" and "unat ms * unat (pit_frequency s) < 2 ^ 32"
    and "n = unat ms * unat (pit_frequency s) div 1000" and "unat (ticks_since_boot s) + n < 2 ^ 64" and "n \<le> timer_irqs ev"
  shows "\<exists>used rest s'. sleep_ms ms ev s = Some (rest, s') \<and> ev = used @ rest \<and> timer_irqs used = n \<and>
    ticks_since_boot s' = ticks_since_boot s + of_nat n"
proof -
  have "unat ms < 2 ^ 32"
    using assms(2,3) by (metis less_le_trans mult.commute mult_0_right mult_le_mono2 nat_mult_1_right not_less Suc_leI unat_gt_0 word_gt_0 One_nat_def le_less_trans)
  then have "unat (ucast ms :: u32) = unat ms" by (simp add: unsigned_ucast_eq take_bit_nat_eq_self)
  then have "unat ((ucast ms :: u32) * pit_frequency s) = unat ms * unat (pit_frequency s)"
    using assms(3) by (simp add: unat_word_ariths)
  then have "unat (((ucast ms :: u32) * pit_frequency s) div 1000) = n" using assms(4) by (simp add: unat_div)
  moreover have "of_nat (unat (((ucast ms :: u32) * pit_frequency s) div 1000)) =
      (ucast (((ucast ms :: u32) * pit_frequency s) div 1000) :: u64)" by simp
  ultimately have "ucast (((ucast ms :: u32) * pit_frequency s) div 1000) = (of_nat n :: u64)" by (simp only:)
  then show ?thesis
    using sleep_until_ok [OF assms(5,6)] assms(1,2) by (simp add: sleep_ms_def PIT_sleep_ms_def)
qed

text \<open>
  \<open>Sys::Timer::sleep_us\<close> at the 1000 Hz the kernel sets, for any 64 bit time: the loop it enters waits
  for fewer than 4295 ticks, because the time is cut to 32 bits and its product with the frequency
  wraps around. So a time above 4.3 seconds never passes in full, and a time below a millisecond is
  no wait at all.
\<close>

theorem sleep_us_bounded:
  assumes "active_timer s = T_PIT" and "pit_frequency s = 1000"
  shows "\<exists>n \<le> 4294. sleep_us us ev s = sleep_until (ticks_since_boot s + of_nat n) ev s \<and> (us < 1000 \<longrightarrow> n = 0)"
proof -
  let ?d = "((ucast us :: u32) * 1000) div 1000000"
  have "unat ((ucast us :: u32) * 1000) < 2 ^ 32" using unsigned_less [of "(ucast us :: u32) * 1000", where 'a = nat] by simp
  then have n: "unat ?d \<le> 4294" by (simp add: unat_div)
  have "unat ?d = 0" if "us < 1000"
  proof -
    have "unat us < 1000" using that by (simp add: word_less_nat_alt)
    then have "unat (ucast us :: u32) = unat us" by (simp add: unsigned_ucast_eq take_bit_nat_eq_self)
    then have "unat ((ucast us :: u32) * 1000) = unat us * 1000" using \<open>unat us < 1000\<close> by (simp add: unat_word_ariths)
    then show ?thesis using \<open>unat us < 1000\<close> by (simp add: unat_div)
  qed
  then show ?thesis using n assms by (intro exI [of _ "unat ?d"]) (simp add: sleep_us_def PIT_sleep_us_def)
qed

text \<open>
  \<open>PIT::set_frequency\<close> programs the interval timer with the divisor, low byte first, when it fits 16
  bits; it divides by zero for frequency 0.
\<close>

lemma PIT_set_frequency_bytes:
  assumes "frequency \<noteq> 0"
  shows "\<exists>lo hi s'. PIT_set_frequency frequency s = Inr s' \<and> out_log s' = out_log s @ [(0x43, 0x36), (0x40, lo), (0x40, hi)] \<and>
    unat lo + 256 * unat hi = unat (PIT_FREQUENCY div frequency) mod 2 ^ 16"
proof -
  let ?d = "PIT_FREQUENCY div frequency"
  have "unat (ucast (?d AND 0xFF) :: u8) = unat ?d mod 256"
    unfolding and_masks by (subst ucast_take_bit) (simp_all add: unsigned_ucast_eq take_bit_eq_mod)
  moreover have "unat (ucast (drop_bit 8 ?d AND 0xFF) :: u8) = unat ?d div 256 mod 256"
    unfolding and_masks
    by (subst ucast_take_bit) (simp_all add: unsigned_ucast_eq take_bit_eq_mod unsigned_drop_bit_eq drop_bit_eq_div unat_div)
  moreover have "k mod 256 + 256 * (k div 256 mod 256) = k mod 2 ^ 16" for k :: nat
    using mod_mult2_eq [of k 256 256] by simp
  ultimately show ?thesis using assms
    by (simp add: PIT_set_frequency_def outb_def PIT_COMMAND_PORT_def PIT_DATA_PORT_0_def Let_def)
qed

section \<open>Witnesses\<close>

definition ex_timer :: timer_state where
  "ex_timer = desc_state.extend ex_desc (timer_state.fields [] 5 1000 5 T_PIT 1000)"

lemma ex_timer_sel [simp]: "active_timer ex_timer = T_PIT" "pit_frequency ex_timer = 1000" "ticks_since_boot ex_timer = 5"
  by (simp_all add: ex_timer_def desc_state.defs timer_state.defs)

theorem sleep_ms_wakes_witness:
  "\<exists>rest s'. sleep_ms 2 [Timer_irq, Other_irq, Timer_irq, Other_irq] ex_timer = Some (rest, s') \<and> ticks_since_boot s' = 7"
proof -
  let ?ev = "[Timer_irq, Other_irq, Timer_irq, Other_irq]"
  have "\<exists>used rest s'. sleep_ms 2 ?ev ex_timer = Some (rest, s') \<and> ?ev = used @ rest \<and> timer_irqs used = 2 \<and>
      ticks_since_boot s' = ticks_since_boot ex_timer + of_nat 2"
    by (rule sleep_ms_wakes) simp_all
  then obtain rest s' where "sleep_ms 2 ?ev ex_timer = Some (rest, s')" "ticks_since_boot s' = ticks_since_boot ex_timer + of_nat 2"
    by (elim exE conjE)
  then show ?thesis by (intro exI conjI) simp_all
qed

theorem sleep_us_bounded_witness:
  "\<exists>n \<le> 4294. sleep_us 5000000000 [] ex_timer = sleep_until (5 + of_nat n) [] ex_timer"
proof -
  obtain n where "n \<le> 4294" "sleep_us 5000000000 [] ex_timer = sleep_until (5 + of_nat n) [] ex_timer"
    using sleep_us_bounded [OF ex_timer_sel(1,2), unfolded ex_timer_sel, of 5000000000 "[]"] by (elim exE conjE)
  then show ?thesis by (intro exI conjI)
qed

end
