(* ===== verification/Lapic.thy ===== *)
theory Lapic
  imports Timers
begin

unbundle bit_operations_syntax

text \<open>
  The local interrupt controller and its timer, \<open>kernel/cpu/lapic/lapic.cc\<close> and \<open>include/cpu/lapic.h\<close>.

  Its registers are 32 bit cells at virtual addresses, written by the kernel; the count register is also
  written by the device, so the two values it has when the calibration reads it are parameters. The
  calibration waits for the interval timer in a busy loop that the timer interrupts advance, the
  loop \<open>sleep_until\<close> of the clock.
\<close>

section \<open>State\<close>

datatype lapic_mode = ONE_SHOT | PERIODIC | TSC_DEADLINE

datatype lapic_divider = DIV_BY_2 | DIV_BY_4 | DIV_BY_8 | DIV_BY_16 | DIV_BY_32 | DIV_BY_64 | DIV_BY_128 | DIV_BY_1

primrec divider_code :: "lapic_divider \<Rightarrow> u32" where
  "divider_code DIV_BY_2 = 0"
| "divider_code DIV_BY_4 = 1"
| "divider_code DIV_BY_8 = 2"
| "divider_code DIV_BY_16 = 3"
| "divider_code DIV_BY_32 = 8"
| "divider_code DIV_BY_64 = 9"
| "divider_code DIV_BY_128 = 10"
| "divider_code DIV_BY_1 = 11"

record lapic_state = timer_state +
  msr :: "u32 \<Rightarrow> u64"
  mmio :: "u64 \<Rightarrow> u32"
  apic_timer_frequency :: u64
  apic_timer_ticks_per_ms :: u32

definition LAPIC_TIMER_LVT :: u32 where "LAPIC_TIMER_LVT = 0x320"
definition LAPIC_TIMER_INITIAL_COUNT :: u32 where "LAPIC_TIMER_INITIAL_COUNT = 0x380"
definition LAPIC_TIMER_CURRENT_COUNT :: u32 where "LAPIC_TIMER_CURRENT_COUNT = 0x390"
definition LAPIC_TIMER_DIVIDE_CONFIG :: u32 where "LAPIC_TIMER_DIVIDE_CONFIG = 0x3E0"

section \<open>Registers\<close>

definition wrmsr :: "u32 \<Rightarrow> u64 \<Rightarrow> 'a lapic_state_scheme \<Rightarrow> 'a lapic_state_scheme" where
  "wrmsr r v s =
     (let lo = ucast (v AND 0xFFFFFFFF) :: u32; hi = ucast (drop_bit 32 v) :: u32 in
      s\<lparr>msr := (msr s)(r := push_bit 32 (ucast hi) OR ucast lo)\<rparr>)"

definition rdmsr :: "u32 \<Rightarrow> 'a lapic_state_scheme \<Rightarrow> u64" where
  "rdmsr r s =
     (let lo = ucast (msr s r) :: u32; hi = ucast (drop_bit 32 (msr s r)) :: u32 in push_bit 32 (ucast hi) OR ucast lo)"

definition LAPIC_base :: "'a lapic_state_scheme \<Rightarrow> u64" where
  "LAPIC_base s = PHYS2VIRT s (rdmsr 0x1B s AND 0xFFFFF000)"

definition LAPIC_read :: "u32 \<Rightarrow> 'a lapic_state_scheme \<Rightarrow> u32" where
  "LAPIC_read reg s = mmio s (LAPIC_base s + ucast reg)"

definition LAPIC_write :: "u32 \<Rightarrow> u32 \<Rightarrow> 'a lapic_state_scheme \<Rightarrow> 'a lapic_state_scheme" where
  "LAPIC_write reg v s = s\<lparr>mmio := (mmio s)(LAPIC_base s + ucast reg := v)\<rparr>"

definition LAPIC_id :: "'a lapic_state_scheme \<Rightarrow> u32" where
  "LAPIC_id s = drop_bit 24 (LAPIC_read 0x20 s)"

definition LAPIC_eoi :: "'a lapic_state_scheme \<Rightarrow> 'a lapic_state_scheme" where
  "LAPIC_eoi s = LAPIC_write 0xB0 0 s"

definition LAPIC_init :: "'a lapic_state_scheme \<Rightarrow> fault + 'a lapic_state_scheme" where
  "LAPIC_init s =
     (let msr_val = rdmsr 0x1B s;
          s1 = wrmsr 0x1B (msr_val OR 0x800) s;
          phys_addr = msr_val AND 0xFFFFF000
      in bind_sum (Paging_map phys_addr (PHYS2VIRT s1 phys_addr) (PAGE_PRESENT OR PAGE_WRITE) s1) (\<lambda>s2.
         Inr (LAPIC_write 0xf0 (0xff OR 0x100) s2)))"

section \<open>The timer\<close>

definition set_initial_count :: "u32 \<Rightarrow> 'a lapic_state_scheme \<Rightarrow> 'a lapic_state_scheme" where
  "set_initial_count c s = LAPIC_write LAPIC_TIMER_INITIAL_COUNT c s"

definition get_current_count :: "'a lapic_state_scheme \<Rightarrow> u32" where
  "get_current_count s = LAPIC_read LAPIC_TIMER_CURRENT_COUNT s"

definition set_divider :: "lapic_divider \<Rightarrow> 'a lapic_state_scheme \<Rightarrow> 'a lapic_state_scheme" where
  "set_divider d s = LAPIC_write LAPIC_TIMER_DIVIDE_CONFIG (divider_code d) s"

definition LAPIC_enable :: "'a lapic_state_scheme \<Rightarrow> 'a lapic_state_scheme" where
  "LAPIC_enable s =
     (let lvt = LAPIC_read LAPIC_TIMER_LVT s in LAPIC_write LAPIC_TIMER_LVT (lvt AND NOT (push_bit 16 1)) s)"

definition LAPIC_disable :: "'a lapic_state_scheme \<Rightarrow> 'a lapic_state_scheme" where
  "LAPIC_disable s =
     (let lvt = LAPIC_read LAPIC_TIMER_LVT s in LAPIC_write LAPIC_TIMER_LVT (lvt OR push_bit 16 1) s)"

definition LAPIC_mask :: "'a lapic_state_scheme \<Rightarrow> 'a lapic_state_scheme" where
  "LAPIC_mask s = LAPIC_disable s"

definition LAPIC_unmask :: "'a lapic_state_scheme \<Rightarrow> 'a lapic_state_scheme" where
  "LAPIC_unmask s = LAPIC_enable s"

text \<open>The device sets its count register.\<close>

definition device_count :: "u32 \<Rightarrow> 'a lapic_state_scheme \<Rightarrow> 'a lapic_state_scheme" where
  "device_count c s = s\<lparr>mmio := (mmio s)(LAPIC_base s + ucast LAPIC_TIMER_CURRENT_COUNT := c)\<rparr>"

definition calibrate_frequency ::
    "u32 \<Rightarrow> u32 \<Rightarrow> irq_event list \<Rightarrow> 'a lapic_state_scheme \<Rightarrow> (u64 \<times> irq_event list \<times> 'a lapic_state_scheme) option" where
  "calibrate_frequency c0 c1 ev s =
     (let s1 = set_divider DIV_BY_1 s;
          lvt_backup = LAPIC_read LAPIC_TIMER_LVT s1;
          s2 = LAPIC_write LAPIC_TIMER_LVT (push_bit 16 1) s1;
          s3 = device_count c0 (set_initial_count 0xFFFFFFFF s2);
          start_count = get_current_count s3;
          start_pit_ticks = PIT_get_ticks s3;
          target_pit_ticks = start_pit_ticks + 10
      in case sleep_until target_pit_ticks ev s3 of
           None \<Rightarrow> None
         | Some (ev', s4) \<Rightarrow>
             (let s5 = device_count c1 s4;
                  end_count = get_current_count s5;
                  actual_pit_ticks = PIT_get_ticks s5 - start_pit_ticks
              in if actual_pit_ticks = 0 then Some (0, ev', LAPIC_write LAPIC_TIMER_LVT lvt_backup s5)
                 else (let apic_ticks = start_count - end_count;
                           frequency = (ucast apic_ticks * 1000) div actual_pit_ticks
                       in Some (frequency, ev', LAPIC_write LAPIC_TIMER_LVT lvt_backup s5))))"

definition LAPIC_Timer_init ::
    "u8 \<Rightarrow> lapic_mode \<Rightarrow> lapic_divider \<Rightarrow> u32 \<Rightarrow> u32 \<Rightarrow> irq_event list \<Rightarrow> 'a lapic_state_scheme \<Rightarrow>
     (irq_event list \<times> 'a lapic_state_scheme) option" where
  "LAPIC_Timer_init vector mode d c0 c1 ev s =
     (let s1 = set_divider d (LAPIC_disable s);
          lvt_value = (case mode of ONE_SHOT \<Rightarrow> ucast vector
                       | PERIODIC \<Rightarrow> ucast vector OR push_bit 17 1
                       | TSC_DEADLINE \<Rightarrow> ucast vector OR push_bit 17 2);
          s2 = LAPIC_write LAPIC_TIMER_LVT lvt_value s1
      in case calibrate_frequency c0 c1 ev s2 of
           None \<Rightarrow> None
         | Some (f, ev', s3) \<Rightarrow>
             Some (ev', LAPIC_enable (s3\<lparr>apic_timer_frequency := f, apic_timer_ticks_per_ms := ucast (f div 1000)\<rparr>)))"

text \<open>The loop over the dividers: the last count and the divider, 1 when the loop finds none.\<close>

fun divider_loop :: "u64 \<Rightarrow> u32 \<Rightarrow> u32 list \<Rightarrow> u64 \<Rightarrow> fault + (u64 \<times> u32)" where
  "divider_loop freq target [] cnt = Inr (cnt, 1)"
| "divider_loop freq target (i # is) cnt =
     (if target * i = 0 then Inl DivideError
      else (let cnt' = freq div ucast (target * i) in
            if cnt' \<le> 0xFFFFFFFF then Inr (cnt', i) else divider_loop freq target is cnt'))"

definition divider_of :: "u32 \<Rightarrow> lapic_divider" where
  "divider_of v =
     (if v = 1 then DIV_BY_1 else if v = 2 then DIV_BY_2 else if v = 4 then DIV_BY_4 else if v = 8 then DIV_BY_8
      else if v = 16 then DIV_BY_16 else if v = 32 then DIV_BY_32 else if v = 64 then DIV_BY_64
      else if v = 128 then DIV_BY_128 else DIV_BY_1)"

definition LAPIC_set_frequency :: "u32 \<Rightarrow> 'a lapic_state_scheme \<Rightarrow> fault + 'a lapic_state_scheme" where
  "LAPIC_set_frequency target_hz s =
     (if apic_timer_frequency s = 0 then Inr s
      else if target_hz = 0 then Inl DivideError
      else (let cnt = apic_timer_frequency s div ucast target_hz in
        bind_sum (if cnt > 0xFFFFFFFF
                  then divider_loop (apic_timer_frequency s) target_hz [1, 2, 4, 8, 16, 32, 64, 128] cnt
                  else Inr (cnt, 1)) (\<lambda>(cnt, divider_value).
          let (cnt, divider_value) = (if cnt > 0xFFFFFFFF then (0xFFFFFFFF, 128) else (cnt, divider_value));
              s1 = set_divider (divider_of divider_value) (LAPIC_disable s);
              s2 = set_initial_count (ucast cnt) s1;
              new_lvt = 0x21 OR push_bit 17 1;
              s3 = LAPIC_write LAPIC_TIMER_LVT new_lvt s2
          in Inr (LAPIC_enable s3))))"

section \<open>Register access\<close>

named_theorems lapic_simps

lemma split_halves: "push_bit 32 (ucast (ucast (drop_bit 32 (v :: u64)) :: u32)) OR ucast (ucast v :: u32) = v"
  (is "?w = v")
proof (rule bit_word_eqI)
  fix k :: nat
  assume "k < LENGTH(64)"
  then consider "k < 32" | "32 \<le> k" "k < 64" by fastforce
  then show "bit ?w k = bit v k"
    by cases (auto simp: bit_simps)
qed

lemma rdmsr_value [lapic_simps]: "rdmsr r s = msr s r"
  by (simp add: rdmsr_def split_halves)

lemma wrmsr_value [lapic_simps]: "wrmsr r v s = s\<lparr>msr := (msr s)(r := v)\<rparr>"
  unfolding wrmsr_def Let_def and_masks by (simp add: ucast_take_bit split_halves)

lemma LAPIC_base_keep [lapic_simps]:
  "LAPIC_base (s\<lparr>mmio := f\<rparr>) = LAPIC_base s" "LAPIC_base (s\<lparr>apic_timer_frequency := x\<rparr>) = LAPIC_base s"
  "LAPIC_base (s\<lparr>apic_timer_ticks_per_ms := y\<rparr>) = LAPIC_base s"
  by (simp_all add: LAPIC_base_def PHYS2VIRT_def lapic_simps)

lemma LAPIC_base_write [lapic_simps]: "LAPIC_base (LAPIC_write r v s) = LAPIC_base s"
  by (simp add: LAPIC_write_def lapic_simps)

lemma ucast_u32_eq [lapic_simps]: "(ucast (x :: u32) :: u64) = ucast y \<longleftrightarrow> x = y"
  by (metis ucast_ucast_u32)

lemma read_write [lapic_simps]: "LAPIC_read r (LAPIC_write r' v s) = (if r = r' then v else LAPIC_read r s)"
  by (simp add: LAPIC_read_def LAPIC_write_def lapic_simps)

lemma read_other [lapic_simps]:
  "LAPIC_read r (s\<lparr>apic_timer_frequency := x\<rparr>) = LAPIC_read r s"
  "LAPIC_read r (s\<lparr>apic_timer_ticks_per_ms := y\<rparr>) = LAPIC_read r s"
  by (simp_all add: LAPIC_read_def lapic_simps)

lemma read_device [lapic_simps]:
  "LAPIC_read r (device_count c s) = (if r = LAPIC_TIMER_CURRENT_COUNT then c else LAPIC_read r s)"
  by (simp add: LAPIC_read_def device_count_def lapic_simps)

lemma write_fields [lapic_simps]:
  "apic_timer_frequency (LAPIC_write r v s) = apic_timer_frequency s" "ticks_since_boot (LAPIC_write r v s) = ticks_since_boot s"
  "ticks_since_boot (device_count c s) = ticks_since_boot s"
  by (simp_all add: LAPIC_write_def device_count_def)

lemmas [lapic_simps] = LAPIC_enable_def LAPIC_disable_def set_divider_def set_initial_count_def get_current_count_def
  LAPIC_TIMER_LVT_def LAPIC_TIMER_INITIAL_COUNT_def LAPIC_TIMER_CURRENT_COUNT_def LAPIC_TIMER_DIVIDE_CONFIG_def Let_def

section \<open>Setting the frequency\<close>

text \<open>
  The specification of the choice: the smallest power of two up to 128 by which the clock has to be
  divided for the count to fit its 32 bit register.
\<close>

definition best_divider :: "u64 \<Rightarrow> u32 \<Rightarrow> nat option" where
  "best_divider freq target = find (\<lambda>d. unat freq div (unat target * d) \<le> 0xFFFFFFFF) [1, 2, 4, 8, 16, 32, 64, 128]"

lemma divider_loop_find:
  assumes "target \<noteq> 0" and "\<forall>i \<in> set is. i \<noteq> 0 \<and> unat target * unat i < 2 ^ 32"
  shows "divider_loop freq target is c =
    (case find (\<lambda>i. unat freq div (unat target * unat i) \<le> 0xFFFFFFFF) is of
       None \<Rightarrow> Inr (if is = [] then c else freq div ucast (target * last is), 1)
     | Some i \<Rightarrow> Inr (freq div ucast (target * i), i))"
  using assms(2)
proof (induction "is" arbitrary: c)
  case (Cons i "is")
  have m: "unat (target * i) = unat target * unat i" using Cons.prems by (simp add: unat_word_ariths)
  then have "target * i \<noteq> 0" using assms(1) Cons.prems by (auto simp: word_unat_eq_iff)
  moreover have "freq div ucast (target * i) \<le> 0xFFFFFFFF \<longleftrightarrow> unat freq div (unat target * unat i) \<le> 0xFFFFFFFF"
    by (simp add: word_le_nat_alt unat_div m)
  ultimately show ?case using Cons by (auto simp: Let_def split: option.split)
qed simp

definition spec_divider :: "u64 \<Rightarrow> u32 \<Rightarrow> nat" where
  "spec_divider freq target = (case best_divider freq target of None \<Rightarrow> 128 | Some d \<Rightarrow> d)"

definition spec_count :: "u64 \<Rightarrow> u32 \<Rightarrow> nat" where
  "spec_count freq target =
     (case best_divider freq target of None \<Rightarrow> 0xFFFFFFFF | Some d \<Rightarrow> unat freq div (unat target * d))"

lemma find_holds: "find P xs = Some x \<Longrightarrow> P x"
  by (induction xs) (auto split: if_splits)

lemma chosen_divider:
  assumes "target \<noteq> 0" and "unat target * 128 < 2 ^ 32" and c: "c = freq div ucast target"
  shows "\<exists>cnt d. (if c > 0xFFFFFFFF then divider_loop freq target [1, 2, 4, 8, 16, 32, 64, 128] c else Inr (c, 1)) = Inr (cnt, d) \<and>
    (if cnt > 0xFFFFFFFF then (0xFFFFFFFF, 128) else (cnt, d)) =
      (of_nat (spec_count freq target), of_nat (spec_divider freq target)) \<and> spec_count freq target \<le> 0xFFFFFFFF"
proof -
  let ?is = "[1, 2, 4, 8, 16, 32, 64, 128] :: u32 list" and ?P = "\<lambda>i :: u32. unat freq div (unat target * unat i) \<le> 0xFFFFFFFF"
  have "is": "\<forall>i \<in> set ?is. i \<noteq> 0 \<and> unat target * unat i < 2 ^ 32" using assms(2) by simp
  have best: "best_divider freq target = map_option unat (find ?P ?is)" by (simp add: best_divider_def)
  have big: "c > 0xFFFFFFFF \<longleftrightarrow> \<not> ?P 1" by (simp add: c word_less_nat_alt unat_div not_le)
  define v where "v i = freq div ucast (target * i)" for i
  have v: "unat (v i) = unat freq div (unat target * unat i)" if "i \<in> set ?is" for i
  proof -
    have "unat target * unat i < 2 ^ 32" using "is" that by blast
    then show ?thesis by (simp add: v_def unat_div unat_word_ariths)
  qed
  have v_of: "v i = of_nat (unat freq div (unat target * unat i))" if "i \<in> set ?is" for i
    using v [OF that] by (metis of_nat_unat ucast_id)
  note loop = divider_loop_find [OF assms(1) "is", of freq c]
  show ?thesis
  proof (cases "find ?P ?is")
    case None
    then have b: "best_divider freq target = None" unfolding best by (simp only: option.map)
    have "\<forall>i \<in> set ?is. \<not> ?P i" using None unfolding find_None_iff by blast
    then have no: "\<not> ?P 1" "\<not> ?P 128" by (simp_all only: list.set insert_iff simp_thms ball_simps)
    have "v 128 > 0xFFFFFFFF" using no(2) v [of 128] by (simp add: word_less_nat_alt)
    then show ?thesis using loop None big no(1) b by (simp add: spec_count_def spec_divider_def v_def)
  next
    case (Some i)
    have i: "i \<in> set ?is" "?P i" using find_in_set [OF Some] find_holds [OF Some] .
    have b: "best_divider freq target = Some (unat i)" using Some best by simp
    have small: "\<not> v i > 0xFFFFFFFF" using i(2) v [OF i(1)] by (simp add: word_less_nat_alt)
    have "c = v 1" by (simp add: c v_def)
    moreover have "i = 1" if "?P 1" using Some that by simp
    ultimately have "(if c > 0xFFFFFFFF then divider_loop freq target ?is c else Inr (c, 1)) = Inr (v i, i)"
      using loop Some big by (cases "?P 1") (simp_all add: v_def)
    then show ?thesis using small b v_of [OF i(1)] i(2) by (simp add: spec_count_def spec_divider_def)
  qed
qed

text \<open>
  (C23) \<open>LAPIC::Timer::set_frequency\<close> on a calibrated timer, for a frequency whose multiples do not
  overflow: it programs the smallest divider for which the count fits its register and that count, or
  the largest of both when no divider is enough, and leaves the timer periodic and unmasked on
  vector 0x21. Without a calibration it does nothing, and a frequency of 0 divides by zero.
\<close>

theorem LAPIC_set_frequency_correct:
  "(apic_timer_frequency s = 0 \<longrightarrow> LAPIC_set_frequency target s = Inr s) \<and>
   (apic_timer_frequency s \<noteq> 0 \<and> target = 0 \<longrightarrow> LAPIC_set_frequency target s = Inl DivideError) \<and>
   (apic_timer_frequency s \<noteq> 0 \<and> target \<noteq> 0 \<and> unat target * 128 < 2 ^ 32 \<longrightarrow>
     (\<exists>s'. LAPIC_set_frequency target s = Inr s' \<and>
        LAPIC_read LAPIC_TIMER_DIVIDE_CONFIG s' =
          divider_code (divider_of (of_nat (spec_divider (apic_timer_frequency s) target))) \<and>
        unat (LAPIC_read LAPIC_TIMER_INITIAL_COUNT s') = spec_count (apic_timer_frequency s) target \<and>
        LAPIC_read LAPIC_TIMER_LVT s' = 0x20021))"
proof -
  let ?f = "apic_timer_frequency s"
  have "\<exists>s'. LAPIC_set_frequency target s = Inr s' \<and>
        LAPIC_read LAPIC_TIMER_DIVIDE_CONFIG s' = divider_code (divider_of (of_nat (spec_divider ?f target))) \<and>
        unat (LAPIC_read LAPIC_TIMER_INITIAL_COUNT s') = spec_count ?f target \<and> LAPIC_read LAPIC_TIMER_LVT s' = 0x20021"
    if h: "?f \<noteq> 0" "target \<noteq> 0" "unat target * 128 < 2 ^ 32"
  proof -
    obtain cnt d where ch: "(if ?f div ucast target > 0xFFFFFFFF then divider_loop ?f target [1, 2, 4, 8, 16, 32, 64, 128] (?f div ucast target)
          else Inr (?f div ucast target, 1)) = Inr (cnt, d)"
        "(if cnt > 0xFFFFFFFF then (0xFFFFFFFF, 128) else (cnt, d)) = (of_nat (spec_count ?f target), of_nat (spec_divider ?f target))"
        "spec_count ?f target \<le> 0xFFFFFFFF"
      using chosen_divider [OF h(2,3) refl, of ?f] by (elim exE conjE)
    have "unat (ucast (of_nat (spec_count ?f target) :: u64) :: u32) = spec_count ?f target"
      using ch(3) by (simp add: unsigned_ucast_eq unsigned_of_nat take_bit_nat_eq_self)
    then show ?thesis using h ch(1,2) unfolding LAPIC_set_frequency_def
      by (simp add: lapic_simps del: divider_loop.simps)
  qed
  then show ?thesis by (simp add: LAPIC_set_frequency_def)
qed

section \<open>Initialising the timer\<close>

lemma sleep_until_keep:
  "sleep_until t ev s = Some (ev', s') \<Longrightarrow> msr s' = msr s \<and> mmio s' = mmio (s :: 'a lapic_state_scheme) \<and>
     (\<forall>a. PHYS2VIRT s' a = PHYS2VIRT s a) \<and> t \<le> ticks_since_boot s'"
proof (induction t ev s rule: sleep_until.induct)
  case (1 t ev s)
  then show ?case
    by (cases "ticks_since_boot s < t")
      (auto simp: sleep_until.simps [of t ev] Timer_Handle_def PIT_tick_def PHYS2VIRT_def not_less
        split: list.splits irq_event.splits)
qed

lemma clear_bit_16: "\<not> bit (x :: u32) 16 \<Longrightarrow> x AND NOT (push_bit 16 1) = x"
proof -
  assume x: "\<not> bit x 16"
  have "push_bit 16 1 = (2 ^ 16 :: u32)" by simp
  then show ?thesis using x by (intro bit_word_eqI) (auto simp only: bit_and_iff bit_not_iff bit_exp_iff possible_bit_word)
qed

lemma calibrate_regs:
  assumes "calibrate_frequency c0 c1 ev s = Some (f, ev', s')"
  shows "LAPIC_read LAPIC_TIMER_LVT s' = LAPIC_read LAPIC_TIMER_LVT s \<and>
    LAPIC_read LAPIC_TIMER_DIVIDE_CONFIG s' = divider_code DIV_BY_1"
proof -
  define s3 where "s3 = device_count c0 (set_initial_count 0xFFFFFFFF (LAPIC_write LAPIC_TIMER_LVT (push_bit 16 1)
    (set_divider DIV_BY_1 s)))"
  obtain s4 where s4: "sleep_until (PIT_get_ticks s3 + 10) ev s3 = Some (ev', s4)"
      and s': "s' = LAPIC_write LAPIC_TIMER_LVT (LAPIC_read LAPIC_TIMER_LVT (set_divider DIV_BY_1 s)) (device_count c1 s4)"
    using assms unfolding calibrate_frequency_def Let_def s3_def [symmetric]
    by (auto simp: PIT_get_ticks_def split: option.splits if_splits)
  have "LAPIC_read r s4 = LAPIC_read r s3" for r
    using sleep_until_keep [OF s4] by (simp add: LAPIC_read_def LAPIC_base_def rdmsr_value)
  then show ?thesis by (simp add: s' s3_def lapic_simps)
qed

text \<open>
  \<open>LAPIC::Timer::init\<close>, once the calibration returns: the local vector entry holds the vector and
  the mode, unmasked. The divider of the caller is lost, because the calibration programs its own and
  does not restore it: the timer always counts undivided.
\<close>

theorem LAPIC_Timer_init_regs:
  assumes "LAPIC_Timer_init vector mode d c0 c1 ev s = Some (ev', s')"
  shows "LAPIC_read LAPIC_TIMER_LVT s' =
      ucast vector OR (case mode of ONE_SHOT \<Rightarrow> 0 | PERIODIC \<Rightarrow> push_bit 17 1 | TSC_DEADLINE \<Rightarrow> push_bit 17 2) \<and>
    LAPIC_read LAPIC_TIMER_DIVIDE_CONFIG s' = divider_code DIV_BY_1"
proof -
  let ?lvt = "(case mode of ONE_SHOT \<Rightarrow> ucast vector | PERIODIC \<Rightarrow> ucast vector OR push_bit 17 1
    | TSC_DEADLINE \<Rightarrow> ucast vector OR push_bit 17 2) :: u32"
  obtain f s3 where c: "calibrate_frequency c0 c1 ev (LAPIC_write LAPIC_TIMER_LVT ?lvt (set_divider d (LAPIC_disable s))) = Some (f, ev', s3)"
      and s': "s' = LAPIC_enable (s3\<lparr>apic_timer_frequency := f, apic_timer_ticks_per_ms := ucast (f div 1000)\<rparr>)"
    using assms unfolding LAPIC_Timer_init_def Let_def by (auto split: option.splits prod.splits)
  have "\<not> bit (ucast vector :: u32) 16" using bit_imp_le_length [of vector 16] by (auto simp: bit_simps)
  then have "\<not> bit ?lvt 16" by (simp add: bit_simps split: lapic_mode.split)
  then have "?lvt AND NOT (push_bit 16 1) = ?lvt" by (rule clear_bit_16)
  moreover have "?lvt = ucast vector OR (case mode of ONE_SHOT \<Rightarrow> 0 | PERIODIC \<Rightarrow> push_bit 17 1 | TSC_DEADLINE \<Rightarrow> push_bit 17 2)"
    by (simp split: lapic_mode.split)
  ultimately show ?thesis using calibrate_regs [OF c] by (simp add: s' lapic_simps)
qed

section \<open>Witnesses\<close>

definition ex_lapic :: lapic_state where
  "ex_lapic = timer_state.extend ex_timer (lapic_state.fields (\<lambda>_. 0xfee00900) (\<lambda>_. 0) 10000000000 10000000)"

lemma ex_lapic_sel [simp]:
  "apic_timer_frequency ex_lapic = 10000000000" "ticks_since_boot ex_lapic = 5" "active_timer ex_lapic = T_PIT"
  by (simp_all add: ex_lapic_def timer_state.defs lapic_state.defs ex_timer_def desc_state.defs)

theorem LAPIC_set_frequency_correct_witness:
  "\<exists>s'. LAPIC_set_frequency 1 ex_lapic = Inr s' \<and> LAPIC_read LAPIC_TIMER_DIVIDE_CONFIG s' = divider_code DIV_BY_4 \<and>
     unat (LAPIC_read LAPIC_TIMER_INITIAL_COUNT s') = 2500000000"
proof -
  have "best_divider 10000000000 1 = Some 4" by (simp add: best_divider_def)
  then show ?thesis using LAPIC_set_frequency_correct [of ex_lapic 1]
    by (auto simp: spec_divider_def spec_count_def divider_of_def)
qed

theorem LAPIC_Timer_init_regs_witness:
  "\<exists>ev' s'. LAPIC_Timer_init 0x21 PERIODIC DIV_BY_16 0xFFFFFFFF 0xFF000000 (replicate 10 Timer_irq) ex_lapic = Some (ev', s') \<and>
     LAPIC_read LAPIC_TIMER_LVT s' = 0x20021 \<and> LAPIC_read LAPIC_TIMER_DIVIDE_CONFIG s' = divider_code DIV_BY_1"
proof -
  let ?ev = "replicate 10 Timer_irq"
  define s3 where "s3 = device_count 0xFFFFFFFF (set_initial_count 0xFFFFFFFF (LAPIC_write LAPIC_TIMER_LVT (push_bit 16 1)
    (set_divider DIV_BY_1 (LAPIC_write LAPIC_TIMER_LVT (ucast (0x21 :: u8) OR push_bit 17 1) (set_divider DIV_BY_16 (LAPIC_disable ex_lapic))))))"
  have t: "ticks_since_boot s3 = 5" by (simp add: s3_def lapic_simps)
  have "timer_irqs ?ev = 10" by (simp add: timer_irqs_def)
  then obtain rest s4 where s4: "sleep_until (ticks_since_boot s3 + of_nat 10) ?ev s3 = Some (rest, s4)"
    using sleep_until_ok [of s3 10 ?ev] t by auto
  have "\<exists>f ev' s'. calibrate_frequency 0xFFFFFFFF 0xFF000000 ?ev (LAPIC_write LAPIC_TIMER_LVT (ucast (0x21 :: u8) OR push_bit 17 1)
      (set_divider DIV_BY_16 (LAPIC_disable ex_lapic))) = Some (f, ev', s')"
    unfolding calibrate_frequency_def Let_def s3_def [symmetric] PIT_get_ticks_def using s4 by simp
  then obtain ev' s' where i: "LAPIC_Timer_init 0x21 PERIODIC DIV_BY_16 0xFFFFFFFF 0xFF000000 ?ev ex_lapic = Some (ev', s')"
    by (auto simp: LAPIC_Timer_init_def Let_def)
  from LAPIC_Timer_init_regs [OF this] i show ?thesis by auto
qed

end
