(* ===== verification/Ioapic.thy ===== *)
theory Ioapic
  imports Lapic
begin

unbundle bit_operations_syntax

text \<open>
  The interrupt controllers of the devices, \<open>kernel/sys/ioapic.cc\<close>: \<open>init\<close> reads them and the interrupt source
  overrides from a table of the firmware, \<open>set\<close> programs a redirection entry, \<open>dump_entries\<close> logs the
  entries.

  The layout of the firmware's table belongs to a header of the ACPI library, so it is a parameter:
  where the entries start, how long the table is, the type and length of an entry and the fields the
  code reads. A controller answers through a window on the register that was selected last, and
  keeps one 32 bit value per register.
\<close>

section \<open>State\<close>

record ioapic_rec =
  address :: u32
  gsi_base :: u32

record iso_rec =
  source :: u8
  gsi :: u32
  flags :: u16

record madt_abi =
  madt_table :: "u64 option"
  entries_at :: "u64 \<Rightarrow> u64"
  hdr_length :: "memory \<Rightarrow> u64 \<Rightarrow> u32"
  sizeof_madt :: u64
  entry_type :: "memory \<Rightarrow> u64 \<Rightarrow> u8"
  entry_length :: "memory \<Rightarrow> u64 \<Rightarrow> u8"
  type_ioapic :: u8
  type_iso :: u8
  ioapic_of :: "memory \<Rightarrow> u64 \<Rightarrow> ioapic_rec"
  iso_of :: "memory \<Rightarrow> u64 \<Rightarrow> iso_rec"

record ioapic_state = lapic_state +
  apics :: "u8 \<Rightarrow> ioapic_rec"
  iso :: "u8 \<Rightarrow> iso_rec"
  apic_ent :: u8
  iso_ent :: u8
  io_select :: "u64 \<Rightarrow> u32"
  io_regs :: "u64 \<Rightarrow> u32 \<Rightarrow> u32"

section \<open>Registers\<close>

definition select_reg :: "u64 \<Rightarrow> u32 \<Rightarrow> 'a ioapic_state_scheme \<Rightarrow> 'a ioapic_state_scheme" where
  "select_reg virt reg s = s\<lparr>io_select := (io_select s)(virt := reg)\<rparr>"

definition window_store :: "u64 \<Rightarrow> u32 \<Rightarrow> 'a ioapic_state_scheme \<Rightarrow> 'a ioapic_state_scheme" where
  "window_store virt v s = s\<lparr>io_regs := (io_regs s)(virt := (io_regs s virt)(io_select s virt := v))\<rparr>"

definition window_load :: "u64 \<Rightarrow> 'a ioapic_state_scheme \<Rightarrow> u32" where
  "window_load virt s = io_regs s virt (io_select s virt)"

definition IOAPIC_write :: "u64 \<Rightarrow> u32 \<Rightarrow> u32 \<Rightarrow> 'a ioapic_state_scheme \<Rightarrow> 'a ioapic_state_scheme" where
  "IOAPIC_write base reg v s =
     (let virt = PHYS2VIRT s base in window_store virt v (select_reg virt reg s))"

definition IOAPIC_read :: "u64 \<Rightarrow> u32 \<Rightarrow> 'a ioapic_state_scheme \<Rightarrow> u32 \<times> 'a ioapic_state_scheme" where
  "IOAPIC_read base reg s =
     (let virt = PHYS2VIRT s base; s1 = select_reg virt reg s in (window_load virt s1, s1))"

section \<open>Reading the table\<close>

definition madt_entry :: "madt_abi \<Rightarrow> u64 \<Rightarrow> 'a ioapic_state_scheme \<Rightarrow> fault + 'a ioapic_state_scheme" where
  "madt_entry A cur s =
     (if entry_type A (mem s) cur = type_ioapic A
      then (let phys_addr = ucast (address (ioapic_of A (mem s) cur)) in
        bind_sum (Paging_map phys_addr (PHYS2VIRT s phys_addr) (PAGE_PRESENT OR PAGE_WRITE) s) (\<lambda>s1.
          if apic_ent s1 \<ge> 24 then Inl OutOfBounds
          else Inr (s1\<lparr>apics := (apics s1)(apic_ent s1 := ioapic_of A (mem s1) cur), apic_ent := apic_ent s1 + 1\<rparr>)))
      else if entry_type A (mem s) cur = type_iso A
      then (if iso_ent s \<ge> 24 then Inl OutOfBounds
            else Inr (s\<lparr>iso := (iso s)(iso_ent s := iso_of A (mem s) cur), iso_ent := iso_ent s + 1\<rparr>))
      else Inr s)"

partial_function (option) madt_loop ::
    "madt_abi \<Rightarrow> u64 \<Rightarrow> u64 \<Rightarrow> 'a ioapic_state_scheme \<Rightarrow> (fault + 'a ioapic_state_scheme) option" where
  [code]: "madt_loop A lim cur s =
     (if cur \<ge> lim then Some (Inr s)
      else (case madt_entry A cur s of
              Inl e \<Rightarrow> Some (Inl e)
            | Inr s' \<Rightarrow> madt_loop A lim (cur + ucast (entry_length A (mem s') cur)) s'))"

text \<open>The loop that reads the version and the number of every controller.\<close>

definition probe_apic :: "u8 \<Rightarrow> 'a ioapic_state_scheme \<Rightarrow> fault + 'a ioapic_state_scheme" where
  "probe_apic i s =
     (let (_, s1) = IOAPIC_read (ucast (address (apics s i))) 1 s;
          (_, s2) = IOAPIC_read (ucast (address (apics s1 i))) 0 s1
      in Inr s2)"

definition IOAPIC_init :: "madt_abi \<Rightarrow> 'a ioapic_state_scheme \<Rightarrow> (fault + 'a ioapic_state_scheme) option" where
  "IOAPIC_init A s =
     (let s0 = s\<lparr>apic_ent := 0, iso_ent := 0\<rparr> in
      case madt_table A of
        None \<Rightarrow> Some (Inl Halted)
      | Some t \<Rightarrow>
          (let start = entries_at A t; lim = start + ucast (hdr_length A (mem s0) t) - sizeof_madt A in
           then_do (madt_loop A lim start s0) (\<lambda>s1. for_loop probe_apic 1 0 (apic_ent s1) s1)))"

section \<open>Redirection entries\<close>

text \<open>The search for an override of the interrupt, among the first \<open>iso_ent\<close>.\<close>

function find_iso :: "u8 \<Rightarrow> u8 \<Rightarrow> 'a ioapic_state_scheme \<Rightarrow> iso_rec option" where
  "find_iso irq i s =
     (if i < iso_ent s then (if source (iso s i) = irq then Some (iso s i) else find_iso irq (i + 1) s) else None)"
  by pat_completeness auto
termination
  by (relation "measure (\<lambda>(irq, i, s). unat (iso_ent s) - unat i)") (auto, unat_arith)

declare find_iso.simps [simp del]

text \<open>The search for a controller: the last one tried, \<open>None\<close> when there is none.\<close>

definition covers :: "ioapic_rec \<Rightarrow> u32 \<Rightarrow> u8 \<Rightarrow> bool" where
  "covers a max_entry actual_irq \<longleftrightarrow> gsi_base a \<le> ucast actual_irq \<and> gsi_base a + max_entry > ucast actual_irq"

function find_apic ::
    "u8 \<Rightarrow> u8 \<Rightarrow> u8 \<Rightarrow> ioapic_rec option \<Rightarrow> 'a ioapic_state_scheme \<Rightarrow> ioapic_rec option \<times> 'a ioapic_state_scheme" where
  "find_apic actual_irq n i found s =
     (if i < n
      then (let apic = apics s i;
                (ver, s1) = IOAPIC_read (ucast (address apic)) 1 s
            in if covers apic (drop_bit 16 ver) actual_irq then (Some apic, s1)
               else find_apic actual_irq n (i + 1) (Some apic) s1)
      else (found, s))"
  by pat_completeness auto
termination
  by (relation "measure (\<lambda>(a, n, i, f, s). unat n - unat i)") (auto, unat_arith)

declare find_apic.simps [simp del]

definition redirect_word :: "u8 \<Rightarrow> u64 \<Rightarrow> u64 \<Rightarrow> iso_rec option \<Rightarrow> u64" where
  "redirect_word vec fl lapic ciso =
     (case ciso of
        None \<Rightarrow> push_bit 56 lapic OR fl OR ucast vec
      | Some o' \<Rightarrow>
          (let pol = (if flags o' AND 3 = 3 then 1 else 0);
               mode = (if drop_bit 2 (flags o') AND 3 = 3 then 1 else 0)
           in push_bit 56 lapic OR push_bit 15 mode OR push_bit 13 pol OR ucast vec OR fl))"

definition IOAPIC_set :: "u8 \<Rightarrow> u8 \<Rightarrow> u64 \<Rightarrow> u64 \<Rightarrow> 'a ioapic_state_scheme \<Rightarrow> 'a ioapic_state_scheme" where
  "IOAPIC_set vec irq fl lapic s =
     (let ciso = find_iso irq 0 s;
          actual_irq = (case ciso of None \<Rightarrow> irq | Some o' \<Rightarrow> ucast (gsi o'));
          c_flags = redirect_word vec fl lapic ciso;
          (apic, s1) = find_apic actual_irq (apic_ent s) 0 None s
      in case apic of
           None \<Rightarrow> s1
         | Some a \<Rightarrow>
             (let irqreg = (ucast actual_irq - gsi_base a) * 2 + 0x10;
                  s2 = IOAPIC_write (ucast (address a)) irqreg (ucast c_flags) s1
              in IOAPIC_write (ucast (address a)) (irqreg + 1) (ucast (drop_bit 32 c_flags)) s2))"

section \<open>The dump\<close>

text \<open>The fields of an entry: vector, delivery mode, destination mode, polarity, trigger, mask, destination.\<close>

type_synonym entry_fields = "u8 \<times> u8 \<times> u8 \<times> u8 \<times> u8 \<times> u8 \<times> u8"

definition decode_entry :: "u32 \<Rightarrow> u32 \<Rightarrow> entry_fields" where
  "decode_entry low high =
     (ucast (low AND 0xFF), ucast (drop_bit 8 low AND 7), ucast (drop_bit 11 low AND 1), ucast (drop_bit 13 low AND 1),
      ucast (drop_bit 15 low AND 1), ucast (drop_bit 16 low AND 1), ucast (drop_bit 24 high AND 0xFF))"

datatype dump_line = Dump_title | Dump_apic u8 u32 u32 | Dump_entry u32 entry_fields

definition dump_entry ::
    "u64 \<Rightarrow> u32 \<Rightarrow> dump_line list \<times> 'a ioapic_state_scheme \<Rightarrow> fault + (dump_line list \<times> 'a ioapic_state_scheme)" where
  "dump_entry base entry st =
     (let (out, s) = st;
          reg = entry * 2 + 0x10;
          (low, s1) = IOAPIC_read base reg s;
          (high, s2) = IOAPIC_read base (reg + 1) s1;
          (vector, dm, dest_m, pol, trig, mask, dest) = decode_entry low high
      in Inr (if vector \<noteq> 0 \<or> mask = 0 then out @ [Dump_entry entry (decode_entry low high)] else out, s2))"

text \<open>The loop \<open>entry <= max\<close>, with \<open>max\<close> at most 255.\<close>

definition dump_apic ::
    "u8 \<Rightarrow> dump_line list \<times> 'a ioapic_state_scheme \<Rightarrow> (fault + (dump_line list \<times> 'a ioapic_state_scheme)) option" where
  "dump_apic i st =
     (let (out, s) = st;
          apic = apics s i;
          (ver, s1) = IOAPIC_read (ucast (address apic)) 1 s;
          max_entry = drop_bit 16 ver AND 0xFF
      in for_loop (dump_entry (ucast (address apic))) 1 0 (max_entry + 1) (out @ [Dump_apic i (address apic) max_entry], s1))"

function dump_loop ::
    "u8 \<Rightarrow> u8 \<Rightarrow> dump_line list \<times> 'a ioapic_state_scheme \<Rightarrow> (fault + (dump_line list \<times> 'a ioapic_state_scheme)) option" where
  "dump_loop n i st = (if i < n then then_do (dump_apic i st) (\<lambda>st'. dump_loop n (i + 1) st') else Some (Inr st))"
  by pat_completeness auto
termination
  by (relation "measure (\<lambda>(n, i, st). unat n - unat i)") (auto, unat_arith)

declare dump_loop.simps [simp del]

definition dump_entries :: "'a ioapic_state_scheme \<Rightarrow> (fault + (dump_line list \<times> 'a ioapic_state_scheme)) option" where
  "dump_entries s = dump_loop (apic_ent s) 0 ([Dump_title], s)"

section \<open>Programming an entry\<close>

lemma IOAPIC_read_value:
  "IOAPIC_read base reg s = (io_regs s (PHYS2VIRT s base) reg, s\<lparr>io_select := (io_select s)(PHYS2VIRT s base := reg)\<rparr>)"
  by (simp add: IOAPIC_read_def window_load_def select_reg_def Let_def)

lemma IOAPIC_write_regs:
  "IOAPIC_write base reg v s = s\<lparr>io_select := (io_select s)(PHYS2VIRT s base := reg),
     io_regs := (io_regs s)(PHYS2VIRT s base := (io_regs s (PHYS2VIRT s base))(reg := v))\<rparr>"
  by (simp add: IOAPIC_write_def window_store_def select_reg_def Let_def)

text \<open>The controller that a search for an interrupt stops at.\<close>

definition apic_virt :: "'a ioapic_state_scheme \<Rightarrow> u8 \<Rightarrow> u64" where
  "apic_virt s k = PHYS2VIRT s (ucast (address (apics s k)))"

definition stops_at :: "'a ioapic_state_scheme \<Rightarrow> u8 \<Rightarrow> u8 \<Rightarrow> bool" where
  "stops_at s actual k \<longleftrightarrow> covers (apics s k) (drop_bit 16 (io_regs s (apic_virt s k) 1)) actual"

lemma stops_at_select [simp]: "stops_at (s\<lparr>io_select := f\<rparr>) a k = stops_at s a k"
  by (simp add: stops_at_def apic_virt_def PHYS2VIRT_def)

lemma find_apic_first:
  "i \<le> j \<Longrightarrow> j < n \<Longrightarrow> \<forall>k. i \<le> k \<and> k < j \<longrightarrow> \<not> stops_at s a k \<Longrightarrow> stops_at s a j \<Longrightarrow>
   \<exists>sel. find_apic a n i f s = (Some (apics s j), s\<lparr>io_select := sel\<rparr>)"
proof (induction "unat j - unat i" arbitrary: i f s)
  case 0
  then have "i = j" by (simp add: word_le_nat_alt word_unat_eq_iff)
  then have "find_apic a n i f s = (Some (apics s j), s\<lparr>io_select := (io_select s)(apic_virt s j := 1)\<rparr>)"
    using 0(3,5) by (subst find_apic.simps) (simp add: IOAPIC_read_value stops_at_def apic_virt_def Let_def)
  then show ?case by blast
next
  case (Suc d)
  then have less: "i < j" by (simp add: word_less_nat_alt)
  then have u: "unat (i + 1) = Suc (unat i)" by (rule unat_inc)
  let ?s = "s\<lparr>io_select := (io_select s)(apic_virt s i := 1)\<rparr>"
  have "\<not> stops_at s a i" using Suc.prems(3) less by simp
  then have "find_apic a n i f s = find_apic a n (i + 1) (Some (apics s i)) ?s"
    using less_trans [OF less Suc.prems(2)] by (subst find_apic.simps) (simp add: IOAPIC_read_value stops_at_def apic_virt_def Let_def)
  moreover have "\<exists>sel. find_apic a n (i + 1) (Some (apics s i)) ?s = (Some (apics ?s j), ?s\<lparr>io_select := sel\<rparr>)"
  proof (rule Suc.hyps(1))
    show "d = unat j - unat (i + 1)" using Suc.hyps(2) u by simp
    show "i + 1 \<le> j" using less u by (simp add: word_le_nat_alt word_less_nat_alt)
    show "\<forall>k. i + 1 \<le> k \<and> k < j \<longrightarrow> \<not> stops_at ?s a k"
      using Suc.prems(3) u by (auto simp: word_le_nat_alt)
  qed (use Suc.prems in auto)
  ultimately show ?case by auto
qed

lemma low_bits: "8 \<le> n \<Longrightarrow> drop_bit n (ucast (v :: u8) :: u32) = 0"
  by (rule bit_word_eqI) (auto simp: bit_simps dest: bit_imp_le_length)

definition pol_trig :: "iso_rec option \<Rightarrow> bool \<times> bool" where
  "pol_trig ciso = (case ciso of None \<Rightarrow> (False, False) | Some o' \<Rightarrow> (flags o' AND 3 = 3, drop_bit 2 (flags o') AND 3 = 3))"

lemma or_rotate: "a OR (b OR c) = c OR (a OR (b :: 'a::len word))"
  by (simp add: or.commute or.left_commute)

lemma redirect_halves:
  "(ucast (redirect_word vec 0 lapic ciso) :: u32) =
     ucast vec OR ((if snd (pol_trig ciso) then 0x8000 else 0) OR (if fst (pol_trig ciso) then 0x2000 else 0))"
  "(ucast (drop_bit 32 (redirect_word vec 0 lapic ciso)) :: u32) = push_bit 24 (ucast lapic)"
proof -
  have v: "(ucast (ucast vec :: u64) :: u32) = ucast vec" by (rule bit_word_eqI) (simp add: bit_simps)
  show "(ucast (redirect_word vec 0 lapic ciso) :: u32) =
     ucast vec OR ((if snd (pol_trig ciso) then 0x8000 else 0) OR (if fst (pol_trig ciso) then 0x2000 else 0))"
    by (cases ciso)
      (simp_all add: redirect_word_def pol_trig_def Let_def unsigned_or_eq shift_fields(7) v or_rotate [of _ _ "ucast vec"])
  have "(ucast (drop_bit 32 (push_bit 56 lapic)) :: u32) = push_bit 24 (ucast lapic)"
    by (rule bit_word_eqI) (auto simp: bit_simps)
  then show "(ucast (drop_bit 32 (redirect_word vec 0 lapic ciso)) :: u32) = push_bit 24 (ucast lapic)"
    by (cases ciso)
      (simp_all add: redirect_word_def Let_def drop_bit_or unsigned_or_eq shift_fields(1))
qed

lemma decode_redirect:
  "decode_entry (ucast (redirect_word vec 0 lapic ciso)) (ucast (drop_bit 32 (redirect_word vec 0 lapic ciso))) =
     (vec, 0, 0, of_bool (fst (pol_trig ciso)), of_bool (snd (pol_trig ciso)), 0, ucast lapic)"
proof -
  have "(ucast (ucast vec :: u32) :: u8) = vec" by (rule bit_word_eqI) (simp add: bit_simps)
  moreover have "(ucast (drop_bit 24 (push_bit 24 (ucast lapic :: u32)) AND 0xFF) :: u8) = ucast lapic"
    by (rule bit_word_eqI) (simp add: bit_simps and_masks)
  moreover have z: "(40960 :: u8) = 0" "(32768 :: u8) = 0" "(8192 :: u8) = 0" by simp_all
  have "vec OR 40960 = vec" "vec OR 32768 = vec" "vec OR 8192 = vec" unfolding z by simp_all
  ultimately show ?thesis
    unfolding decode_entry_def redirect_halves
    by (auto simp: drop_bit_or low_bits and_masks ucast_take_bit unsigned_or_eq)
qed

lemma IOAPIC_set_state:
  assumes "ciso = find_iso irq 0 s" and "actual = (case ciso of None \<Rightarrow> irq | Some o' \<Rightarrow> ucast (gsi o'))"
    and "j < apic_ent s" and "stops_at s actual j" and "\<forall>k < j. \<not> stops_at s actual k"
    and "reg = (ucast actual - gsi_base (apics s j)) * 2 + 0x10"
  shows "\<exists>sel. IOAPIC_set vec irq fl lapic s = s\<lparr>io_select := sel,
     io_regs := (io_regs s)(apic_virt s j := (io_regs s (apic_virt s j))(reg := ucast (redirect_word vec fl lapic ciso),
       reg + 1 := ucast (drop_bit 32 (redirect_word vec fl lapic ciso))))\<rparr>"
proof -
  obtain sel where fa: "find_apic actual (apic_ent s) 0 None s = (Some (apics s j), s\<lparr>io_select := sel\<rparr>)"
    using find_apic_first [of 0 j "apic_ent s" s actual None] assms(3-5) by auto
  show ?thesis
    by (rule exI [of _ "sel(apic_virt s j := reg, apic_virt s j := reg + 1)"])
      (use fa assms(1,2,6) in \<open>simp add: IOAPIC_set_def Let_def IOAPIC_write_regs apic_virt_def PHYS2VIRT_def\<close>)
qed

text \<open>
  (C24) \<open>Sys::IOAPIC::set\<close> for an interrupt that one of the controllers covers: the entry of the interrupt,
  read back the way \<open>dump_entries\<close> reads it, has the vector and the destination given, is unmasked,
  and has the polarity and trigger of the interrupt's override; no other register changes.
\<close>

theorem IOAPIC_set_redirects:
  assumes "ciso = find_iso irq 0 s" and "actual = (case ciso of None \<Rightarrow> irq | Some o' \<Rightarrow> ucast (gsi o'))"
    and "j < apic_ent s" and "stops_at s actual j" and "\<forall>k < j. \<not> stops_at s actual k"
    and "reg = (ucast actual - gsi_base (apics s j)) * 2 + 0x10" and "s' = IOAPIC_set vec irq 0 lapic s"
  shows "decode_entry (io_regs s' (apic_virt s j) reg) (io_regs s' (apic_virt s j) (reg + 1)) =
      (vec, 0, 0, of_bool (fst (pol_trig ciso)), of_bool (snd (pol_trig ciso)), 0, ucast lapic) \<and>
    (\<forall>v r. (v, r) \<noteq> (apic_virt s j, reg) \<and> (v, r) \<noteq> (apic_virt s j, reg + 1) \<longrightarrow> io_regs s' v r = io_regs s v r)"
proof -
  have "io_regs s' = (io_regs s)(apic_virt s j := (io_regs s (apic_virt s j))(reg := ucast (redirect_word vec 0 lapic ciso),
      reg + 1 := ucast (drop_bit 32 (redirect_word vec 0 lapic ciso))))"
    using IOAPIC_set_state [OF assms(1-6), of vec 0 lapic] assms(7) by auto
  then show ?thesis using decode_redirect [of vec lapic ciso] by auto
qed

text \<open>
  The bound of the search leaves out the last entry of a controller: on a machine with two
  controllers of 24 entries, interrupt 23 of the first goes to the second, and there to the register
  before the first entry.
\<close>

theorem IOAPIC_set_last_entry:
  assumes "find_iso 23 0 s = None" and "apic_ent s = 2" and "gsi_base (apics s 0) = 0" and "gsi_base (apics s 1) = 24"
    and "io_regs s (apic_virt s 0) 1 = 0x170000" and "io_regs s (apic_virt s 1) 1 = 0x170000" and "apic_virt s 0 \<noteq> apic_virt s 1"
    and "s' = IOAPIC_set vec 23 0 lapic s"
  shows "io_regs s' (apic_virt s 0) = io_regs s (apic_virt s 0) \<and>
    io_regs s' (apic_virt s 1) 0x0E = ucast (redirect_word vec 0 lapic None)"
proof -
  have no: "\<not> stops_at s 23 0" "\<not> stops_at s 23 1" using assms by (simp_all add: stops_at_def covers_def)
  have step: "\<exists>sel. find_apic 23 2 i f t = find_apic 23 2 (i + 1) (Some (apics t i)) (t\<lparr>io_select := sel\<rparr>)"
    if "\<not> stops_at t 23 i" "i < 2" for i f and t :: "'a ioapic_state_scheme"
    using that by (subst find_apic.simps) (auto simp: IOAPIC_read_value stops_at_def apic_virt_def Let_def)
  obtain sel where 1: "find_apic 23 2 0 None s = find_apic 23 2 1 (Some (apics s 0)) (s\<lparr>io_select := sel\<rparr>)"
    using step [OF no(1), of None] by auto
  obtain sel' where "find_apic 23 2 1 (Some (apics s 0)) (s\<lparr>io_select := sel\<rparr>) = find_apic 23 2 2 (Some (apics s 1)) (s\<lparr>io_select := sel'\<rparr>)"
    using step [of "s\<lparr>io_select := sel\<rparr>" 1 "Some (apics s 0)"] no(2) by auto
  with 1 have "find_apic 23 2 0 None s = (Some (apics s 1), s\<lparr>io_select := sel'\<rparr>)" by (simp add: find_apic.simps [of 23 2 2])
  then show ?thesis
    using assms by (simp add: IOAPIC_set_def Let_def IOAPIC_write_regs apic_virt_def PHYS2VIRT_def)
qed

section \<open>Reading the table\<close>

lemma madt_stuck:
  assumes "entry_length A (mem s) cur = 0" and "entry_type A (mem s) cur \<notin> {type_ioapic A, type_iso A}" and "cur < lim"
  shows "madt_loop A lim cur s = None"
proof (rule ccontr)
  assume "madt_loop A lim cur s \<noteq> None"
  then obtain r where "madt_loop A lim cur s = Some r" by blast
  then have "\<not> (entry_length A (mem s) cur = 0 \<and> entry_type A (mem s) cur \<notin> {type_ioapic A, type_iso A} \<and> cur < lim)"
  proof (rule madt_loop.raw_induct [rotated])
    fix f A lim cur s r
    assume IH: "\<And>A lim cur s r. f A lim cur s = Some r \<Longrightarrow>
        \<not> (entry_length A (mem s) cur = 0 \<and> entry_type A (mem s) cur \<notin> {type_ioapic A, type_iso A} \<and> cur < lim)"
      and body: "(if cur \<ge> lim then Some (Inr s) else (case madt_entry A cur s of Inl e \<Rightarrow> Some (Inl e)
            | Inr s' \<Rightarrow> f A lim (cur + ucast (entry_length A (mem s') cur)) s')) = Some r"
    show "\<not> (entry_length A (mem s) cur = 0 \<and> entry_type A (mem s) cur \<notin> {type_ioapic A, type_iso A} \<and> cur < lim)"
    proof
      assume h: "entry_length A (mem s) cur = 0 \<and> entry_type A (mem s) cur \<notin> {type_ioapic A, type_iso A} \<and> cur < lim"
      then have "madt_entry A cur s = Inr s" by (simp add: madt_entry_def)
      moreover have "\<not> lim \<le> cur" using h by (simp add: not_le)
      ultimately have "f A lim cur s = Some r" using body h by simp
      from IH [OF this] h show False by blast
    qed
  qed
  then show False using assms by blast
qed

text \<open>
  A table entry of length 0 of a type the kernel does not know: the loop over the table stays on
  it for ever, and \<open>Sys::IOAPIC::init\<close> does not return.
\<close>

theorem IOAPIC_init_stuck:
  assumes "madt_table A = Some t" and "entries_at A t < entries_at A t + ucast (hdr_length A (mem s) t) - sizeof_madt A"
    and "entry_length A (mem s) (entries_at A t) = 0"
    and "entry_type A (mem s) (entries_at A t) \<notin> {type_ioapic A, type_iso A}"
  shows "IOAPIC_init A s = None"
  using madt_stuck [of A "s\<lparr>apic_ent := 0, iso_ent := 0\<rparr>"] assms by (simp add: IOAPIC_init_def Let_def)

section \<open>Witnesses\<close>

text \<open>Two controllers of 24 entries; interrupt 0 is overridden, to entry 2, active low and level triggered.\<close>

definition ex_ioapic :: ioapic_state where
  "ex_ioapic = lapic_state.extend ex_lapic (ioapic_state.fields
     (\<lambda>k. if k = 0 then \<lparr>address = 0xfec00000, gsi_base = 0\<rparr> else \<lparr>address = 0xfec01000, gsi_base = 24\<rparr>)
     (\<lambda>_. \<lparr>source = 0, gsi = 2, flags = 0xF\<rparr>) 2 1 (\<lambda>_. 0) (\<lambda>_ r. if r = 1 then 0x170000 else 0))"

lemma ex_ioapic_sel [simp]:
  "apics ex_ioapic = (\<lambda>k. if k = 0 then \<lparr>address = 0xfec00000, gsi_base = 0\<rparr> else \<lparr>address = 0xfec01000, gsi_base = 24\<rparr>)"
  "iso ex_ioapic = (\<lambda>_. \<lparr>source = 0, gsi = 2, flags = 0xF\<rparr>)" "apic_ent ex_ioapic = 2" "iso_ent ex_ioapic = 1"
  "io_regs ex_ioapic = (\<lambda>_ r. if r = 1 then 0x170000 else 0)"
  by (simp_all add: ex_ioapic_def lapic_state.defs ioapic_state.defs)

lemma ex_find_iso:
  "find_iso 0 0 ex_ioapic = Some \<lparr>source = 0, gsi = 2, flags = 0xF\<rparr>" "find_iso 23 0 ex_ioapic = None"
  by (simp_all add: find_iso.simps [of 0 0] find_iso.simps [of 23 0] find_iso.simps [of 23 1])

theorem IOAPIC_set_redirects_witness:
  "\<exists>s'. s' = IOAPIC_set 0x20 0 0 1 ex_ioapic \<and>
     decode_entry (io_regs s' (apic_virt ex_ioapic 0) 0x14) (io_regs s' (apic_virt ex_ioapic 0) 0x15) = (0x20, 0, 0, 1, 1, 0, 1)"
proof -
  have "stops_at ex_ioapic 2 0" by (simp add: stops_at_def covers_def)
  then show ?thesis
    using IOAPIC_set_redirects [of "Some \<lparr>source = 0, gsi = 2, flags = 0xF\<rparr>" 0 ex_ioapic 2 0 "0x14" _ "0x20" 1, OF _ _ _ _ _ _ refl]
    by (simp add: ex_find_iso pol_trig_def)
qed

theorem IOAPIC_set_last_entry_witness:
  "\<exists>s'. s' = IOAPIC_set 0x37 23 0 1 ex_ioapic \<and> io_regs s' (apic_virt ex_ioapic 1) 0x0E = 0x37"
  using IOAPIC_set_last_entry [OF ex_find_iso(2) _ _ _ _ _ _ refl, of "0x37" 1]
  by (simp add: apic_virt_def PHYS2VIRT_def redirect_halves pol_trig_def)

text \<open>A table of the firmware with one entry of length 0.\<close>

definition ex_abi :: madt_abi where
  "ex_abi = \<lparr>madt_table = Some 0x1000, entries_at = (\<lambda>t. t + 44), hdr_length = (\<lambda>m t. load32 m (t + 4)), sizeof_madt = 44,
     entry_type = (\<lambda>m a. m a), entry_length = (\<lambda>m a. m (a + 1)), type_ioapic = 1, type_iso = 2,
     ioapic_of = (\<lambda>m a. \<lparr>address = load32 m (a + 4), gsi_base = load32 m (a + 8)\<rparr>),
     iso_of = (\<lambda>m a. \<lparr>source = m (a + 3), gsi = load32 m (a + 4), flags = ucast (m (a + 8)) OR push_bit 8 (ucast (m (a + 9)))\<rparr>)\<rparr>"

theorem IOAPIC_init_stuck_witness: "IOAPIC_init ex_abi (ex_ioapic\<lparr>mem := store32 (\<lambda>_. 0) 0x1004 52\<rparr>) = None"
  by (rule IOAPIC_init_stuck [of _ "0x1000"]) (simp_all add: ex_abi_def mem_simps apart_def one_le_u64)

end
