(* ===== verification/Symbols.thy ===== *)
theory Symbols
  imports Ioapic Exchange_Sort
begin

unbundle bit_operations_syntax

text \<open>
  The symbol table of the crash handler, \<open>kernel/err/meta_resolver.cc\<close> and \<open>include/err/handler.h\<close>: the
  functions of the kernel's own image, sorted by address, and the search for the function an address
  is in.

  An entry is a block of the kernel heap: the address at 0, the pointer to the name at 8, the size at
  16. The table holds the pointers up to its first null. The kernel library that parses the image
  is a parameter: the symbols it finds, where their names are, and its test for functions.
\<close>

section \<open>State\<close>

record elf_sym =
  st_name :: u32
  st_info :: u8
  st_value :: u64
  st_size :: u64

record elf_view =
  symtab :: "elf_sym list"
  strtab :: u64
  is_func :: "u8 \<Rightarrow> bool"

record symbol_state = ioapic_state +
  symbol_table :: "u64 list"

definition MAX_SYMBOLS :: nat where "MAX_SYMBOLS = 1024"
definition SYMBOL_SIZE :: u64 where "SYMBOL_SIZE = 24"

definition e_address :: "memory \<Rightarrow> u64 \<Rightarrow> u64" where "e_address m p = load64 m p"
definition e_name :: "memory \<Rightarrow> u64 \<Rightarrow> u64" where "e_name m p = load64 m (p + 8)"
definition e_size :: "memory \<Rightarrow> u64 \<Rightarrow> u64" where "e_size m p = load64 m (p + 16)"

section \<open>Operations\<close>

definition address_after :: "memory \<Rightarrow> u64 \<Rightarrow> u64 \<Rightarrow> bool" where
  "address_after m p q \<longleftrightarrow> e_address m q < e_address m p"

definition sort_symbol_table :: "'a symbol_state_scheme \<Rightarrow> 'a symbol_state_scheme" where
  "sort_symbol_table s = s\<lparr>symbol_table := exchange_outer (address_after (mem s)) 0 (symbol_table s)\<rparr>"

fun symbols_loop :: "elf_view \<Rightarrow> elf_sym list \<Rightarrow> 'a symbol_state_scheme \<Rightarrow> (fault + 'a symbol_state_scheme) option" where
  "symbols_loop E [] s = Some (Inr s)"
| "symbols_loop E (y # rest) s =
     (if st_name y = 0 \<or> st_info y = 0 \<or> \<not> is_func E (st_info y) then symbols_loop E rest s
      else then_do (kmalloc SYMBOL_SIZE s) (\<lambda>(entry, s1).
        let m1 = store64 (mem s1) entry (st_value y);
            m2 = store64 m1 (entry + 8) (strtab E + ucast (st_name y));
            m3 = store64 m2 (entry + 16) (st_size y)
        in if length (symbol_table s1) \<ge> MAX_SYMBOLS then Some (Inl OutOfBounds)
           else symbols_loop E rest (s1\<lparr>mem := m3, symbol_table := symbol_table s1 @ [entry]\<rparr>)))"

definition init_symbols :: "elf_view \<Rightarrow> 'a symbol_state_scheme \<Rightarrow> (fault + 'a symbol_state_scheme) option" where
  "init_symbols E s = then_do (symbols_loop E (symtab E) s) (\<lambda>s1. Some (Inr (sort_symbol_table s1)))"

fun resolve_loop :: "memory \<Rightarrow> u64 \<Rightarrow> u64 list \<Rightarrow> u64 \<Rightarrow> u64 \<times> bool" where
  "resolve_loop m addr [] entry = (entry, False)"
| "resolve_loop m addr (p # ps) entry =
     (if e_address m p = addr then (p, True)
      else if e_address m p > addr then (entry, False)
      else resolve_loop m addr ps p)"

definition resolve_address :: "u64 \<Rightarrow> 'a symbol_state_scheme \<Rightarrow> u64 \<times> bool" where
  "resolve_address addr s =
     (let (entry, exact) = resolve_loop (mem s) addr (symbol_table s) 0 in
      if entry = 0 then (0, False) else (entry, exact))"

section \<open>Resolving\<close>

interpretation by_address: exchange_order "address_after m" for m
  by unfold_locales (auto simp: address_after_def)

lemma sorted_by_address: "sorted (map (e_address m) (exchange_outer (address_after m) 0 ps))"
  using by_address.exchange_sorted [of m ps]
  by (simp add: sorted_wrt_map address_after_def not_less)

lemma resolve_loop_nearest:
  "sorted (map (e_address m) ps) \<Longrightarrow> 0 \<notin> set ps \<Longrightarrow> resolve_loop m addr ps entry = (e, ex) \<Longrightarrow>
   entry = 0 \<or> e_address m entry < addr \<and> (\<forall>p \<in> set ps. e_address m entry \<le> e_address m p) \<Longrightarrow>
   (e = entry \<and> \<not> ex \<and> (\<forall>p \<in> set ps. addr < e_address m p)) \<or>
   (e \<in> set ps \<and> e_address m e \<le> addr \<and> ex = (e_address m e = addr) \<and>
      (\<forall>p \<in> set ps. e_address m p \<le> addr \<longrightarrow> e_address m p \<le> e_address m e))"
proof (induction m addr ps entry rule: resolve_loop.induct)
  case (2 m addr p ps entry)
  show ?case
  proof (cases "e_address m p < addr")
    case True
    then have r: "resolve_loop m addr ps p = (e, ex)" using 2(4) by (auto split: if_splits dest: less_asym)
    have "(e = p \<and> \<not> ex \<and> (\<forall>q \<in> set ps. addr < e_address m q)) \<or>
       (e \<in> set ps \<and> e_address m e \<le> addr \<and> ex = (e_address m e = addr) \<and>
        (\<forall>q \<in> set ps. e_address m q \<le> addr \<longrightarrow> e_address m q \<le> e_address m e))"
      using 2(1) [OF _ _ _ _ r] 2(2,3) True by auto
    then show ?thesis using True 2(2) by fastforce
  next
    case False
    then show ?thesis using 2(2-5) by (auto split: if_splits)
  qed
qed simp

text \<open>
  \<open>Err::Handler::resolve_address\<close> on the table that \<open>sort_symbol_table\<close> leaves: it returns the entry with
  the largest address that is not above the one looked for, marked exact when it is that address, and
  the null pointer exactly when every symbol lies above it.
\<close>

lemma resolve_nearest:
  assumes "0 \<notin> set (symbol_table s)" and "resolve_address addr (sort_symbol_table s) = (e, ex)"
  shows "(e = 0 \<longleftrightarrow> (\<forall>p \<in> set (symbol_table s). addr < e_address (mem s) p)) \<and>
    (e \<noteq> 0 \<longrightarrow> e \<in> set (symbol_table s) \<and> e_address (mem s) e \<le> addr \<and> ex = (e_address (mem s) e = addr) \<and>
      (\<forall>p \<in> set (symbol_table s). e_address (mem s) p \<le> addr \<longrightarrow> e_address (mem s) p \<le> e_address (mem s) e))"
proof -
  let ?ps = "exchange_outer (address_after (mem s)) 0 (symbol_table s)"
  have set: "set ?ps = set (symbol_table s)" using mset_exchange_outer by (metis mset_eq_setD)
  obtain e' ex' where r: "resolve_loop (mem s) addr ?ps 0 = (e', ex')" by fastforce
  from resolve_loop_nearest [OF sorted_by_address _ r] assms(1) set
  have c: "(e' = 0 \<and> \<not> ex' \<and> (\<forall>p \<in> set ?ps. addr < e_address (mem s) p)) \<or>
     (e' \<in> set ?ps \<and> e_address (mem s) e' \<le> addr \<and> ex' = (e_address (mem s) e' = addr) \<and>
        (\<forall>p \<in> set ?ps. e_address (mem s) p \<le> addr \<longrightarrow> e_address (mem s) p \<le> e_address (mem s) e'))" by simp
  have "e = e'" "e' \<noteq> 0 \<longrightarrow> ex = ex'"
    using assms(2) r by (auto simp: resolve_address_def sort_symbol_table_def split: if_splits)
  then show ?thesis using c set assms(1) by (auto simp: not_less)
qed

section \<open>Building the table\<close>

text \<open>The function symbols of the image, and what an entry says of one.\<close>

definition func_syms :: "elf_view \<Rightarrow> elf_sym list \<Rightarrow> elf_sym list" where
  "func_syms E ys = filter (\<lambda>y. st_name y \<noteq> 0 \<and> st_info y \<noteq> 0 \<and> is_func E (st_info y)) ys"

definition describes :: "elf_view \<Rightarrow> memory \<Rightarrow> (u64 \<times> u64) set \<Rightarrow> u64 \<Rightarrow> elf_sym \<Rightarrow> bool" where
  "describes E m L p y \<longleftrightarrow> p \<noteq> 0 \<and> (\<exists>n. (p, n) \<in> L \<and> SYMBOL_SIZE \<le> n \<and> unat p + unat SYMBOL_SIZE < 2 ^ 64) \<and>
     e_address m p = st_value y \<and> e_name m p = strtab E + ucast (st_name y) \<and> e_size m p = st_size y"

definition fill_entry :: "elf_view \<Rightarrow> elf_sym \<Rightarrow> u64 \<Rightarrow> memory \<Rightarrow> memory" where
  "fill_entry E y p m = store64 (store64 (store64 m p (st_value y)) (p + 8) (strtab E + ucast (st_name y))) (p + 16) (st_size y)"

lemma fill_entry_on:
  assumes "unat p + unat SYMBOL_SIZE < 2 ^ 64"
  shows "agree_on m (fill_entry E y p m) (- {unat p..<unat p + unat SYMBOL_SIZE})"
proof -
  have st: "agree_on m (store64 m (p + x) v) (- {unat p..<unat p + unat SYMBOL_SIZE})" if "unat x + 8 \<le> 24" for m x v
    using that assms by (auto intro!: store64_on simp: unat_offset SYMBOL_SIZE_def)
  from agree_on_trans [OF agree_on_trans [OF st [of 0] st [of 8]] st [of 16]] show ?thesis
    unfolding fill_entry_def by simp
qed

lemma fill_entry_fields:
  "e_address (fill_entry E y p m) p = st_value y" "e_name (fill_entry E y p m) p = strtab E + ucast (st_name y)"
  "e_size (fill_entry E y p m) p = st_size y"
  by (simp_all add: fill_entry_def e_address_def e_name_def e_size_def mem_simps addr_simps)

lemma describes_on:
  assumes d: "describes E m L p y" and on: "\<forall>b \<in> L. agree_on m m' (block_bytes b)" and sub: "L \<subseteq> L'"
  shows "describes E m' L' p y"
proof -
  obtain n where n: "(p, n) \<in> L" "SYMBOL_SIZE \<le> n" "unat p + unat SYMBOL_SIZE < 2 ^ 64" using d by (auto simp: describes_def)
  have a: "agree_on m m' {unat p..<unat p + unat SYMBOL_SIZE}"
    by (rule agree_on_mono [OF bspec [OF on n(1)]]) (use n(2) in \<open>auto simp: block_bytes_def word_le_nat_alt\<close>)
  have "load64 m' (p + x) = load64 m (p + x)" if "unat x + 8 \<le> 24" for x
    by (rule load64_on, rule agree_on_mono [OF a]) (use that n(3) in \<open>auto simp: unat_offset SYMBOL_SIZE_def\<close>)
  from this [of 0] this [of 8] this [of 16]
  have "e_address m' p = e_address m p" "e_name m' p = e_name m p" "e_size m' p = e_size m p"
    by (simp_all add: e_address_def e_name_def e_size_def)
  then show ?thesis using d n sub unfolding describes_def by auto
qed

lemma symbol_table_frame [simp]:
  "heap_rep (s\<lparr>symbol_table := t\<rparr>) L = heap_rep s L" "rooms_for k sz (s\<lparr>symbol_table := t\<rparr>) = rooms_for k sz s"
  by (simp_all add: heap_rep_def heap_wf_def frame_wf_def taken_def frame_addr_def rooms_for_def)

lemma symbols_loop_ok:
  "heap_rep s L \<Longrightarrow> rooms_for (length (func_syms E ys)) SYMBOL_SIZE s \<Longrightarrow>
   length (symbol_table s) + length (func_syms E ys) \<le> MAX_SYMBOLS \<Longrightarrow>
   list_all2 (describes E (mem s) L) (symbol_table s) vs \<Longrightarrow>
   \<exists>s' L'. symbols_loop E ys s = Some (Inr s') \<and> heap_rep s' L' \<and> L \<subseteq> L' \<and>
     (\<forall>b \<in> L. agree_on (mem s) (mem s') (block_bytes b)) \<and>
     list_all2 (describes E (mem s') L') (symbol_table s') (vs @ func_syms E ys)"
proof (induction ys arbitrary: s L vs)
  case Nil
  then show ?case by (intro exI [of _ s] exI [of _ L]) (simp add: func_syms_def)
next
  case (Cons y ys)
  show ?case
  proof (cases "st_name y = 0 \<or> st_info y = 0 \<or> \<not> is_func E (st_info y)")
    case True
    then have "func_syms E (y # ys) = func_syms E ys" by (auto simp: func_syms_def)
    then show ?thesis using Cons.IH [of s L vs] Cons.prems True by simp
  next
    case False
    then have fs: "func_syms E (y # ys) = y # func_syms E ys" by (auto simp: func_syms_def)
    have rm: "rooms_for (Suc (length (func_syms E ys))) SYMBOL_SIZE s" using Cons.prems(2) fs by simp
    have sz: "0 < SYMBOL_SIZE" by (simp add: SYMBOL_SIZE_def)
    obtain p n s1 where m: "kmalloc SYMBOL_SIZE s = Some (Inr (p, s1))" "SYMBOL_SIZE \<le> n" "p \<noteq> 0"
        "unat p + unat SYMBOL_SIZE < 2 ^ 64"
      and rep: "heap_rep (s1\<lparr>mem := fill_entry E y p (mem s1)\<rparr>) (insert (p, n) L)"
      and rooms: "rooms_for (length (func_syms E ys)) SYMBOL_SIZE (s1\<lparr>mem := fill_entry E y p (mem s1)\<rparr>)"
      and on: "\<forall>b \<in> L. agree_on (mem s) (fill_entry E y p (mem s1)) (block_bytes b)"
      by (rule hpm.malloc_fill_next [OF Cons.prems(1) rm sz fill_entry_on])
    have tab: "symbol_table s1 = symbol_table s" using kmalloc_more [OF m(1)] by (cases s; cases s1) simp
    let ?s = "s1\<lparr>mem := fill_entry E y p (mem s1), symbol_table := symbol_table s @ [p]\<rparr>" and ?L = "insert (p, n) L"
    have step: "symbols_loop E (y # ys) s = symbols_loop E ys ?s"
      using False m(1) tab Cons.prems(3) fs by (simp add: fill_entry_def Let_def)
    have "describes E (mem ?s) ?L p y" using m by (auto simp: describes_def fill_entry_fields)
    moreover have "list_all2 (describes E (mem ?s) ?L) (symbol_table s) vs"
      by (rule list_all2_mono [OF Cons.prems(4)]) (rule describes_on, assumption, use on in auto)
    ultimately have "list_all2 (describes E (mem ?s) ?L) (symbol_table ?s) (vs @ [y])" by (auto intro: list_all2_appendI)
    from Cons.IH [OF _ _ _ this] obtain s' L' where s': "symbols_loop E ys ?s = Some (Inr s')" "heap_rep s' L'" "?L \<subseteq> L'"
        "\<forall>b \<in> ?L. agree_on (mem ?s) (mem s') (block_bytes b)"
        "list_all2 (describes E (mem s') L') (symbol_table s') ((vs @ [y]) @ func_syms E ys)"
      using rep rooms Cons.prems(3) fs by auto
    have "\<forall>b \<in> L. agree_on (mem s) (mem s') (block_bytes b)" using on s'(4) agree_on_trans by fastforce
    then show ?thesis using s' step fs by auto
  qed
qed

lemma init_symbols_ok:
  assumes "heap_rep s L" and "rooms_for (length (func_syms E (symtab E))) SYMBOL_SIZE s"
    and "length (func_syms E (symtab E)) \<le> MAX_SYMBOLS" and "symbol_table s = []"
  shows "\<exists>s' L'. init_symbols E s = Some (Inr s') \<and> heap_rep s' L' \<and> L \<subseteq> L' \<and>
    (\<forall>b \<in> L. agree_on (mem s) (mem s') (block_bytes b)) \<and>
    (\<forall>addr e ex. resolve_address addr s' = (e, ex) \<longrightarrow>
       (if \<forall>y \<in> set (func_syms E (symtab E)). addr < st_value y then e = 0
        else \<exists>y \<in> set (func_syms E (symtab E)). e_address (mem s') e = st_value y \<and>
          e_name (mem s') e = strtab E + ucast (st_name y) \<and> e_size (mem s') e = st_size y \<and>
          st_value y \<le> addr \<and> ex = (st_value y = addr) \<and>
          (\<forall>z \<in> set (func_syms E (symtab E)). st_value z \<le> addr \<longrightarrow> st_value z \<le> st_value y)))"
proof -
  let ?fs = "func_syms E (symtab E)"
  obtain s1 L' where l: "symbols_loop E (symtab E) s = Some (Inr s1)" and L': "heap_rep s1 L'" "L \<subseteq> L'"
      and on: "\<forall>b \<in> L. agree_on (mem s) (mem s1) (block_bytes b)"
      and all: "list_all2 (describes E (mem s1) L') (symbol_table s1) ?fs"
    using symbols_loop_ok [OF assms(1,2), of "[]"] assms(3,4) by auto
  have e1: "\<exists>y \<in> set ?fs. describes E (mem s1) L' p y" if "p \<in> set (symbol_table s1)" for p
    using all that by (induction rule: list_all2_induct) auto
  have e2: "\<exists>p \<in> set (symbol_table s1). describes E (mem s1) L' p y" if "y \<in> set ?fs" for y
    using all that by (induction rule: list_all2_induct) auto
  have nz: "0 \<notin> set (symbol_table s1)" using e1 by (auto simp: describes_def)
  have res: "if \<forall>y \<in> set ?fs. addr < st_value y then e = 0
      else \<exists>y \<in> set ?fs. e_address (mem s1) e = st_value y \<and> e_name (mem s1) e = strtab E + ucast (st_name y) \<and>
        e_size (mem s1) e = st_size y \<and> st_value y \<le> addr \<and> ex = (st_value y = addr) \<and>
        (\<forall>z \<in> set ?fs. st_value z \<le> addr \<longrightarrow> st_value z \<le> st_value y)"
    if r: "resolve_address addr (sort_symbol_table s1) = (e, ex)" for addr e ex
  proof -
    note near = resolve_nearest [OF nz r]
    show ?thesis
    proof (cases "e = 0")
      case True
      then have "addr < st_value y" if "y \<in> set ?fs" for y using near e2 [OF that] by (auto simp: describes_def)
      then show ?thesis using True by simp
    next
      case False
      then have e: "e \<in> set (symbol_table s1)" "e_address (mem s1) e \<le> addr" "ex = (e_address (mem s1) e = addr)"
          "\<forall>p \<in> set (symbol_table s1). e_address (mem s1) p \<le> addr \<longrightarrow> e_address (mem s1) p \<le> e_address (mem s1) e"
        using near by blast+
      obtain y where y: "y \<in> set ?fs" "describes E (mem s1) L' e y" using e1 [OF e(1)] by blast
      have "\<forall>z \<in> set ?fs. st_value z \<le> addr \<longrightarrow> st_value z \<le> st_value y"
        using e(4) e2 y(2) unfolding describes_def by metis
      moreover have "\<not> (\<forall>y \<in> set ?fs. addr < st_value y)" using y e(2) by (auto simp: describes_def not_less)
      ultimately show ?thesis using y e(2,3) unfolding describes_def by auto
    qed
  qed
  have i: "init_symbols E s = Some (Inr (sort_symbol_table s1))" using l by (simp add: init_symbols_def)
  have "mem (sort_symbol_table s1) = mem s1" "heap_rep (sort_symbol_table s1) L'"
    using L'(1) by (simp_all add: sort_symbol_table_def)
  then show ?thesis using i L'(2) on res by (intro exI [of _ "sort_symbol_table s1"] exI [of _ L']) simp
qed

text \<open>
  (C9) \<open>Err::Handler::init_symbols\<close> on an image of at most 1024 function symbols, with the heap in order and room for
  their entries: it returns and leaves every block of the heap as it was. From then on \<open>resolve_address\<close>
  finds for every address the function of the image with the largest start that is not above it, with its name and size,
  marked exact when the address is the start, and the null pointer exactly when every function lies above.
\<close>

theorem init_symbols_resolves:
  assumes "heap_rep s L" and "rooms_for (length (func_syms E (symtab E))) SYMBOL_SIZE s"
    and "length (func_syms E (symtab E)) \<le> MAX_SYMBOLS" and "symbol_table s = []"
  shows "\<exists>s' L'. init_symbols E s = Some (Inr s') \<and> heap_rep s' L' \<and> L \<subseteq> L' \<and>
    (\<forall>b \<in> L. agree_on (mem s) (mem s') (block_bytes b)) \<and>
    (\<forall>addr e ex. resolve_address addr s' = (e, ex) \<longrightarrow>
       (if \<forall>y \<in> set (func_syms E (symtab E)). addr < st_value y then e = 0
        else \<exists>y \<in> set (func_syms E (symtab E)). e_address (mem s') e = st_value y \<and>
          e_name (mem s') e = strtab E + ucast (st_name y) \<and> e_size (mem s') e = st_size y \<and>
          st_value y \<le> addr \<and> ex = (st_value y = addr) \<and>
          (\<forall>z \<in> set (func_syms E (symtab E)). st_value z \<le> addr \<longrightarrow> st_value z \<le> st_value y)))"
  using init_symbols_ok [OF assms] .

section \<open>Witnesses\<close>

definition ex_symbols :: symbol_state where
  "ex_symbols = ioapic_state.extend (ex_ioapic\<lparr>mem := store64 (store64 (\<lambda>_. 0) 0x1000 0xffffffff80003000) 0x2000 0xffffffff80001000\<rparr>)
     (symbol_state.fields [0x1000, 0x2000])"

lemma ex_symbols_sel [simp]:
  "symbol_table ex_symbols = [0x1000, 0x2000]" "e_address (mem ex_symbols) 0x1000 = 0xffffffff80003000"
  "e_address (mem ex_symbols) 0x2000 = 0xffffffff80001000"
  by (simp_all add: ex_symbols_def ioapic_state.defs symbol_state.defs e_address_def mem_simps apart_def)

text \<open>An image with a section symbol and two functions, on an empty heap.\<close>

definition ex_image :: elf_view where
  "ex_image = \<lparr>symtab = [\<lparr>st_name = 0, st_info = 3, st_value = 0, st_size = 0\<rparr>,
       \<lparr>st_name = 9, st_info = 18, st_value = 0xffffffff80003000, st_size = 64\<rparr>,
       \<lparr>st_name = 1, st_info = 18, st_value = 0xffffffff80001000, st_size = 256\<rparr>],
     strtab = 0xffffffff80400000, is_func = (\<lambda>i. i AND 15 = 2)\<rparr>"

definition ex_no_symbols :: symbol_state where
  "ex_no_symbols = ex_symbols\<lparr>symbol_table := []\<rparr>"

lemma ex_no_symbols_sel [simp]:
  "symbol_table ex_no_symbols = []" "frames ex_no_symbols = (\<lambda>k. k < 2)" "latest_frame ex_no_symbols = 2"
  "available_frames ex_no_symbols = 64" "base_addr ex_no_symbols = 0xffff800000100000" "heap ex_no_symbols = 0"
  by (simp_all add: ex_no_symbols_def ex_symbols_def ex_ioapic_def ex_lapic_def ex_timer_def ex_desc_def ex_heap_def ex_paging_def
      ex_frames_def frame_state.defs paging_state.defs heap_state.defs task_state.defs desc_state.defs timer_state.defs
      lapic_state.defs ioapic_state.defs symbol_state.defs)

theorem init_symbols_resolves_witness:
  "\<exists>s' e. init_symbols ex_image ex_no_symbols = Some (Inr s') \<and> resolve_address 0xffffffff80002abc s' = (e, False) \<and>
     e_name (mem s') e = 0xffffffff80400001 \<and> e_size (mem s') e = 256"
proof -
  have "heap_wf ex_no_symbols []" by (simp add: heap_wf_def frame_wf_def)
  then have rep: "heap_rep ex_no_symbols {}" by (auto simp: heap_rep_def)
  have fs: "func_syms ex_image (symtab ex_image) = tl (symtab ex_image)" by (simp add: func_syms_def ex_image_def)
  have n: "length (tl (symtab ex_image)) = 2" by (simp add: ex_image_def)
  have rm: "rooms_for 2 SYMBOL_SIZE ex_no_symbols"
    by (auto simp: rooms_for_def SYMBOL_SIZE_def run_free_def word_less_nat_alt)
  obtain s' where s': "init_symbols ex_image ex_no_symbols = Some (Inr s')"
      and r: "\<forall>addr e ex. resolve_address addr s' = (e, ex) \<longrightarrow>
       (if \<forall>y \<in> set (tl (symtab ex_image)). addr < st_value y then e = 0
        else \<exists>y \<in> set (tl (symtab ex_image)). e_address (mem s') e = st_value y \<and>
          e_name (mem s') e = strtab ex_image + ucast (st_name y) \<and> e_size (mem s') e = st_size y \<and>
          st_value y \<le> addr \<and> ex = (st_value y = addr) \<and>
          (\<forall>z \<in> set (tl (symtab ex_image)). st_value z \<le> addr \<longrightarrow> st_value z \<le> st_value y))"
    using init_symbols_resolves [OF rep, of ex_image] rm unfolding fs n by (auto simp: MAX_SYMBOLS_def)
  obtain e ex where e: "resolve_address 0xffffffff80002abc s' = (e, ex)" by fastforce
  have "e_name (mem s') e = 0xffffffff80400001 \<and> e_size (mem s') e = 256 \<and> \<not> ex"
    using mp [OF spec [OF spec [OF spec [OF r]]] e] by (auto simp: ex_image_def)
  then show ?thesis using s' e by (intro exI [of _ s'] exI [of _ e]) simp
qed

end
