(* ===== verification/Acpi_Kapi.thy ===== *)
theory Acpi_Kapi
  imports Symbols
begin

unbundle bit_operations_syntax

text \<open>
  The services the kernel gives to the ACPI library, \<open>kernel/sys/acpi_kapi.cc\<close>, with
  \<open>IRQ::register_entry\<close> of \<open>kernel/cpu/interrupts/irq.cc\<close>, which they call.

  The functions an interrupt request can be handed to are the three handlers of the kernel; the handlers
  of the library are addresses, and what one does when it is called is a parameter. The driver calls
  (configuration space and ports), the lock of the kernel library and the layout of a configuration
  address, which the library's header defines, are parameters too. A handle of an interrupt
  handler is the address of its entry in \<open>uacpi_handlers\<close>, 24 bytes each.
\<close>

section \<open>State\<close>

record irq_frame =
  f_r15 :: u64
  f_r14 :: u64
  f_r13 :: u64
  f_r12 :: u64
  f_r11 :: u64
  f_r10 :: u64
  f_r9 :: u64
  f_r8 :: u64
  f_rbp :: u64
  f_rsi :: u64
  f_rdi :: u64
  f_rdx :: u64
  f_rcx :: u64
  f_rbx :: u64
  f_rax :: u64
  f_error :: u64
  f_rip :: u64
  f_cs :: u64
  f_rflags :: u64
  f_rsp :: u64
  f_ss :: u64

datatype irq_fn = Fn_Timer_Handle | Fn_IOAPIC_Handle | Fn_uacpi_irq_bridge

record irq_state = symbol_state +
  irq_handlers :: "u8 \<Rightarrow> irq_fn option"
  irq_log :: "u64 list"

record uacpi_irq_handler =
  handler :: u64
  ctx :: u64
  irq :: u32
  installed :: bool

record acpi_state = irq_state +
  uacpi_handlers :: "u8 \<Rightarrow> uacpi_irq_handler"
  acpi_initialized :: bool

datatype uacpi_status = UACPI_STATUS_OK | UACPI_STATUS_INVALID_ARGUMENT | UACPI_STATUS_ALREADY_EXISTS

section \<open>Interrupt handlers\<close>

definition IRQ_register_entry :: "u8 \<Rightarrow> irq_fn \<Rightarrow> 'a irq_state_scheme \<Rightarrow> 'a irq_state_scheme" where
  "IRQ_register_entry n h s =
     register_entry_with_ist n (isr_handlers s n) 0x08 INT_GATE IST_IRQ (s\<lparr>irq_handlers := (irq_handlers s)(n := Some h)\<rparr>)"

definition HANDLER_SIZE :: u64 where "HANDLER_SIZE = 24"

text \<open>The address of entry \<open>n\<close> of the table at \<open>tab\<close>.\<close>

definition handler_addr :: "u64 \<Rightarrow> u8 \<Rightarrow> u64" where
  "handler_addr tab n = tab + ucast n * HANDLER_SIZE"

text \<open>The handler is called with its context; \<open>call\<close> is the code of the library.\<close>

definition uacpi_irq_bridge ::
    "(u64 \<Rightarrow> u64 \<Rightarrow> 'a acpi_state_scheme \<Rightarrow> 'a acpi_state_scheme) \<Rightarrow> irq_frame \<Rightarrow> 'a acpi_state_scheme \<Rightarrow> 'a acpi_state_scheme" where
  "uacpi_irq_bridge call frame s =
     (let n = ucast (f_error frame) :: u32 in
      if n \<ge> 256 then s
      else (let h = uacpi_handlers s (ucast n) in
            if \<not> installed h \<or> handler h = 0 then s else call (handler h) (ctx h) s))"

definition uacpi_kernel_install_interrupt_handler ::
    "u64 \<Rightarrow> u32 \<Rightarrow> u64 \<Rightarrow> u64 \<Rightarrow> u64 \<Rightarrow> 'a acpi_state_scheme \<Rightarrow> uacpi_status \<times> 'a acpi_state_scheme" where
  "uacpi_kernel_install_interrupt_handler tab n h c out_irq_handle s =
     (if n \<ge> 256 \<or> h = 0 \<or> out_irq_handle = 0 then (UACPI_STATUS_INVALID_ARGUMENT, s)
      else if installed (uacpi_handlers s (ucast n)) then (UACPI_STATUS_ALREADY_EXISTS, s)
      else (let entry = \<lparr>handler = h, ctx = c, irq = n, installed = True\<rparr>;
                s1 = s\<lparr>uacpi_handlers := (uacpi_handlers s)(ucast n := entry)\<rparr>;
                s2 = IRQ_register_entry (ucast n) Fn_uacpi_irq_bridge s1
            in (UACPI_STATUS_OK, s2\<lparr>mem := store64 (mem s2) out_irq_handle (handler_addr tab (ucast n))\<rparr>)))"

text \<open>A handle inside the table that is not the start of an entry is outside the model: \<open>OutOfBounds\<close>.\<close>

definition uacpi_kernel_uninstall_interrupt_handler ::
    "u64 \<Rightarrow> u64 \<Rightarrow> u64 \<Rightarrow> 'a acpi_state_scheme \<Rightarrow> fault + (uacpi_status \<times> 'a acpi_state_scheme)" where
  "uacpi_kernel_uninstall_interrupt_handler tab h irq_handle s =
     (if h = 0 \<or> irq_handle = 0 then Inr (UACPI_STATUS_INVALID_ARGUMENT, s)
      else if irq_handle < tab \<or> irq_handle \<ge> tab + 256 * HANDLER_SIZE then Inr (UACPI_STATUS_INVALID_ARGUMENT, s)
      else if (irq_handle - tab) mod HANDLER_SIZE \<noteq> 0 then Inl OutOfBounds
      else (let n = ucast ((irq_handle - tab) div HANDLER_SIZE); e = uacpi_handlers s n in
            if \<not> installed e \<or> handler e \<noteq> h then Inr (UACPI_STATUS_INVALID_ARGUMENT, s)
            else Inr (UACPI_STATUS_OK,
              s\<lparr>uacpi_handlers := (uacpi_handlers s)(n := e\<lparr>installed := False, handler := 0, ctx := 0\<rparr>)\<rparr>)))"

section \<open>Memory\<close>

definition uacpi_kernel_get_rsdp :: "u64 \<Rightarrow> 'a boot_state_scheme \<Rightarrow> uacpi_status \<times> 'a boot_state_scheme" where
  "uacpi_kernel_get_rsdp out_rsdp_address s =
     (UACPI_STATUS_OK, s\<lparr>mem := store64 (mem s) out_rsdp_address (rsdp_addr s)\<rparr>)"

definition uacpi_kernel_map ::
    "u64 \<Rightarrow> u64 \<Rightarrow> 'a paging_state_scheme \<Rightarrow> (fault + (u64 \<times> 'a paging_state_scheme)) option" where
  "uacpi_kernel_map addr len s =
     (let offset = addr - ROUND_DOWN addr;
          total_len = ALIGN_UP (len + offset) 0x1000;
          virt = PHYS2VIRT s addr
      in then_do (Paging_map_range addr virt total_len (PAGE_PRESENT OR PAGE_WRITE) s) (\<lambda>(_, s1). Some (Inr (virt, s1))))"

definition uacpi_kernel_unmap :: "u64 \<Rightarrow> u64 \<Rightarrow> 'a paging_state_scheme \<Rightarrow> 'a paging_state_scheme" where
  "uacpi_kernel_unmap addr len s = s"

definition uacpi_kernel_alloc :: "u64 \<Rightarrow> 'a heap_state_scheme \<Rightarrow> (fault + (u64 \<times> 'a heap_state_scheme)) option" where
  "uacpi_kernel_alloc sz s = kmalloc sz s"

text \<open>A call of \<open>kfree\<close> as a statement.\<close>

definition free_handle :: "u64 \<Rightarrow> 'a heap_state_scheme \<Rightarrow> (fault + 'a heap_state_scheme) option" where
  "free_handle p s = then_do (kfree p s) (\<lambda>(_, s1). Some (Inr s1))"

definition uacpi_kernel_free :: "u64 \<Rightarrow> 'a heap_state_scheme \<Rightarrow> (fault + 'a heap_state_scheme) option" where
  "uacpi_kernel_free p s = free_handle p s"

section \<open>Devices\<close>

text \<open>The layout of \<open>uacpi_pci_address\<close> and the driver of the configuration space.\<close>

record pci_address =
  segment :: u16
  bus :: u8
  device :: u8
  fn :: u8

record 's pci_api =
  sizeof_pci :: u64
  put_pci :: "memory \<Rightarrow> u64 \<Rightarrow> pci_address \<Rightarrow> memory"
  get_pci :: "memory \<Rightarrow> u64 \<Rightarrow> pci_address"
  read8 :: "u8 \<Rightarrow> u8 \<Rightarrow> u8 \<Rightarrow> u64 \<Rightarrow> 's \<Rightarrow> u8"
  read16 :: "u8 \<Rightarrow> u8 \<Rightarrow> u8 \<Rightarrow> u64 \<Rightarrow> 's \<Rightarrow> u16"
  read32 :: "u8 \<Rightarrow> u8 \<Rightarrow> u8 \<Rightarrow> u64 \<Rightarrow> 's \<Rightarrow> u32"
  write8 :: "u8 \<Rightarrow> u8 \<Rightarrow> u8 \<Rightarrow> u64 \<Rightarrow> u8 \<Rightarrow> 's \<Rightarrow> 's"
  write16 :: "u8 \<Rightarrow> u8 \<Rightarrow> u8 \<Rightarrow> u64 \<Rightarrow> u16 \<Rightarrow> 's \<Rightarrow> 's"
  write32 :: "u8 \<Rightarrow> u8 \<Rightarrow> u8 \<Rightarrow> u64 \<Rightarrow> u32 \<Rightarrow> 's \<Rightarrow> 's"

definition uacpi_kernel_pci_device_open ::
    "'a heap_state_scheme pci_api \<Rightarrow> pci_address \<Rightarrow> u64 \<Rightarrow> 'a heap_state_scheme \<Rightarrow> (fault + (uacpi_status \<times> 'a heap_state_scheme)) option" where
  "uacpi_kernel_pci_device_open A a out_handle s =
     then_do (kmalloc (sizeof_pci A) s) (\<lambda>(pci, s1).
       Some (Inr (UACPI_STATUS_OK, s1\<lparr>mem := store64 (put_pci A (mem s1) pci a) out_handle pci\<rparr>)))"

definition uacpi_kernel_pci_device_close :: "u64 \<Rightarrow> 'a heap_state_scheme \<Rightarrow> (fault + 'a heap_state_scheme) option" where
  "uacpi_kernel_pci_device_close hnd s = free_handle hnd s"

definition uacpi_kernel_pci_read8 :: "'a heap_state_scheme pci_api \<Rightarrow> u64 \<Rightarrow> u64 \<Rightarrow> 'a heap_state_scheme \<Rightarrow> uacpi_status \<times> u8" where
  "uacpi_kernel_pci_read8 A dev off s =
     (let pci = get_pci A (mem s) dev in (UACPI_STATUS_OK, read8 A (bus pci) (device pci) (fn pci) off s))"

definition uacpi_kernel_pci_read16 :: "'a heap_state_scheme pci_api \<Rightarrow> u64 \<Rightarrow> u64 \<Rightarrow> 'a heap_state_scheme \<Rightarrow> uacpi_status \<times> u16" where
  "uacpi_kernel_pci_read16 A dev off s =
     (let pci = get_pci A (mem s) dev in (UACPI_STATUS_OK, read16 A (bus pci) (device pci) (fn pci) off s))"

definition uacpi_kernel_pci_read32 :: "'a heap_state_scheme pci_api \<Rightarrow> u64 \<Rightarrow> u64 \<Rightarrow> 'a heap_state_scheme \<Rightarrow> uacpi_status \<times> u32" where
  "uacpi_kernel_pci_read32 A dev off s =
     (let pci = get_pci A (mem s) dev in (UACPI_STATUS_OK, read32 A (bus pci) (device pci) (fn pci) off s))"

definition uacpi_kernel_pci_write8 ::
    "'a heap_state_scheme pci_api \<Rightarrow> u64 \<Rightarrow> u64 \<Rightarrow> u8 \<Rightarrow> 'a heap_state_scheme \<Rightarrow> uacpi_status \<times> 'a heap_state_scheme" where
  "uacpi_kernel_pci_write8 A dev off v s =
     (let pci = get_pci A (mem s) dev in (UACPI_STATUS_OK, write8 A (bus pci) (device pci) (fn pci) off v s))"

definition uacpi_kernel_pci_write16 ::
    "'a heap_state_scheme pci_api \<Rightarrow> u64 \<Rightarrow> u64 \<Rightarrow> u16 \<Rightarrow> 'a heap_state_scheme \<Rightarrow> uacpi_status \<times> 'a heap_state_scheme" where
  "uacpi_kernel_pci_write16 A dev off v s =
     (let pci = get_pci A (mem s) dev in (UACPI_STATUS_OK, write16 A (bus pci) (device pci) (fn pci) off v s))"

definition uacpi_kernel_pci_write32 ::
    "'a heap_state_scheme pci_api \<Rightarrow> u64 \<Rightarrow> u64 \<Rightarrow> u32 \<Rightarrow> 'a heap_state_scheme \<Rightarrow> uacpi_status \<times> 'a heap_state_scheme" where
  "uacpi_kernel_pci_write32 A dev off v s =
     (let pci = get_pci A (mem s) dev in (UACPI_STATUS_OK, write32 A (bus pci) (device pci) (fn pci) off v s))"

text \<open>Port ranges; the bounds that \<open>io_map\<close> records are not read again.\<close>

definition IO_SIZE :: u64 where "IO_SIZE = 16"

definition uacpi_kernel_io_map ::
    "u64 \<Rightarrow> u64 \<Rightarrow> u64 \<Rightarrow> 'a heap_state_scheme \<Rightarrow> (fault + (uacpi_status \<times> 'a heap_state_scheme)) option" where
  "uacpi_kernel_io_map base len out_handle s =
     then_do (kmalloc IO_SIZE s) (\<lambda>(iomap, s1).
       let m1 = store64 (mem s1) iomap base; m2 = store64 m1 (iomap + 8) len
       in Some (Inr (UACPI_STATUS_OK, s1\<lparr>mem := store64 m2 out_handle iomap\<rparr>)))"

definition uacpi_kernel_io_unmap :: "u64 \<Rightarrow> 'a heap_state_scheme \<Rightarrow> (fault + 'a heap_state_scheme) option" where
  "uacpi_kernel_io_unmap hnd s = free_handle hnd s"

definition load16 :: "memory \<Rightarrow> u64 \<Rightarrow> u16" where
  "load16 m a = ucast (m a) OR push_bit 8 (ucast (m (a + 1)))"

definition io_port :: "u64 \<Rightarrow> u64 \<Rightarrow> 'a heap_state_scheme \<Rightarrow> u64" where
  "io_port hnd off s = ucast (load16 (mem s) hnd) + off"

definition uacpi_kernel_io_read8 :: "(u64 \<Rightarrow> 'a heap_state_scheme \<Rightarrow> u8) \<Rightarrow> u64 \<Rightarrow> u64 \<Rightarrow> 'a heap_state_scheme \<Rightarrow> uacpi_status \<times> u8" where
  "uacpi_kernel_io_read8 inb' hnd off s = (UACPI_STATUS_OK, inb' (io_port hnd off s) s)"

definition uacpi_kernel_io_read16 :: "(u64 \<Rightarrow> 'a heap_state_scheme \<Rightarrow> u16) \<Rightarrow> u64 \<Rightarrow> u64 \<Rightarrow> 'a heap_state_scheme \<Rightarrow> uacpi_status \<times> u16" where
  "uacpi_kernel_io_read16 inw hnd off s = (UACPI_STATUS_OK, inw (io_port hnd off s) s)"

definition uacpi_kernel_io_read32 :: "(u64 \<Rightarrow> 'a heap_state_scheme \<Rightarrow> u32) \<Rightarrow> u64 \<Rightarrow> u64 \<Rightarrow> 'a heap_state_scheme \<Rightarrow> uacpi_status \<times> u32" where
  "uacpi_kernel_io_read32 ind hnd off s = (UACPI_STATUS_OK, ind (io_port hnd off s) s)"

definition uacpi_kernel_io_write8 ::
    "(u64 \<Rightarrow> u8 \<Rightarrow> 'a heap_state_scheme \<Rightarrow> 'a heap_state_scheme) \<Rightarrow> u64 \<Rightarrow> u64 \<Rightarrow> u8 \<Rightarrow> 'a heap_state_scheme \<Rightarrow> uacpi_status \<times> 'a heap_state_scheme" where
  "uacpi_kernel_io_write8 out8 hnd off v s = (UACPI_STATUS_OK, out8 (io_port hnd off s) v s)"

definition uacpi_kernel_io_write16 ::
    "(u64 \<Rightarrow> u16 \<Rightarrow> 'a heap_state_scheme \<Rightarrow> 'a heap_state_scheme) \<Rightarrow> u64 \<Rightarrow> u64 \<Rightarrow> u16 \<Rightarrow> 'a heap_state_scheme \<Rightarrow> uacpi_status \<times> 'a heap_state_scheme" where
  "uacpi_kernel_io_write16 out16 hnd off v s = (UACPI_STATUS_OK, out16 (io_port hnd off s) v s)"

definition uacpi_kernel_io_write32 ::
    "(u64 \<Rightarrow> u32 \<Rightarrow> 'a heap_state_scheme \<Rightarrow> 'a heap_state_scheme) \<Rightarrow> u64 \<Rightarrow> u64 \<Rightarrow> u32 \<Rightarrow> 'a heap_state_scheme \<Rightarrow> uacpi_status \<times> 'a heap_state_scheme" where
  "uacpi_kernel_io_write32 out32 hnd off v s = (UACPI_STATUS_OK, out32 (io_port hnd off s) v s)"

section \<open>Time, locks and events\<close>

definition uacpi_kernel_get_nanoseconds_since_boot :: "'a timer_state_scheme \<Rightarrow> u64" where
  "uacpi_kernel_get_nanoseconds_since_boot s = get_uptime_ns s"

definition uacpi_kernel_stall ::
    "u8 \<Rightarrow> irq_event list \<Rightarrow> 'a timer_state_scheme \<Rightarrow> (irq_event list \<times> 'a timer_state_scheme) option" where
  "uacpi_kernel_stall usec ev s = sleep_us (ucast usec) ev s"

definition uacpi_kernel_sleep ::
    "u64 \<Rightarrow> irq_event list \<Rightarrow> 'a timer_state_scheme \<Rightarrow> (irq_event list \<times> 'a timer_state_scheme) option" where
  "uacpi_kernel_sleep msec ev s = sleep_ms msec ev s"

text \<open>The lock of the kernel library: a new one, its \<open>lock\<close> and its \<open>unlock\<close>.\<close>

record 's lock_api =
  new_lock :: "'s \<Rightarrow> (fault + (u64 \<times> 's)) option"
  lock :: "u64 \<Rightarrow> 's \<Rightarrow> (fault + 's) option"
  unlock :: "u64 \<Rightarrow> 's \<Rightarrow> (fault + 's) option"

definition uacpi_kernel_create_mutex :: "'s lock_api \<Rightarrow> 's \<Rightarrow> (fault + (u64 \<times> 's)) option" where
  "uacpi_kernel_create_mutex A s = new_lock A s"

definition uacpi_kernel_free_mutex :: "u64 \<Rightarrow> 'a heap_state_scheme \<Rightarrow> (fault + 'a heap_state_scheme) option" where
  "uacpi_kernel_free_mutex hnd s = free_handle hnd s"

definition uacpi_kernel_acquire_mutex :: "'s lock_api \<Rightarrow> u64 \<Rightarrow> u16 \<Rightarrow> 's \<Rightarrow> (fault + (uacpi_status \<times> 's)) option" where
  "uacpi_kernel_acquire_mutex A hnd timeout s = then_do (lock A hnd s) (\<lambda>s1. Some (Inr (UACPI_STATUS_OK, s1)))"

definition uacpi_kernel_release_mutex :: "'s lock_api \<Rightarrow> u64 \<Rightarrow> 's \<Rightarrow> (fault + 's) option" where
  "uacpi_kernel_release_mutex A hnd s = unlock A hnd s"

definition uacpi_kernel_create_spinlock :: "'s lock_api \<Rightarrow> 's \<Rightarrow> (fault + (u64 \<times> 's)) option" where
  "uacpi_kernel_create_spinlock A s = new_lock A s"

definition uacpi_kernel_free_spinlock :: "u64 \<Rightarrow> 'a heap_state_scheme \<Rightarrow> (fault + 'a heap_state_scheme) option" where
  "uacpi_kernel_free_spinlock hnd s = free_handle hnd s"

definition uacpi_kernel_lock_spinlock :: "'s lock_api \<Rightarrow> u64 \<Rightarrow> 's \<Rightarrow> (fault + (uacpi_status \<times> 's)) option" where
  "uacpi_kernel_lock_spinlock A hnd s = then_do (lock A hnd s) (\<lambda>s1. Some (Inr (UACPI_STATUS_OK, s1)))"

definition uacpi_kernel_unlock_spinlock :: "'s lock_api \<Rightarrow> u64 \<Rightarrow> u64 \<Rightarrow> 's \<Rightarrow> (fault + 's) option" where
  "uacpi_kernel_unlock_spinlock A hnd fl s = unlock A hnd s"

text \<open>Events, work and firmware requests do nothing; an event is the handle 1 and waiting for it succeeds at once.\<close>

definition uacpi_kernel_create_event :: u64 where "uacpi_kernel_create_event = 1"
definition uacpi_kernel_get_thread_id :: u64 where "uacpi_kernel_get_thread_id = 0"

definition uacpi_kernel_wait_for_event :: "u64 \<Rightarrow> u16 \<Rightarrow> bool" where
  "uacpi_kernel_wait_for_event hnd timeout = True"

definition uacpi_kernel_handle_firmware_request :: "u64 \<Rightarrow> uacpi_status" where
  "uacpi_kernel_handle_firmware_request req = UACPI_STATUS_OK"

definition uacpi_kernel_schedule_work :: "u64 \<Rightarrow> u64 \<Rightarrow> u64 \<Rightarrow> uacpi_status" where
  "uacpi_kernel_schedule_work typ work hnd = UACPI_STATUS_OK"

definition uacpi_kernel_wait_for_work_completion :: uacpi_status where
  "uacpi_kernel_wait_for_work_completion = UACPI_STATUS_OK"

section \<open>The subsystem\<close>

text \<open>\<open>kernel/sys/acpi.cc\<close>; the calls of the library succeed or fail and may change the state.\<close>

definition ACPI_init ::
    "(u64 \<Rightarrow> 'a acpi_state_scheme \<Rightarrow> bool \<times> 'a acpi_state_scheme) \<Rightarrow> 'a acpi_state_scheme \<Rightarrow> 'a acpi_state_scheme" where
  "ACPI_init uacpi_initialize s =
     (let (ok, s1) = uacpi_initialize 0 s in if \<not> ok then s1 else s1\<lparr>acpi_initialized := True\<rparr>)"

definition ACPI_load :: "'a acpi_state_scheme \<Rightarrow> 'a acpi_state_scheme" where
  "ACPI_load s = s"

definition is_initialized :: "'a acpi_state_scheme \<Rightarrow> bool" where
  "is_initialized s = acpi_initialized s"

definition ACPI_shutdown ::
    "('a acpi_state_scheme \<Rightarrow> bool \<times> 'a acpi_state_scheme) \<Rightarrow> ('a acpi_state_scheme \<Rightarrow> bool \<times> 'a acpi_state_scheme) \<Rightarrow>
     'a acpi_state_scheme \<Rightarrow> int \<times> 'a acpi_state_scheme" where
  "ACPI_shutdown prepare enter s =
     (let (ok, s1) = prepare s in
      if \<not> ok then (- 1, s1)
      else (let (ok2, s2) = enter (s1\<lparr>interrupts := False\<rparr>) in if \<not> ok2 then (- 1, s2) else (0, s2)))"

section \<open>The registered handlers\<close>

text \<open>The abstract table: the handler and context of each interrupt request that has one.\<close>

definition registered :: "'a acpi_state_scheme \<Rightarrow> u8 \<Rightarrow> (u64 \<times> u64) option" where
  "registered s n = (let e = uacpi_handlers s n in if installed e then Some (handler e, ctx e) else None)"

text \<open>The invariant of the table: an installed entry has a handler and is reached through the bridge, any other is cleared.\<close>

definition entry_wf :: "irq_fn option \<Rightarrow> u8 \<Rightarrow> uacpi_irq_handler \<Rightarrow> bool" where
  "entry_wf f n e \<longleftrightarrow>
     (if installed e then handler e \<noteq> 0 \<and> irq e = ucast n \<and> f = Some Fn_uacpi_irq_bridge else handler e = 0 \<and> ctx e = 0)"

definition handlers_wf :: "'a acpi_state_scheme \<Rightarrow> bool" where
  "handlers_wf s \<longleftrightarrow> (\<forall>n. entry_wf (irq_handlers s n) n (uacpi_handlers s n))"

inductive acpi_step :: "u64 \<Rightarrow> 'a acpi_state_scheme \<Rightarrow> 'a acpi_state_scheme \<Rightarrow> bool" for tab where
  install: "uacpi_kernel_install_interrupt_handler tab n h c out_irq_handle s = (st, s') \<Longrightarrow> acpi_step tab s s'"
| uninstall: "uacpi_kernel_uninstall_interrupt_handler tab h irq_handle s = Inr (st, s') \<Longrightarrow> acpi_step tab s s'"

inductive_cases acpi_stepE [elim]: "acpi_step tab s s'"

lemma ucast_u8_u32: "(n :: u32) < 256 \<Longrightarrow> ucast (ucast n :: u8) = n"
  by (simp add: word_unat_eq_iff word_less_nat_alt unsigned_ucast_eq unsigned_take_bit_eq take_bit_nat_eq_self)

lemma install_cases:
  "uacpi_kernel_install_interrupt_handler tab n h c out_irq_handle s = (st, s') \<Longrightarrow>
   (st \<noteq> UACPI_STATUS_OK \<and> s' = s) \<or>
   (st = UACPI_STATUS_OK \<and> n < 256 \<and> h \<noteq> 0 \<and> registered s (ucast n) = None \<and>
    uacpi_handlers s' = (uacpi_handlers s)(ucast n := \<lparr>handler = h, ctx = c, irq = n, installed = True\<rparr>) \<and>
    irq_handlers s' = (irq_handlers s)(ucast n := Some Fn_uacpi_irq_bridge) \<and>
    idt s' = (idt s)(ucast n := gate_with (isr_handlers s (ucast n)) 0x08 INT_GATE IST_IRQ) \<and>
    mem s' = store64 (mem s) out_irq_handle (handler_addr tab (ucast n)))"
  by (auto simp: uacpi_kernel_install_interrupt_handler_def IRQ_register_entry_def register_entry_with_ist_def
      registered_def Let_def not_le split: if_splits)

lemma uninstall_cases:
  "uacpi_kernel_uninstall_interrupt_handler tab h irq_handle s = Inr (st, s') \<Longrightarrow>
   (st \<noteq> UACPI_STATUS_OK \<and> s' = s) \<or>
   (st = UACPI_STATUS_OK \<and> h \<noteq> 0 \<and> (\<exists>n e. e = uacpi_handlers s n \<and> installed e \<and> handler e = h \<and>
      s' = s\<lparr>uacpi_handlers := (uacpi_handlers s)(n := e\<lparr>installed := False, handler := 0, ctx := 0\<rparr>)\<rparr>))"
  by (auto simp: uacpi_kernel_uninstall_interrupt_handler_def Let_def split: if_splits)

lemma handlers_wf_step: "acpi_step tab s s' \<Longrightarrow> handlers_wf s \<Longrightarrow> handlers_wf s'"
proof (erule acpi_stepE)
  fix n h c out_irq_handle st
  assume "handlers_wf s" "uacpi_kernel_install_interrupt_handler tab n h c out_irq_handle s = (st, s')"
  then show "handlers_wf s'" using install_cases [of tab n h c out_irq_handle s st s'] by (auto simp: handlers_wf_def ucast_u8_u32) (simp add: entry_wf_def ucast_u8_u32)
next
  fix h irq_handle st
  assume "handlers_wf s" "uacpi_kernel_uninstall_interrupt_handler tab h irq_handle s = Inr (st, s')"
  moreover have "entry_wf f n (e\<lparr>installed := False, handler := 0, ctx := 0\<rparr>)" for f n e by (simp add: entry_wf_def)
  ultimately show "handlers_wf s'" using uninstall_cases [of tab h irq_handle s st s'] by (auto simp: handlers_wf_def)
qed

interpretation hw: step_invariant "acpi_step tab" handlers_wf for tab
  by unfold_locales (rule handlers_wf_step)

lemma handler_addr_index:
  assumes "unat tab + 6144 < 2 ^ 64"
  shows "ucast (((handler_addr tab n - tab) div HANDLER_SIZE)) = n" and "(handler_addr tab n - tab) mod HANDLER_SIZE = 0"
    and "\<not> handler_addr tab n < tab" and "handler_addr tab n < tab + 256 * HANDLER_SIZE"
proof -
  have n: "unat n < 256" using unsigned_less [of n] by simp
  have u: "unat (ucast n * HANDLER_SIZE :: u64) = unat n * 24"
    using n by (simp add: HANDLER_SIZE_def unat_word_ariths unsigned_ucast_eq take_bit_nat_eq_self)
  have d: "handler_addr tab n - tab = ucast n * HANDLER_SIZE" by (simp add: handler_addr_def)
  have "unat (handler_addr tab n) = unat tab + unat n * 24"
    using assms n u by (simp add: handler_addr_def unat_word_ariths)
  then show "\<not> handler_addr tab n < tab" "handler_addr tab n < tab + 256 * HANDLER_SIZE"
    using assms n by (simp_all add: word_less_nat_alt HANDLER_SIZE_def unat_word_ariths)
  have "unat ((handler_addr tab n - tab) div HANDLER_SIZE) = unat n"
    unfolding d unat_div using u by (simp add: HANDLER_SIZE_def)
  then show "ucast (((handler_addr tab n - tab) div HANDLER_SIZE)) = n"
    using n by (simp add: word_unat_eq_iff unsigned_ucast_eq take_bit_nat_eq_self)
  show "(handler_addr tab n - tab) mod HANDLER_SIZE = 0"
    unfolding d using u by (simp add: word_unat_eq_iff unat_mod HANDLER_SIZE_def)
qed

lemma uninstall_at:
  assumes "unat tab + 6144 < 2 ^ 64" and "tab \<noteq> 0"
  shows "uacpi_kernel_uninstall_interrupt_handler tab h (handler_addr tab n) s =
     (if h \<noteq> 0 \<and> (\<exists>c. registered s n = Some (h, c))
      then Inr (UACPI_STATUS_OK, s\<lparr>uacpi_handlers := (uacpi_handlers s)(n := (uacpi_handlers s n)\<lparr>installed := False, handler := 0, ctx := 0\<rparr>)\<rparr>)
      else Inr (UACPI_STATUS_INVALID_ARGUMENT, s))"
proof -
  have "handler_addr tab n \<noteq> 0" using handler_addr_index(3) [OF assms(1), of n] assms(2) by (auto simp: word_less_nat_alt unat_gt_0)
  then show ?thesis using handler_addr_index [OF assms(1), of n]
    by (auto simp: uacpi_kernel_uninstall_interrupt_handler_def registered_def Let_def)
qed

lemma install_then_uninstall:
  assumes tab: "unat tab + 6144 < 2 ^ 64" "tab \<noteq> 0"
    and ok: "uacpi_kernel_install_interrupt_handler tab n h c out_irq_handle s = (UACPI_STATUS_OK, s1)"
  shows "\<exists>s2. uacpi_kernel_uninstall_interrupt_handler tab h (load64 (mem s1) out_irq_handle) s1 = Inr (UACPI_STATUS_OK, s2) \<and>
     registered s2 = registered s \<and>
     uacpi_kernel_uninstall_interrupt_handler tab h (load64 (mem s1) out_irq_handle) s2 = Inr (UACPI_STATUS_INVALID_ARGUMENT, s2)"
proof -
  from install_cases [OF ok] have h: "h \<noteq> 0" "registered s (ucast n) = None" "mem s1 = store64 (mem s) out_irq_handle (handler_addr tab (ucast n))"
      "uacpi_handlers s1 = (uacpi_handlers s)(ucast n := \<lparr>handler = h, ctx = c, irq = n, installed = True\<rparr>)" by auto
  define s2 where "s2 = s1\<lparr>uacpi_handlers := (uacpi_handlers s1)(ucast n := (uacpi_handlers s1 (ucast n))\<lparr>installed := False, handler := 0, ctx := 0\<rparr>)\<rparr>"
  have "registered s1 (ucast n) = Some (h, c)" using h(4) by (simp add: registered_def)
  then have u1: "uacpi_kernel_uninstall_interrupt_handler tab h (handler_addr tab (ucast n)) s1 = Inr (UACPI_STATUS_OK, s2)"
    using h(1) by (simp add: uninstall_at [OF tab] s2_def)
  have r2: "registered s2 = registered s"
    using h(2,4) by (auto simp: s2_def registered_def Let_def split: if_splits)
  then have "uacpi_kernel_uninstall_interrupt_handler tab h (handler_addr tab (ucast n)) s2 = Inr (UACPI_STATUS_INVALID_ARGUMENT, s2)"
    using h(2) by (simp add: uninstall_at [OF tab])
  with u1 r2 h(3) show ?thesis by auto
qed

section \<open>Properties\<close>

text \<open>
  (C26) Installing a handler and taking it out again. With valid arguments and no handler of that number
  \<open>uacpi_kernel_install_interrupt_handler\<close> succeeds: the handler and its context are registered, the bridge is
  the handler of the interrupt request, the gate of that vector points to its stub on the stack of interrupt
  requests, and the handle is stored. Uninstalling the handler with that handle succeeds and gives back the
  registered handlers there were; a second time it is an invalid argument. An invalid argument and
  a number that has a handler change nothing.
\<close>

theorem install_uninstall:
  assumes "unat tab + 6144 < 2 ^ 64" and "tab \<noteq> 0"
    and "uacpi_kernel_install_interrupt_handler tab n h c out_irq_handle s = (st, s1)"
  shows "(if n \<ge> 256 \<or> h = 0 \<or> out_irq_handle = 0 then st = UACPI_STATUS_INVALID_ARGUMENT \<and> s1 = s
     else if registered s (ucast n) \<noteq> None then st = UACPI_STATUS_ALREADY_EXISTS \<and> s1 = s
     else st = UACPI_STATUS_OK \<and> registered s1 = (registered s)(ucast n \<mapsto> (h, c)) \<and>
       irq_handlers s1 = (irq_handlers s)(ucast n \<mapsto> Fn_uacpi_irq_bridge) \<and>
       idt s1 = (idt s)(ucast n := gate_with (isr_handlers s (ucast n)) 0x08 INT_GATE IST_IRQ) \<and>
       (\<exists>s2. uacpi_kernel_uninstall_interrupt_handler tab h (load64 (mem s1) out_irq_handle) s1 = Inr (UACPI_STATUS_OK, s2) \<and>
             registered s2 = registered s \<and>
             uacpi_kernel_uninstall_interrupt_handler tab h (load64 (mem s1) out_irq_handle) s2 = Inr (UACPI_STATUS_INVALID_ARGUMENT, s2)))"
proof (cases "st = UACPI_STATUS_OK")
  case True
  then have "\<not> (n \<ge> 256 \<or> h = 0 \<or> out_irq_handle = 0)" "registered s (ucast n) = None"
    using assms(3) by (auto simp: uacpi_kernel_install_interrupt_handler_def registered_def Let_def split: if_splits)
  moreover have "registered s1 = (registered s)(ucast n \<mapsto> (h, c))"
    using install_cases [OF assms(3)] True by (auto simp: registered_def Let_def)
  moreover from True assms(3) have ok: "uacpi_kernel_install_interrupt_handler tab n h c out_irq_handle s = (UACPI_STATUS_OK, s1)" by simp
  ultimately show ?thesis using install_cases [OF assms(3)] True install_then_uninstall [OF assms(1,2) ok] by auto
next
  case False
  then show ?thesis
    using assms(3) by (auto simp: uacpi_kernel_install_interrupt_handler_def registered_def Let_def split: if_splits)
qed

text \<open>
  (C38) \<open>uacpi_kernel_map\<close> of bytes inside one page: it returns the address in the direct map, and the page of that
  address gets the entry \<open>addr OR 3\<close>. The physical address is not rounded down, so its offset in the page is
  written over the flag bits of the entry.
\<close>

theorem uacpi_kernel_map_entry:
  assumes "pt_wf s" and "3 \<le> free_ahead s" and "0 < len" and "unat len + unat addr mod 4096 \<le> 4096"
  shows "\<exists>s'. uacpi_kernel_map addr len s = Some (Inr (PHYS2VIRT s addr, s')) \<and> pt_wf s' \<and>
     translate s' (PHYS2VIRT s addr) = Some (addr OR 3) \<and>
     (\<forall>w. vpn w \<noteq> vpn (PHYS2VIRT s addr) \<longrightarrow> translate s' w = translate s w)"
proof -
  let ?sz = "ALIGN_UP (len + (addr - ROUND_DOWN addr)) 0x1000"
  have "unat (addr - ROUND_DOWN addr) = unat addr mod 4096"
    using ROUND_DOWN_le [of addr] by (simp add: unat_sub unat_ROUND_DOWN minus_mult_div_eq_mod)
  then have l: "unat (len + (addr - ROUND_DOWN addr)) = unat len + unat addr mod 4096"
    using assms(4) by (simp add: unat_word_ariths)
  have "0 < unat len" using assms(3) by (simp add: word_less_nat_alt)
  then have "(unat len + unat addr mod 4096 + 4095) div 4096 = 1" using assms(4) by (intro div_nat_eqI) auto
  then have sz: "unat ?sz = 4096" using l assms(4) by (subst unat_ALIGN_UP) auto
  have e: "range_requests addr (PHYS2VIRT s addr) ?sz 3 = [(addr, PHYS2VIRT s addr, 3)]"
    by (simp add: range_requests_def for_range_pages sz)
  have fl: "PAGE_PRESENT OR PAGE_WRITE = 3" by (simp add: PAGE_PRESENT_def PAGE_WRITE_def)
  obtain s' where "Paging_map_range addr (PHYS2VIRT s addr) ?sz 3 s = Some (Inr (ucast (?sz div FRAME_SIZE), s'))"
      "pt_wf s'" "translate s' = vm_run (range_requests addr (PHYS2VIRT s addr) ?sz 3) (translate s)"
    by (rule Paging_map_range_run [OF assms(1), of ?sz addr "PHYS2VIRT s addr" 3]) (use sz assms(2) in simp_all)
  moreover have "pte (addr OR 3) = Some (addr OR 3)"
  proof -
    have "bit ((addr OR 3) AND PAGE_PRESENT) 0" by (simp add: PAGE_PRESENT_def bit_and_iff bit_or_iff)
    then have "(addr OR 3) AND PAGE_PRESENT \<noteq> 0" by auto
    then show ?thesis by (simp add: pte_def)
  qed
  ultimately show ?thesis using e fl by (simp add: uacpi_kernel_map_def vm_map_def Let_def)
qed

lemma load16_store64 [simp]: "load16 (store64 m p v) p = ucast v"
proof -
  have "store64 m p v p = ucast v" "store64 m p v (p + 1) = ucast (drop_bit 8 v)" by (simp_all add: store64_def word_less_nat_alt)
  then show ?thesis unfolding load16_def
    by (intro bit_word_eqI) (auto simp: bit_or_iff bit_ucast_iff bit_push_bit_iff bit_drop_bit_eq not_less)
qed

lemma load16_store64_apart: "apart b 8 p 2 \<Longrightarrow> load16 (store64 m b v) p = load16 m p"
  using apart_outside [of b 8 p 2 p] apart_outside [of b 8 p 2 "p + 1"]
  by (simp add: load16_def store64_def word_less_nat_alt)

text \<open>
  A port range: \<open>uacpi_kernel_io_map\<close> stores a handle of a new block, and a write through it goes to the port
  that is the offset after the lower 16 bits of the base, for any offset: the length given to
  \<open>uacpi_kernel_io_map\<close> bounds nothing. (The pointer for the handle lies outside the new block.)
\<close>

theorem io_map_ports:
  assumes "kmalloc IO_SIZE s = Some (Inr (p, s1))" and "apart out_handle 8 p 16"
  shows "\<exists>s2. uacpi_kernel_io_map base len out_handle s = Some (Inr (UACPI_STATUS_OK, s2)) \<and> load64 (mem s2) out_handle = p \<and>
     load64 (mem s2) (p + 8) = len \<and>
     (\<forall>off out8 v. uacpi_kernel_io_write8 out8 p off v s2 = (UACPI_STATUS_OK, out8 (ucast (ucast base :: u16) + off) v s2))"
proof -
  have a: "apart out_handle 8 p 2" "apart out_handle 8 (p + 8) 8" "apart (p + 8) 8 p 2"
    using apart_mono [OF assms(2), of 8 2] apart_shift [OF assms(2), of 0 8 8 8] by (simp_all add: apart_def)
  have "load16 (store64 (store64 (store64 m p base) (p + 8) len) out_handle p) p = ucast base" for m
    using a by (simp add: load16_store64_apart)
  then show ?thesis using assms a
    by (auto simp: uacpi_kernel_io_map_def uacpi_kernel_io_write8_def io_port_def mem_simps Let_def)
qed

section \<open>Witnesses\<close>

definition ex_acpi :: acpi_state where
  "ex_acpi = irq_state.extend (symbol_state.extend ex_symbols (irq_state.fields (\<lambda>_. None) []))
     (acpi_state.fields (\<lambda>_. \<lparr>handler = 0, ctx = 0, irq = 0, installed = False\<rparr>) False)"

lemma ex_acpi_sel [simp]: "uacpi_handlers ex_acpi n = \<lparr>handler = 0, ctx = 0, irq = 0, installed = False\<rparr>" "irq_handlers ex_acpi n = None"
  by (simp_all add: ex_acpi_def irq_state.defs symbol_state.defs acpi_state.defs)

lemma ex_acpi_wf [simp]: "handlers_wf ex_acpi" and ex_acpi_none [simp]: "registered ex_acpi n = None"
  by (simp_all add: handlers_wf_def entry_wf_def registered_def)

theorem install_uninstall_witness:
  "\<exists>s1 s2. uacpi_kernel_install_interrupt_handler 0xffffffff80100000 9 0xffffffff80001000 5 0x4000 ex_acpi = (UACPI_STATUS_OK, s1) \<and>
     registered s1 9 = Some (0xffffffff80001000, 5) \<and>
     uacpi_kernel_uninstall_interrupt_handler 0xffffffff80100000 0xffffffff80001000 (load64 (mem s1) 0x4000) s1 = Inr (UACPI_STATUS_OK, s2) \<and>
     registered s2 9 = None"
proof -
  obtain st s1 where r: "uacpi_kernel_install_interrupt_handler 0xffffffff80100000 9 0xffffffff80001000 5 0x4000 ex_acpi = (st, s1)" by fastforce
  from install_uninstall [OF _ _ r] have "st = UACPI_STATUS_OK" "registered s1 = (registered ex_acpi)(9 \<mapsto> (0xffffffff80001000, 5))"
      "\<exists>s2. uacpi_kernel_uninstall_interrupt_handler 0xffffffff80100000 0xffffffff80001000 (load64 (mem s1) 0x4000) s1 = Inr (UACPI_STATUS_OK, s2) \<and>
         registered s2 = registered ex_acpi" by auto
  then show ?thesis using r by fastforce
qed

theorem uacpi_kernel_map_entry_witness:
  "\<exists>s'. uacpi_kernel_map 0xE0018 36 ex_paging = Some (Inr (0xffff8000000E0018, s')) \<and>
     translate s' 0xffff8000000E0018 = Some 0xE001B"
  using uacpi_kernel_map_entry [OF ex_paging_wf, of 36 "0xE0018"] by (auto simp: ex_paging_room PHYS2VIRT_def)

theorem io_map_ports_witness:
  "\<exists>s2 p. uacpi_kernel_io_map 0x604 2 0x1000 ex_heap_pages = Some (Inr (UACPI_STATUS_OK, s2)) \<and> load64 (mem s2) 0x1000 = p \<and>
     uacpi_kernel_io_write8 (\<lambda>port v s. s\<lparr>mem := store64 (mem s) 0x5000 port\<rparr>) p 0x70 1 s2 =
       (UACPI_STATUS_OK, s2\<lparr>mem := store64 (mem s2) 0x5000 0x674\<rparr>)"
proof -
  let ?P = "(0xffff800000100000, 4096, [(0xffff800000100020, 100, False)] @ (0xffff8000001000a4, 3900, True) # [])"
  have "heap_wf ex_heap_pages ([] @ ?P # tl ex_H)" using ex_heap_pages_wf by (simp add: ex_H_def)
  then obtain m' where "kmalloc IO_SIZE ex_heap_pages = Some (Inr (0xffff8000001000a4 + 32, ex_heap_pages\<lparr>mem := m'\<rparr>))"
    by (rule kmalloc_fit [of _ _ _ _ _ _ _ _ _ IO_SIZE]) (simp_all add: IO_SIZE_def fits_def)
  then have k: "kmalloc IO_SIZE ex_heap_pages = Some (Inr (0xffff8000001000c4, ex_heap_pages\<lparr>mem := m'\<rparr>))" by simp
  show ?thesis using io_map_ports [OF k, of "0x1000" "0x604" 2] by (fastforce simp: apart_def)
qed

end
