(* ===== verification/Demangle.thy ===== *)
theory Demangle
  imports Symbols
begin

text \<open>
  The names of the crash reports, \<open>kernel/err/mangle.cc\<close>: a C++ symbol is turned back into the function's
  name and the types of its parameters, in a heap buffer of 128 bytes.

  Strings are character lists; position \<open>length name\<close> holds the terminator. The buffers of the code have the
  sizes of the source, 128 for the output and for the name of a class, 64 for the current type, 16 for a
  number and 64 rows of 16 for the types seen, kept as the 1024 bytes they are. A write past one of them
  and a read past the terminator of the symbol are the fault \<open>OutOfBounds\<close>. \<open>atoi\<close> of the kernel library is a
  parameter.
\<close>

section \<open>Operations\<close>

definition NUL :: char where "NUL = CHR 0x00"

definition char_at :: "string \<Rightarrow> nat \<Rightarrow> char" where
  "char_at name i = (if i < length name then name ! i else NUL)"

text \<open>\<open>memcpy\<close> of \<open>n\<close> bytes of the symbol to the end of a buffer.\<close>

definition put :: "nat \<Rightarrow> string \<Rightarrow> string \<Rightarrow> fault + string" where
  "put cap buffer bs = (if length buffer + length bs \<le> cap then Inr (buffer @ bs) else Inl OutOfBounds)"

definition put_name :: "nat \<Rightarrow> string \<Rightarrow> string \<Rightarrow> nat \<Rightarrow> nat \<Rightarrow> fault + string" where
  "put_name cap buffer name i n =
     (if i + n \<le> length name then put cap buffer (take n (drop i name)) else Inl OutOfBounds)"

definition is_mangled :: "string \<Rightarrow> bool" where
  "is_mangled name \<longleftrightarrow> char_at name 0 = CHR ''_'' \<and> char_at name 1 = CHR ''Z''"

definition copy_unmangled_name :: "string \<Rightarrow> fault + string" where
  "copy_unmangled_name name = put 128 [] name"

definition is_digit :: "char \<Rightarrow> bool" where
  "is_digit c \<longleftrightarrow> (of_char c :: nat) \<ge> 48 \<and> (of_char c :: nat) \<le> 57"

text \<open>The digits from position \<open>i\<close> on; at most 15 fit their buffer with the terminator.\<close>

definition digits_at :: "string \<Rightarrow> nat \<Rightarrow> string" where
  "digits_at name i = takeWhile is_digit (drop i name)"

definition parse_function_length :: "(string \<Rightarrow> nat) \<Rightarrow> string \<Rightarrow> nat \<Rightarrow> fault + (nat \<times> nat)" where
  "parse_function_length atoi name i =
     (let ds = digits_at name i in
      bind_sum (put 16 ds [NUL]) (\<lambda>_. Inr (atoi ds, i + length ds)))"

text \<open>The loop of \<open>unmangle_name\<close> over the parts of a qualified name.\<close>

function ns_loop :: "(string \<Rightarrow> nat) \<Rightarrow> string \<Rightarrow> nat \<Rightarrow> string \<Rightarrow> fault + (nat \<times> string)" where
  "ns_loop atoi name i buffer =
     (if char_at name i = CHR ''E'' then Inr (i, buffer)
      else case parse_function_length atoi name i of
        Inl e \<Rightarrow> Inl e
      | Inr (n, i1) \<Rightarrow>
          (case put_name 128 buffer name i1 n of
             Inl e \<Rightarrow> Inl e
           | Inr buffer1 \<Rightarrow>
               if char_at name (i1 + n) \<noteq> CHR ''E''
               then (case put 128 buffer1 ''::'' of Inl e \<Rightarrow> Inl e | Inr buffer2 \<Rightarrow> ns_loop atoi name (i1 + n) buffer2)
               else Inr (i1 + n, buffer1)))"
  by pat_completeness auto
termination
  by (relation "measure (\<lambda>(a, name, i, buffer). 128 - length buffer)") (auto simp: put_name_def put_def split: if_splits)

declare ns_loop.simps [simp del]

definition unmangle_name :: "(string \<Rightarrow> nat) \<Rightarrow> string \<Rightarrow> nat \<Rightarrow> fault + (nat \<times> string)" where
  "unmangle_name atoi name i =
     (let ns = (char_at name i = CHR ''N''); i0 = (if ns then i + 1 else i) in
      bind_sum (parse_function_length atoi name i0) (\<lambda>(n, i1).
      bind_sum (put_name 128 [] name i1 n) (\<lambda>buffer.
      bind_sum (if ns then bind_sum (put 128 buffer ''::'') (\<lambda>b. bind_sum (ns_loop atoi name (i1 + n) b) (\<lambda>(i2, b2). Inr (i2 + 1, b2)))
                else Inr (i1 + n, buffer)) (\<lambda>(i2, b2).
      bind_sum (put 128 b2 [NUL]) (\<lambda>_. Inr (i2, b2))))))"

definition copy_function_name :: "string \<Rightarrow> nat \<Rightarrow> nat \<Rightarrow> fault + (nat \<times> string)" where
  "copy_function_name name i n =
     bind_sum (put_name 128 [] name i n) (\<lambda>b. bind_sum (put 128 b ''('') (\<lambda>b'. Inr (i + n, b')))"

definition append_remaining_name :: "string \<Rightarrow> nat \<Rightarrow> string \<Rightarrow> fault + string" where
  "append_remaining_name name i buffer = put 128 buffer (takeWhile (\<lambda>c. c \<noteq> NUL) (drop i name))"

definition is_end_of_parameters :: "char \<Rightarrow> bool" where
  "is_end_of_parameters c \<longleftrightarrow> c = CHR ''E'' \<or> c = NUL \<or> c = CHR '' ''"

text \<open>
  The parameters: the position, the output, the current type, the number of types seen and the bytes
  of their rows.
\<close>

record dem =
  pos :: nat
  out :: string
  latest :: string
  seen :: nat
  old :: "char list"

definition append_to_buffer :: "string \<Rightarrow> dem \<Rightarrow> fault + dem" where
  "append_to_buffer bs d =
     bind_sum (put 128 (out d) bs) (\<lambda>b. bind_sum (put 64 (latest d) bs) (\<lambda>l. Inr (d\<lparr>out := b, latest := l\<rparr>)))"

text \<open>The characters up to the underscore, and the old type of that number.\<close>

definition handle_repeated_type :: "(string \<Rightarrow> nat) \<Rightarrow> string \<Rightarrow> dem \<Rightarrow> fault + dem" where
  "handle_repeated_type atoi name d =
     (let i = pos d + 1;
          type_i = takeWhile (\<lambda>c. c \<noteq> CHR ''_'') (drop i name)
      in if i + length type_i = length name then Inl OutOfBounds else bind_sum (put 16 type_i [NUL]) (\<lambda>_.
         let row = 16 * (if type_i \<noteq> [] then atoi type_i else 0);
             t = takeWhile (\<lambda>c. c \<noteq> NUL \<and> c \<noteq> CHR '' '') (drop row (old d))
         in if row + length t \<ge> length (old d) then Inl OutOfBounds
            else append_to_buffer t (d\<lparr>pos := i + length type_i\<rparr>)))"

definition handle_objstruct :: "(string \<Rightarrow> nat) \<Rightarrow> string \<Rightarrow> dem \<Rightarrow> fault + dem" where
  "handle_objstruct atoi name d =
     bind_sum (unmangle_name atoi name (pos d)) (\<lambda>(i, name_str). append_to_buffer (takeWhile (\<lambda>c. c \<noteq> NUL) name_str) (d\<lparr>pos := i\<rparr>))"

definition builtin_type :: "char \<Rightarrow> string option" where
  "builtin_type c =
     map_of [(CHR ''P'', ''*''), (CHR ''v'', ''void''), (CHR ''m'', ''u64''), (CHR ''j'', ''u32''), (CHR ''t'', ''u16''),
       (CHR ''h'', ''u8''), (CHR ''y'', ''u64''), (CHR ''x'', ''long long''), (CHR ''i'', ''int''), (CHR ''l'', ''long''),
       (CHR ''c'', ''char''), (CHR ''b'', ''bool''), (CHR ''f'', ''float''), (CHR ''d'', ''double''), (CHR ''s'', ''short''),
       (CHR ''K'', ''const ''), (CHR ''z'', ''...'')] c"

definition demangle_single_parameter :: "(string \<Rightarrow> nat) \<Rightarrow> string \<Rightarrow> dem \<Rightarrow> fault + dem" where
  "demangle_single_parameter atoi name d =
     (let c = char_at name (pos d) in
      case builtin_type c of
        Some t \<Rightarrow> append_to_buffer t d
      | None \<Rightarrow>
          if c = CHR ''S'' then handle_repeated_type atoi name d
          else if is_digit c \<or> c = CHR ''N'' then handle_objstruct atoi name d
          else append_to_buffer (takeWhile (\<lambda>c. c \<noteq> NUL) (drop (pos d) name)) d)"

definition add_separator :: "string \<Rightarrow> dem \<Rightarrow> fault + dem" where
  "add_separator name d =
     (if pos d > length name then Inl OutOfBounds
      else if \<not> is_end_of_parameters (char_at name (pos d)) then bind_sum (put 128 (out d) '', '') (\<lambda>b. Inr (d\<lparr>out := b\<rparr>)) else Inr d)"

text \<open>The terminator and the copy of the current type into its row.\<close>

definition remember_type :: "dem \<Rightarrow> fault + dem" where
  "remember_type d =
     (let row = 16 * seen d; n = length (latest d) in
      if row + n \<ge> length (old d) then Inl OutOfBounds
      else Inr (d\<lparr>old := take row (old d) @ latest d @ [NUL] @ drop (row + n + 1) (old d), seen := seen d + 1, latest := []\<rparr>))"

text \<open>The loop over the parameters, for at most \<open>k\<close> rounds.\<close>

fun demangle_parameters :: "nat \<Rightarrow> (string \<Rightarrow> nat) \<Rightarrow> string \<Rightarrow> dem \<Rightarrow> (fault + dem) option" where
  "demangle_parameters 0 atoi name d = None"
| "demangle_parameters (Suc k) atoi name d =
     (if is_end_of_parameters (char_at name (pos d)) then Some (Inr d)
      else then_do (Some (demangle_single_parameter atoi name d)) (\<lambda>d1.
        if char_at name (pos d1) = CHR ''P'' \<or> char_at name (pos d1) = CHR ''K''
        then demangle_parameters k atoi name (d1\<lparr>pos := pos d1 + 1\<rparr>)
        else then_do (Some (remember_type (d1\<lparr>pos := pos d1 + 1\<rparr>))) (\<lambda>d2.
             then_do (Some (add_separator name d2)) (\<lambda>d3. demangle_parameters k atoi name d3))))"

text \<open>
  The whole translation, up to the bytes written to the buffer. Every round of the loop over the
  parameters moves past a character of the symbol, so as many rounds as it has characters are enough.
\<close>

definition demangle :: "(string \<Rightarrow> nat) \<Rightarrow> char list \<Rightarrow> string \<Rightarrow> (fault + string) option" where
  "demangle atoi junk name =
     (if \<not> is_mangled name then Some (copy_unmangled_name name)
      else then_do (Some (if char_at name 2 = CHR ''N''
             then bind_sum (unmangle_name atoi name 2) (\<lambda>(i, b). bind_sum (put 128 (takeWhile (\<lambda>c. c \<noteq> NUL) b) ''('') (\<lambda>b'. Inr (i, b')))
             else bind_sum (parse_function_length atoi name 2) (\<lambda>(n, i).
                  copy_function_name name i n)))
        (\<lambda>(i, b).
         then_do (demangle_parameters (Suc (length name)) atoi name \<lparr>pos = i, out = b, latest = [], seen = 0, old = junk\<rparr>) (\<lambda>d.
         then_do (Some (put 128 (out d) '')'')) (\<lambda>b2.
         Some (append_remaining_name name (pos d) b2)))))"


fun store_chars :: "memory \<Rightarrow> u64 \<Rightarrow> string \<Rightarrow> memory" where
  "store_chars m p [] = m"
| "store_chars m p (c # bs) = store_chars (m(p := of_char c)) (p + 1) bs"

definition demangle_alloc_symbol ::
    "(string \<Rightarrow> nat) \<Rightarrow> char list \<Rightarrow> string \<Rightarrow> 'a heap_state_scheme \<Rightarrow> (fault + (u64 \<times> 'a heap_state_scheme)) option" where
  "demangle_alloc_symbol atoi junk name s =
     then_do (kmalloc 128 s) (\<lambda>(buffer, s1).
     then_do (demangle atoi junk name) (\<lambda>bs. Some (Inr (buffer, s1\<lparr>mem := store_chars (mem s1) buffer bs\<rparr>))))"

section \<open>The loop over the parameters ends\<close>

lemma put_Inr: "put cap b x = Inr b' \<longleftrightarrow> length b + length x \<le> cap \<and> b' = b @ x"
  by (auto simp: put_def)

lemma ns_loop_pos: "ns_loop atoi name i b = Inr (i', b') \<Longrightarrow> i \<le> i'"
proof (induction atoi name i b rule: ns_loop.induct)
  case (1 atoi name i b)
  then show ?case
    by (subst (asm) ns_loop.simps) (fastforce simp: parse_function_length_def bind_sum_Inr_iff put_Inr Let_def split: if_splits sum.splits prod.splits)
qed

lemma unmangle_name_pos: "unmangle_name atoi name i = Inr (i', b') \<Longrightarrow> i \<le> i'"
  by (auto simp: unmangle_name_def bind_sum_Inr_iff parse_function_length_def Let_def split: if_splits prod.splits dest!: ns_loop_pos)

lemma append_to_buffer_pos: "append_to_buffer bs d = Inr d' \<Longrightarrow> pos d' = pos d"
  by (auto simp: append_to_buffer_def bind_sum_Inr_iff)

lemma demangle_single_parameter_pos: "demangle_single_parameter atoi name d = Inr d' \<Longrightarrow> pos d \<le> pos d'"
  by (auto simp: demangle_single_parameter_def bind_sum_Inr_iff handle_repeated_type_def handle_objstruct_def Let_def
      split: option.splits if_splits dest!: append_to_buffer_pos dest: unmangle_name_pos)

lemma remember_type_pos: "remember_type d = Inr d' \<Longrightarrow> pos d' = pos d"
  by (auto simp: remember_type_def Let_def split: if_splits)

lemma add_separator_pos: "add_separator name d = Inr d' \<Longrightarrow> pos d' = pos d \<and> pos d \<le> length name"
  by (auto simp: add_separator_def bind_sum_Inr_iff split: if_splits)

lemma char_at_end: "char_at name i \<noteq> NUL \<Longrightarrow> i < length name"
  by (auto simp: char_at_def split: if_splits)

lemma then_do_returns: "(\<And>x. r = Inr x \<Longrightarrow> \<exists>y. f x = Some y) \<Longrightarrow> \<exists>y. then_do (Some r) f = Some y"
  by (auto simp: then_do_def split: sum.splits)

lemma demangle_parameters_returns:
  "pos d \<le> length name \<Longrightarrow> length name < pos d + k \<Longrightarrow> \<exists>r. demangle_parameters k atoi name d = Some r"
proof (induction k arbitrary: d)
  case (Suc k)
  have step: "\<exists>r. demangle_parameters k atoi name d3 = Some r" if "pos d < pos d3" "pos d3 \<le> length name" for d3
    using that Suc.prems by (intro Suc.IH) auto
  have prefix: "Suc i \<le> length name" if "char_at name i = CHR ''P'' \<or> char_at name i = CHR ''K''" for i
    using that char_at_end [of name i] by (auto simp: NUL_def)
  show ?case
    by (auto intro!: then_do_returns step prefix
        dest!: demangle_single_parameter_pos remember_type_pos add_separator_pos)
qed simp

lemma function_name_pos:
  assumes "put_name 128 [] name i n = Inr b"
  shows "i + n \<le> length name"
  using assms by (auto simp: put_name_def split: if_splits)

lemma ns_loop_end: "ns_loop atoi name i b = Inr (i', b') \<Longrightarrow> i' < length name"
proof (induction atoi name i b rule: ns_loop.induct)
  case (1 atoi name i b)
  have "char_at name j = CHR ''E'' \<Longrightarrow> j < length name" for j using char_at_end [of name j] by (auto simp: NUL_def)
  with 1 show ?case by (subst (asm) ns_loop.simps) (fastforce split: if_splits sum.splits prod.splits)
qed

lemma unmangle_name_end: "unmangle_name atoi name i = Inr (i', b') \<Longrightarrow> i' \<le> length name"
  by (auto simp: unmangle_name_def bind_sum_Inr_iff Let_def split: if_splits dest!: function_name_pos ns_loop_end)

lemma demangle_returns: "\<exists>r. demangle atoi junk name = Some r"
proof (cases "is_mangled name")
  case True
  have loop: "\<exists>y. then_do (demangle_parameters (Suc (length name)) atoi name \<lparr>pos = i, out = b, latest = [], seen = 0, old = junk\<rparr>)
      (\<lambda>d. then_do (Some (put 128 (out d) '')'')) (\<lambda>b2. Some (append_remaining_name name (pos d) b2))) = Some y"
    if "i \<le> length name" for i b
  proof -
    obtain r where "demangle_parameters (Suc (length name)) atoi name \<lparr>pos = i, out = b, latest = [], seen = 0, old = junk\<rparr> = Some r"
      using demangle_parameters_returns [of "\<lparr>pos = i, out = b, latest = [], seen = 0, old = junk\<rparr>" name "Suc (length name)"] \<open>i \<le> length name\<close> by auto
    then show ?thesis by (auto simp del: demangle_parameters.simps intro!: then_do_returns)
  qed
  then show ?thesis using True
    by (auto simp: demangle_def copy_function_name_def bind_sum_Inr_iff simp del: demangle_parameters.simps intro!: then_do_returns loop
        dest!: function_name_pos dest: unmangle_name_end)
qed (simp add: demangle_def)

section \<open>Names of functions with parameters of the built-in types\<close>

definition prefix_code :: "char \<Rightarrow> bool" where "prefix_code c \<longleftrightarrow> c = CHR ''P'' \<or> c = CHR ''K''"

text \<open>The code of one parameter: pointer and const prefixes and the letter of a built-in type.\<close>

definition param_code :: "string \<Rightarrow> bool" where
  "param_code p \<longleftrightarrow> p \<noteq> [] \<and> list_all prefix_code (butlast p) \<and> \<not> prefix_code (last p) \<and> builtin_type (last p) \<noteq> None"

definition type_str :: "string \<Rightarrow> string" where
  "type_str p = concat (map (\<lambda>c. the (builtin_type c)) p)"

fun join :: "string list \<Rightarrow> string" where
  "join [] = []"
| "join [t] = t"
| "join (t # ts) = t @ '', '' @ join ts"

lemma builtin_not_end: "builtin_type c \<noteq> None \<Longrightarrow> \<not> is_end_of_parameters c"
  by (auto simp: builtin_type_def is_end_of_parameters_def NUL_def split: if_splits)

lemma prefix_builtin: "prefix_code c \<Longrightarrow> builtin_type c \<noteq> None"
  by (auto simp: prefix_code_def builtin_type_def)

lemma param_code_first: "param_code p \<Longrightarrow> p \<noteq> [] \<and> \<not> is_end_of_parameters (p ! 0)"
  unfolding param_code_def using builtin_not_end prefix_builtin
  by (cases p rule: rev_cases) (auto simp: nth_append list_all_length)

lemma char_at_drop: "drop i name = c # rest \<Longrightarrow> char_at name i = c \<and> i < length name \<and> drop (Suc i) name = rest"
  by (metis char_at_def drop_all list.distinct(1) list.inject Cons_nth_drop_Suc not_le)

lemma builtin_single:
  assumes "drop (pos d) name = c # rest" and "builtin_type c = Some t"
    and "length (out d) + length t \<le> 128" and "length (latest d) + length t \<le> 64"
  shows "demangle_single_parameter atoi name d = Inr (d\<lparr>out := out d @ t, latest := latest d @ t\<rparr>)"
  using assms char_at_drop [OF assms(1)]
  by (simp add: demangle_single_parameter_def append_to_buffer_def put_def)

lemma remember_type_ok:
  "seen d < 64 \<Longrightarrow> length (old d) = 1024 \<Longrightarrow> length (latest d) < 16 \<Longrightarrow>
   \<exists>d'. remember_type d = Inr d' \<and> pos d' = pos d \<and> out d' = out d \<and> latest d' = [] \<and> seen d' = seen d + 1 \<and> length (old d') = 1024"
  by (auto simp: remember_type_def Let_def)

lemma demangle_one:
  assumes "list_all prefix_code pre" and "\<not> prefix_code b" and "builtin_type b \<noteq> None"
    and "drop (pos d) name = pre @ b # rest"
    and "length (latest d @ type_str (pre @ [b])) < 16"
    and "length (out d @ type_str (pre @ [b])) + (if rest = [] then 0 else 2) \<le> 128"
    and "rest \<noteq> [] \<longrightarrow> \<not> is_end_of_parameters (rest ! 0)" and "seen d < 64" and "length (old d) = 1024"
  shows "\<exists>d'. pos d' = pos d + length pre + 1 \<and> out d' = out d @ type_str (pre @ [b]) @ (if rest = [] then [] else '', '') \<and>
     latest d' = [] \<and> seen d' = seen d + 1 \<and> length (old d') = 1024 \<and>
     demangle_parameters (Suc (length pre + k)) atoi name d = demangle_parameters k atoi name d'"
  using assms
proof (induction pre arbitrary: d)
  case Nil
  obtain t where t: "builtin_type b = Some t" using Nil by auto
  let ?d1 = "d\<lparr>out := out d @ t, latest := latest d @ t\<rparr>"
  have at: "char_at name (pos d) = b" "pos d < length name" "drop (Suc (pos d)) name = rest" using char_at_drop Nil by auto
  have single: "demangle_single_parameter atoi name d = Inr ?d1"
    using Nil t by (intro builtin_single [of _ _ _ rest]) (auto simp: type_str_def)
  have sep: "is_end_of_parameters (char_at name (Suc (pos d))) \<longleftrightarrow> rest = []"
    using at Nil(7) by (cases rest) (auto dest: char_at_drop simp: char_at_def is_end_of_parameters_def)
  have "\<not> is_end_of_parameters b" "b \<noteq> CHR ''P''" "b \<noteq> CHR ''K''"
    using builtin_not_end [of b] t Nil(2) by (auto simp: prefix_code_def)
  then have "demangle_parameters (Suc (length [] + k)) atoi name d =
      then_do (Some (remember_type (?d1\<lparr>pos := Suc (pos d)\<rparr>))) (\<lambda>d2. then_do (Some (add_separator name d2)) (demangle_parameters k atoi name))"
    using single at by simp
  moreover obtain d2 where d2: "remember_type (?d1\<lparr>pos := Suc (pos d)\<rparr>) = Inr d2" "pos d2 = Suc (pos d)" "out d2 = out d @ t"
      "latest d2 = []" "seen d2 = seen d + 1" "length (old d2) = 1024"
    using remember_type_ok [of "?d1\<lparr>pos := Suc (pos d)\<rparr>"] Nil(5,8,9) t by (auto simp: type_str_def)
  moreover have "add_separator name d2 = Inr (d2\<lparr>out := out d @ t @ (if rest = [] then [] else '', '')\<rparr>)"
    using d2(2,3) sep at Nil(6) t by (auto simp: add_separator_def put_def type_str_def)
  ultimately show ?case using t
    by (intro exI [of _ "d2\<lparr>out := out d @ t @ (if rest = [] then [] else '', '')\<rparr>"]) (simp add: type_str_def)
next
  case (Cons a pre)
  obtain t where t: "builtin_type a = Some t" using Cons(2) prefix_builtin [of a] by auto
  have a: "prefix_code a" "\<not> is_end_of_parameters a" using Cons(2) prefix_builtin [of a] builtin_not_end [of a] by auto
  let ?d1 = "d\<lparr>out := out d @ t, latest := latest d @ t\<rparr>" and ?d2 = "d\<lparr>out := out d @ t, latest := latest d @ t, pos := Suc (pos d)\<rparr>"
  have at: "char_at name (pos d) = a" "pos d < length name" "drop (Suc (pos d)) name = pre @ b # rest" using char_at_drop Cons(5) by auto
  have "demangle_single_parameter atoi name d = Inr ?d1"
    using Cons(5-7) t by (intro builtin_single [of _ _ _ "pre @ b # rest"]) (auto simp: type_str_def)
  then have "demangle_parameters (Suc (length (a # pre) + k)) atoi name d = demangle_parameters (Suc (length pre + k)) atoi name ?d2"
    using at a by (simp add: prefix_code_def)
  moreover have "\<exists>d'. pos d' = pos ?d2 + length pre + 1 \<and> out d' = out ?d2 @ type_str (pre @ [b]) @ (if rest = [] then [] else '', '') \<and>
     latest d' = [] \<and> seen d' = seen ?d2 + 1 \<and> length (old d') = 1024 \<and>
     demangle_parameters (Suc (length pre + k)) atoi name ?d2 = demangle_parameters k atoi name d'"
    using Cons(2-) t at by (intro Cons.IH) (simp_all add: type_str_def)
  ultimately show ?case using t by (simp add: type_str_def)
qed

lemma demangle_all:
  "list_all param_code ps \<Longrightarrow> list_all (\<lambda>p. length (type_str p) < 16) ps \<Longrightarrow> drop (pos d) name = concat ps \<Longrightarrow>
   pos d \<le> length name \<Longrightarrow> latest d = [] \<Longrightarrow> length (old d) = 1024 \<Longrightarrow> seen d + length ps \<le> 64 \<Longrightarrow>
   length (out d @ join (map type_str ps)) \<le> 128 \<Longrightarrow> length (concat ps) < k \<Longrightarrow>
   \<exists>d'. demangle_parameters k atoi name d = Some (Inr d') \<and> pos d' = length name \<and> out d' = out d @ join (map type_str ps)"
proof (induction ps arbitrary: d k)
  case Nil
  then have "is_end_of_parameters (char_at name (pos d))" "pos d = length name" "0 < k"
    by (auto simp: char_at_def is_end_of_parameters_def)
  then show ?case by (cases k) auto
next
  case (Cons p ps)
  obtain pre b where p: "p = pre @ [b]" "list_all prefix_code pre" "\<not> prefix_code b" "builtin_type b \<noteq> None"
    using Cons(2) by (cases p rule: rev_cases) (auto simp: param_code_def)
  let ?rest = "concat ps"
  have rest: "?rest = [] \<longleftrightarrow> ps = []" using Cons(2) by (cases ps) (auto simp: param_code_def)
  have nxt: "\<not> is_end_of_parameters (?rest ! 0)" if "ps \<noteq> []"
    using that Cons(2) by (cases ps) (auto simp: nth_append dest: param_code_first)
  define j where "j = k - Suc (length pre)"
  have k: "k = Suc (length pre + j)" "length ?rest < j" using Cons(10) p(1) by (auto simp: j_def)
  have fits: "length (out d @ type_str p) + (if ?rest = [] then 0 else 2) \<le> 128"
    using Cons(9) rest by (cases ps) auto
  have "\<exists>d'. pos d' = pos d + length pre + 1 \<and> out d' = out d @ type_str (pre @ [b]) @ (if ?rest = [] then [] else '', '') \<and>
     latest d' = [] \<and> seen d' = seen d + 1 \<and> length (old d') = 1024 \<and>
     demangle_parameters (Suc (length pre + j)) atoi name d = demangle_parameters j atoi name d'"
    using p Cons(3-8) nxt rest fits by (intro demangle_one) auto
  then obtain d1 where d1: "pos d1 = pos d + length p" "out d1 = out d @ type_str p @ (if ps = [] then [] else '', '')"
      "latest d1 = []" "seen d1 = seen d + 1" "length (old d1) = 1024" "demangle_parameters k atoi name d = demangle_parameters j atoi name d1"
    using p(1) rest k(1) by auto
  have rest1: "drop (pos d1) name = ?rest"
    using arg_cong [OF Cons(4), of "drop (length p)"] d1(1) by (simp add: add.commute)
  have "length p + length ?rest = length name - pos d" using arg_cong [OF Cons(4), of length] by simp
  then have "pos d1 \<le> length name" using d1(1) Cons(5) by linarith
  moreover have "out d1 @ join (map type_str ps) = out d @ join (map type_str (p # ps))" using d1(2) by (cases ps) auto
  ultimately show ?case
    using Cons.IH [OF _ _ rest1 _ d1(3) d1(5) _ _ k(2)] Cons(2,3,8,9) d1(4,6) by auto
qed


text \<open>The symbol of a function \<open>f\<close>, its length written in the digits \<open>dg\<close>.\<close>

definition mangled :: "string \<Rightarrow> string \<Rightarrow> string list \<Rightarrow> string" where
  "mangled dg f ps = ''_Z'' @ dg @ f @ concat ps"

lemma digits_at_mangled:
  assumes "list_all is_digit dg" and "f \<noteq> []" and "\<not> is_digit (f ! 0)"
  shows "digits_at (mangled dg f ps) 2 = dg"
proof -
  have "takeWhile is_digit (f @ concat ps) = []" using assms by (cases f) auto
  then show ?thesis using assms(1) by (simp add: digits_at_def mangled_def list_all_iff takeWhile_append2)
qed

lemma demangle_start:
  assumes "list_all is_digit dg" and "dg \<noteq> []" and "length dg < 16" and "atoi dg = length f"
    and "f \<noteq> []" and "\<not> is_digit (f ! 0)" and "length f < 128"
  shows "demangle atoi junk (mangled dg f ps) =
     then_do (demangle_parameters (Suc (length (mangled dg f ps))) atoi (mangled dg f ps)
         \<lparr>pos = 2 + length dg + length f, out = f @ ''('', latest = [], seen = 0, old = junk\<rparr>)
       (\<lambda>d. then_do (Some (put 128 (out d) '')'')) (\<lambda>b2. Some (append_remaining_name (mangled dg f ps) (pos d) b2)))"
proof -
  let ?name = "mangled dg f ps"
  have "is_digit (dg ! 0)" using assms(1,2) by (cases dg) auto
  then have "char_at ?name 2 \<noteq> CHR ''N''" using assms(2) by (auto simp: char_at_def mangled_def nth_append is_digit_def)
  moreover have "parse_function_length atoi ?name 2 = Inr (length f, 2 + length dg)"
    using digits_at_mangled [OF assms(1,5,6)] assms(3,4) by (simp add: parse_function_length_def put_def)
  moreover have "copy_function_name ?name (2 + length dg) (length f) = Inr (2 + length dg + length f, f @ ''('')"
    using assms(7) by (simp add: copy_function_name_def put_name_def put_def mangled_def)
  moreover have "is_mangled ?name" by (simp add: is_mangled_def char_at_def mangled_def)
  ultimately show ?thesis by (simp add: demangle_def del: demangle_parameters.simps)
qed

lemma demangle_mangled:
  assumes "list_all is_digit dg" and "dg \<noteq> []" and "length dg < 16" and "atoi dg = length f"
    and "f \<noteq> []" and "\<not> is_digit (f ! 0)" and "list_all param_code ps" and "list_all (\<lambda>p. length (type_str p) < 16) ps"
    and "length ps \<le> 64" and "length junk = 1024" and "length f + length (join (map type_str ps)) \<le> 126"
  shows "demangle atoi junk (mangled dg f ps) = Some (Inr (f @ ''('' @ join (map type_str ps) @ '')''))"
proof -
  let ?name = "mangled dg f ps"
  let ?d = "\<lparr>pos = 2 + length dg + length f, out = f @ ''('', latest = [], seen = 0, old = junk\<rparr>"
  have "\<exists>d'. demangle_parameters (Suc (length ?name)) atoi ?name ?d = Some (Inr d') \<and> pos d' = length ?name \<and>
      out d' = out ?d @ join (map type_str ps)"
    using assms by (intro demangle_all) (auto simp: mangled_def)
  then obtain d' where d': "demangle_parameters (Suc (length ?name)) atoi ?name ?d = Some (Inr d')" "pos d' = length ?name"
      "out d' = f @ ''('' @ join (map type_str ps)" by auto
  have "length f < 128" using assms(11) by linarith
  from demangle_start [where atoi = atoi and junk = junk and ps = ps, OF assms(1-6) this] d' assms(11)
  show ?thesis by (simp add: append_remaining_name_def put_def del: demangle_parameters.simps)
qed

lemma store_chars_other: "q \<notin> (\<lambda>i. p + of_nat i) ` {..<length bs} \<Longrightarrow> store_chars m p bs q = m q"
proof (induction bs arbitrary: m p)
  case (Cons c bs)
  have "q \<noteq> p" using Cons(2) by force
  moreover have "q \<notin> (\<lambda>i. (p + 1) + of_nat i) ` {..<length bs}"
    using Cons(2) by (force simp: image_iff add.assoc simp flip: of_nat_Suc)
  ultimately show ?case using Cons(1) by simp
qed simp

lemma store_chars_read: "length bs \<le> 128 \<Longrightarrow> i < length bs \<Longrightarrow> store_chars m p bs (p + of_nat i) = of_char (bs ! i)"
proof (induction bs arbitrary: m p i)
  case (Cons c bs)
  show ?case
  proof (cases i)
    case 0
    have "p \<notin> (\<lambda>i. (p + 1) + of_nat i) ` {..<length bs}"
    proof
      assume "p \<in> (\<lambda>i. (p + 1) + of_nat i) ` {..<length bs}"
      then obtain j where j: "j < length bs" "p + 1 + of_nat j = p" by auto
      then have "(of_nat (Suc j) :: u64) = 0" by (simp add: add.assoc)
      then have "2 ^ 64 dvd Suc j" by (simp add: word_of_nat_eq_0_iff del: of_nat_Suc)
      then have "2 ^ 64 \<le> Suc j" by (rule dvd_imp_le) simp
      then show False using j(1) Cons(2) by simp
    qed
    then show ?thesis using 0 store_chars_other by simp
  next
    case (Suc j)
    then show ?thesis using Cons(1) [of j _ "p + 1"] Cons(2,3) by (simp add: add.assoc)
  qed
qed simp

lemma builtin_not_digit: "builtin_type c = Some t \<Longrightarrow> \<not> is_digit c"
  by (auto simp: builtin_type_def is_digit_def split: if_splits)

lemma digit_code: "is_digit c \<Longrightarrow> builtin_type c = None \<and> c \<noteq> CHR ''S'' \<and> c \<noteq> CHR ''N'' \<and> \<not> is_end_of_parameters c"
proof -
  assume d: "is_digit c"
  then have "builtin_type c = None" using builtin_not_digit [of c] by (cases "builtin_type c") auto
  moreover have "\<not> is_digit k" if "k \<in> {CHR ''S'', CHR ''N'', CHR ''E'', NUL, CHR '' ''}" for k
    using that by (auto simp: is_digit_def NUL_def)
  ultimately show ?thesis using d by (auto simp: is_end_of_parameters_def)
qed

section \<open>Properties\<close>


section \<open>Classes\<close>

text \<open>A name: one part, or the parts of a qualified name; each is a length in digits and an identifier.\<close>

definition part_ok :: "(string \<Rightarrow> nat) \<Rightarrow> string \<times> string \<Rightarrow> bool" where
  "part_ok atoi p \<longleftrightarrow> (case p of (eg, c) \<Rightarrow> list_all is_digit eg \<and> eg \<noteq> [] \<and> length eg < 16 \<and> atoi eg = length c \<and>
     c \<noteq> [] \<and> \<not> is_digit (c ! 0) \<and> NUL \<notin> set c)"

definition part_code :: "string \<times> string \<Rightarrow> string" where
  "part_code p = fst p @ snd p"

definition name_code :: "(string \<times> string) list \<Rightarrow> string" where
  "name_code qs = (case qs of [q] \<Rightarrow> part_code q | _ \<Rightarrow> ''N'' @ concat (map part_code qs) @ ''E'')"

fun full_name :: "(string \<times> string) list \<Rightarrow> string" where
  "full_name [] = []"
| "full_name [q] = snd q"
| "full_name (q # qs) = snd q @ ''::'' @ full_name qs"

lemma part_first: "part_ok atoi q \<Longrightarrow> part_code q \<noteq> [] \<and> is_digit (part_code q ! 0)"
  by (auto simp: part_ok_def part_code_def nth_append list_all_length split: prod.splits)

lemma name_code_two: "name_code (q # r # qs) = ''N'' @ concat (map part_code (q # r # qs)) @ ''E''"
  by (simp add: name_code_def)

lemma part_parse:
  assumes "part_ok atoi q" and "drop i name = part_code q @ rest"
  shows "parse_function_length atoi name i = Inr (length (snd q), i + length (fst q))"
    and "put_name cap buffer name (i + length (fst q)) (length (snd q)) = put cap buffer (snd q)"
    and "drop (i + length (fst q) + length (snd q)) name = rest"
proof -
  obtain eg c where q: "q = (eg, c)" by (cases q)
  have c: "list_all is_digit eg" "length eg < 16" "atoi eg = length c" "c \<noteq> []" "\<not> is_digit (c ! 0)" "eg \<noteq> []"
    using assms(1) by (simp_all add: part_ok_def q)
  have "takeWhile is_digit (c @ rest) = []" using c(4,5) by (cases c) auto
  then have "digits_at name i = eg"
    using assms(2) c(1) by (simp add: digits_at_def part_code_def q list_all_iff takeWhile_append2)
  then show "parse_function_length atoi name i = Inr (length (snd q), i + length (fst q))"
    using c(2,3) by (simp add: parse_function_length_def put_def q)
  have d: "drop (i + length eg) name = c @ rest"
    using arg_cong [OF assms(2), of "drop (length eg)"] by (simp add: part_code_def q add.commute)
  then have "length c \<le> length name - (i + length eg)" by (metis length_append length_drop le_add1)
  moreover have "i + length eg < length name" using d c(4) by (metis append_is_Nil_conv drop_all not_le)
  ultimately have "i + length eg + length c \<le> length name" by linarith
  then show "put_name cap buffer name (i + length (fst q)) (length (snd q)) = put cap buffer (snd q)"
    using d by (simp add: put_name_def q)
  show "drop (i + length (fst q) + length (snd q)) name = rest"
    using arg_cong [OF d, of "drop (length c)"] by (simp add: q add.commute)
qed

lemma first_char:
  assumes "drop i name = part_code q @ rest" and "part_ok atoi q"
  shows "is_digit (char_at name i)" and "char_at name i \<noteq> CHR ''E''"
proof -
  obtain c cs where c: "part_code q = c # cs" "is_digit c" using part_first [OF assms(2)] by (cases "part_code q") auto
  then have "char_at name i = c" using char_at_drop [of i name c "cs @ rest"] assms(1) by simp
  then show "is_digit (char_at name i)" "char_at name i \<noteq> CHR ''E''" using c(2) by (auto simp: is_digit_def)
qed

lemma ns_loop_parts:
  "qs \<noteq> [] \<Longrightarrow> list_all (part_ok atoi) qs \<Longrightarrow> drop i name = concat (map part_code qs) @ ''E'' @ rest \<Longrightarrow>
   length b + length (full_name qs) \<le> 128 \<Longrightarrow>
   ns_loop atoi name i b = Inr (i + length (concat (map part_code qs)), b @ full_name qs)"
proof (induction qs arbitrary: i b)
  case (Cons q qs)
  have q: "part_ok atoi q" "drop i name = part_code q @ concat (map part_code qs) @ ''E'' @ rest" using Cons.prems by simp_all
  note p = part_parse [OF q] first_char [OF q(2,1)]
  let ?i = "i + length (fst q) + length (snd q)"
  show ?case
  proof (cases qs)
    case Nil
    then have "char_at name ?i = CHR ''E''" using p(3) char_at_drop [of ?i name "CHR ''E''" rest] by simp
    then show ?thesis using p Nil Cons.prems(4) by (subst ns_loop.simps) (simp add: put_def part_code_def)
  next
    case (Cons r rs)
    have d: "drop ?i name = concat (map part_code qs) @ ''E'' @ rest" using p(3) by simp
    then have "char_at name ?i \<noteq> CHR ''E''"
      using first_char(2) [of ?i name r "concat (map part_code rs) @ ''E'' @ rest" atoi] Cons Cons.prems(2) by simp
    then have "ns_loop atoi name i b = ns_loop atoi name ?i (b @ snd q @ ''::'')"
      using p Cons Cons.prems(4) by (subst ns_loop.simps) (simp add: put_def)
    then show ?thesis using Cons.IH [OF _ _ d, of "b @ snd q @ ''::''"] Cons Cons.prems(2,4) by (simp add: part_code_def)
  qed
qed simp

lemma unmangle_name_ok:
  assumes qs: "qs \<noteq> []" "list_all (part_ok atoi) qs" and d: "drop i name = name_code qs @ rest"
    and fits: "length (full_name qs) < 128"
  shows "unmangle_name atoi name i = Inr (i + length (name_code qs), full_name qs)"
proof -
  obtain q rs where q: "qs = q # rs" using qs(1) by (cases qs) auto
  have ok: "part_ok atoi q" using qs(2) q by simp
  show ?thesis
  proof (cases rs)
    case Nil
    then have d1: "drop i name = part_code q @ rest" using d q by (simp add: name_code_def)
    note p = part_parse [OF ok d1] first_char [OF d1 ok]
    have "char_at name i \<noteq> CHR ''N''" using digit_code [OF p(4)] by simp
    then show ?thesis using p fits q Nil by (simp add: unmangle_name_def put_def Let_def name_code_def part_code_def)
  next
    case (Cons r ts)
    have dN: "drop i name = CHR ''N'' # part_code q @ concat (map part_code rs) @ ''E'' @ rest"
      using d q Cons by (simp add: name_code_two)
    then have N: "char_at name i = CHR ''N''" and d1: "drop (Suc i) name = part_code q @ concat (map part_code rs) @ ''E'' @ rest"
      using char_at_drop [OF dN] by simp_all
    note p = part_parse [OF ok d1]
    have fits': "length (snd q) + 2 + length (full_name rs) < 128" using fits q Cons by simp
    have "ns_loop atoi name (Suc i + length (fst q) + length (snd q)) (snd q @ ''::'') =
        Inr (Suc i + length (fst q) + length (snd q) + length (concat (map part_code rs)), (snd q @ ''::'') @ full_name rs)"
      by (rule ns_loop_parts [OF _ _ p(3)]) (use qs(2) q Cons fits' in auto)
    then show ?thesis using p N fits' q Cons by (simp add: unmangle_name_def put_def Let_def name_code_two part_code_def)
  qed
qed

lemma full_name_no_NUL: "list_all (part_ok atoi) qs \<Longrightarrow> NUL \<notin> set (full_name qs)"
  by (induction qs rule: full_name.induct) (auto simp: part_ok_def NUL_def split: prod.splits)

lemma full_name_take: "list_all (part_ok atoi) qs \<Longrightarrow> takeWhile (\<lambda>k. k \<noteq> NUL) (full_name qs) = full_name qs"
  using full_name_no_NUL by (auto simp: takeWhile_eq_all_conv)

lemma name_code_first:
  assumes "qs \<noteq> []" and "list_all (part_ok atoi) qs"
  shows "name_code qs \<noteq> [] \<and> (is_digit (name_code qs ! 0) \<or> name_code qs ! 0 = CHR ''N'')"
  using assms part_first [of atoi "hd qs"] by (cases qs rule: full_name.cases) (auto simp: name_code_def)

text \<open>Pointer and const prefixes, and parameters of the built-in types, in front of something else.\<close>

lemma demangle_prefixes:
  "list_all prefix_code pre \<Longrightarrow> drop (pos d) name = pre @ rest \<Longrightarrow> length (latest d @ type_str pre) \<le> 64 \<Longrightarrow>
   length (out d @ type_str pre) \<le> 128 \<Longrightarrow>
   demangle_parameters (length pre + k) atoi name d =
     demangle_parameters k atoi name (d\<lparr>pos := pos d + length pre, out := out d @ type_str pre, latest := latest d @ type_str pre\<rparr>)"
proof (induction pre arbitrary: d)
  case (Cons a pre)
  obtain t where t: "builtin_type a = Some t" using Cons.prems(1) prefix_builtin [of a] by auto
  have a: "prefix_code a" "\<not> is_end_of_parameters a" using Cons.prems(1) prefix_builtin [of a] builtin_not_end [of a] by auto
  let ?d1 = "d\<lparr>out := out d @ t, latest := latest d @ t\<rparr>" and ?d2 = "d\<lparr>out := out d @ t, latest := latest d @ t, pos := Suc (pos d)\<rparr>"
  have at: "char_at name (pos d) = a" "drop (Suc (pos d)) name = pre @ rest" using char_at_drop Cons.prems(2) by auto
  have "demangle_single_parameter atoi name d = Inr ?d1"
    using Cons.prems t by (intro builtin_single [of _ _ _ "pre @ rest"]) (auto simp: type_str_def)
  then have "demangle_parameters (length (a # pre) + k) atoi name d = demangle_parameters (length pre + k) atoi name ?d2"
    using at a by (simp add: prefix_code_def)
  then show ?case using Cons.IH [of ?d2] Cons.prems t at by (simp add: type_str_def)
qed (simp add: type_str_def)

lemma demangle_before:
  "list_all param_code ps \<Longrightarrow> list_all (\<lambda>p. length (type_str p) < 16) ps \<Longrightarrow> drop (pos d) name = concat ps @ rest \<Longrightarrow>
   rest \<noteq> [] \<Longrightarrow> \<not> is_end_of_parameters (rest ! 0) \<Longrightarrow> latest d = [] \<Longrightarrow> length (old d) = 1024 \<Longrightarrow> seen d + length ps \<le> 64 \<Longrightarrow>
   length (out d) + length (concat (map (\<lambda>p. type_str p @ '', '') ps)) \<le> 128 \<Longrightarrow>
   \<exists>d'. demangle_parameters (length (concat ps) + k) atoi name d = demangle_parameters k atoi name d' \<and>
     pos d' = pos d + length (concat ps) \<and> out d' = out d @ concat (map (\<lambda>p. type_str p @ '', '') ps) \<and> latest d' = [] \<and>
     seen d' = seen d + length ps \<and> length (old d') = 1024"
proof (induction ps arbitrary: d)
  case (Cons p ps)
  obtain pre b where p: "p = pre @ [b]" "list_all prefix_code pre" "\<not> prefix_code b" "builtin_type b \<noteq> None"
    using Cons.prems(1) by (cases p rule: rev_cases) (auto simp: param_code_def)
  let ?rest = "concat ps @ rest"
  have nxt: "?rest \<noteq> []" "\<not> is_end_of_parameters (?rest ! 0)"
    using Cons.prems(1,4,5) by (cases ps; auto simp: nth_append dest: param_code_first)+
  define j where "j = length (concat ps) + k"
  obtain d1 where d1': "pos d1 = pos d + length pre + 1" "out d1 = out d @ type_str (pre @ [b]) @ (if ?rest = [] then [] else '', '')"
      "latest d1 = []" "seen d1 = seen d + 1" "length (old d1) = 1024"
      "demangle_parameters (Suc (length pre + j)) atoi name d = demangle_parameters j atoi name d1"
    using demangle_one [OF p(2-4), of d name ?rest j atoi] p(1) Cons.prems nxt by (auto simp del: demangle_parameters.simps)
  have k: "length (concat (p # ps)) + k = Suc (length pre + j)" using p(1) by (simp add: j_def)
  have d1: "pos d1 = pos d + length p" "out d1 = out d @ type_str p @ '', ''" "latest d1 = []" "seen d1 = seen d + 1"
      "length (old d1) = 1024" "demangle_parameters (length (concat (p # ps)) + k) atoi name d = demangle_parameters (length (concat ps) + k) atoi name d1"
    using d1' p(1) Cons.prems(4) unfolding k by (simp_all add: j_def)
  have rest1: "drop (pos d1) name = ?rest"
    using arg_cong [OF Cons.prems(3), of "drop (length p)"] d1(1) by (simp add: add.commute)
  show ?case using Cons.IH [OF _ _ rest1 Cons.prems(4,5) d1(3,5)] Cons.prems(1,2,8,9) d1 by (auto simp: add.assoc)
qed auto

lemma class_char:
  assumes "is_digit c \<or> c = CHR ''N''"
  shows "builtin_type c = None \<and> c \<noteq> CHR ''S'' \<and> \<not> is_end_of_parameters c"
  using assms
proof
  assume "is_digit c"
  then show ?thesis using digit_code by simp
next
  assume "c = CHR ''N''"
  then show ?thesis by (simp add: builtin_type_def is_end_of_parameters_def NUL_def)
qed

lemma class_last:
  assumes "qs \<noteq> []" "list_all (part_ok atoi) qs" and d: "drop (pos d) name = name_code qs"
    and fits: "length (out d) + length (full_name qs) \<le> 128" "length (latest d) + length (full_name qs) \<le> 64"
  shows "demangle_parameters (Suc k) atoi name d = Some (Inl OutOfBounds)"
proof -
  note first = name_code_first [OF assms(1,2)]
  obtain c cs where c: "name_code qs = c # cs" using first by (cases "name_code qs") auto
  then have at: "char_at name (pos d) = c" "is_digit c \<or> c = CHR ''N''" using char_at_drop [of "pos d" name c cs] d first by auto
  then have code: "builtin_type c = None" "c \<noteq> CHR ''S''" "\<not> is_end_of_parameters c" using class_char by simp_all
  have len: "pos d + length (name_code qs) = length name"
    using arg_cong [OF d, of length] first by (cases "pos d \<le> length name") auto
  have "drop (pos d) name = name_code qs @ []" using d by simp
  then have "unmangle_name atoi name (pos d) = Inr (length name, full_name qs)"
    using unmangle_name_ok [OF assms(1,2)] fits(2) len by simp
  then have single: "demangle_single_parameter atoi name d =
      Inr (d\<lparr>pos := length name, out := out d @ full_name qs, latest := latest d @ full_name qs\<rparr>)"
    using at code fits by (simp add: demangle_single_parameter_def handle_objstruct_def append_to_buffer_def put_def full_name_take [OF assms(2)])
  have "char_at name (length name) = NUL" by (simp add: char_at_def)
  then show ?thesis using single at code
    by (simp add: NUL_def remember_type_def add_separator_def Let_def)
qed

text \<open>The symbol of a function, qualified or not, with the codes of its parameters.\<close>

definition symbol_of :: "(string \<times> string) list \<Rightarrow> string list \<Rightarrow> string" where
  "symbol_of fs ps = ''_Z'' @ name_code fs @ concat ps"

lemma symbol_start:
  assumes "fs \<noteq> []" "list_all (part_ok atoi) fs" and fits: "length (full_name fs) < 128"
  shows "demangle atoi junk (symbol_of fs ps) =
     then_do (demangle_parameters (Suc (length (symbol_of fs ps))) atoi (symbol_of fs ps)
         \<lparr>pos = 2 + length (name_code fs), out = full_name fs @ ''('', latest = [], seen = 0, old = junk\<rparr>)
       (\<lambda>d. then_do (Some (put 128 (out d) '')'')) (\<lambda>b2. Some (append_remaining_name (symbol_of fs ps) (pos d) b2)))"
proof -
  let ?name = "symbol_of fs ps"
  have d: "drop 2 ?name = name_code fs @ concat ps" by (simp add: symbol_of_def)
  have m: "is_mangled ?name" by (simp add: is_mangled_def char_at_def symbol_of_def)
  obtain q rs where q: "fs = q # rs" using assms(1) by (cases fs) auto
  have ok: "part_ok atoi q" using assms(2) q by simp
  show ?thesis
  proof (cases rs)
    case Nil
    then have d1: "drop 2 ?name = part_code q @ concat ps" using d q by (simp add: name_code_def)
    note p = part_parse [OF ok d1] first_char [OF d1 ok]
    have "char_at ?name 2 \<noteq> CHR ''N''" using digit_code [OF p(4)] by simp
    then show ?thesis using p m fits q Nil
      by (simp add: demangle_def copy_function_name_def put_def name_code_def part_code_def del: demangle_parameters.simps)
  next
    case (Cons r ts)
    have "drop 2 ?name = CHR ''N'' # concat (map part_code fs) @ ''E'' @ concat ps" using d q Cons by (simp add: name_code_two)
    then have "char_at ?name 2 = CHR ''N''" by (rule char_at_drop [THEN conjunct1])
    then show ?thesis using unmangle_name_ok [OF assms(1,2) d fits] m fits
      by (simp add: demangle_def put_def full_name_take [OF assms(2)] del: demangle_parameters.simps)
  qed
qed

section \<open>A class as the last parameter\<close>


section \<open>Witnesses\<close>

text \<open>The value of a decimal number, for \<open>atoi\<close>.\<close>

definition decimal :: "string \<Rightarrow> nat" where
  "decimal dg = foldl (\<lambda>n c. 10 * n + (of_char c - 48)) 0 dg"

definition ex_junk :: "char list" where "ex_junk = replicate 1024 NUL"

lemma ex_params: "param_code ''PKc''" "param_code ''m''" "type_str ''PKc'' = ''*const char''" "type_str ''m'' = ''u64''"
  by (simp_all add: param_code_def prefix_code_def builtin_type_def type_str_def)



end
