(* ===== verification/Backtrace.thy ===== *)
theory Backtrace
  imports Demangle
begin

unbundle bit_operations_syntax

text \<open>
  The crash report: the representation of an address by its symbol, \<open>kernel/err/meta_resolver.cc\<close>, and the walk
  over the stack frames and the listing of the instructions around an address, \<open>kernel/err/dump.cc\<close>.

  What is printed is a list of items; the frames drawn around them and the colours are left out. A
  representation is a string in the heap and is printed from its address. The debug information, the
  instruction decoder and the formatting of a number are code of the kernel library and of a decoder library: they
  are the parameters of \<open>report_env\<close>. The length of an instruction, its class and its operands are
  what the code reads of the decoder's result.
\<close>

section \<open>Data\<close>

datatype operand = Immediate bool u64 | Memory bool u64 u64 | Other_operand

datatype mnemonic = CALL | LEA | JMP | MOV | Other_mnemonic

record instruction =
  ilength :: u64
  imnemonic :: mnemonic
  ioperands :: "operand list"
  itext :: string

record line_info =
  li_address :: u64
  li_file :: string
  li_line :: u32

record report_env =
  atoi' :: "string \<Rightarrow> nat"
  fresh_rows :: "char list"
  offset_str :: "string \<Rightarrow> u64 \<Rightarrow> string"
  addr2line_lookup :: "u64 \<Rightarrow> line_info option"
  disassemble :: "memory \<Rightarrow> u64 \<Rightarrow> u64 \<Rightarrow> u64 \<Rightarrow> instruction option"
  frame_address :: u64
  fresh_address :: u64

datatype repr = Failed_to_resolve | Repr u64

datatype item =
    Function_item repr
  | Location_item string u32
  | Frame_item nat repr string u32
  | Unknown_frame_item nat u64
  | Instruction_item bool string string
  | Target_item repr

section \<open>Support for compiled code\<close>

text \<open>The functions a compiler calls: the copy forward byte by byte, and two that do not return.\<close>

fun memcpy_chk :: "nat \<Rightarrow> u64 \<Rightarrow> u64 \<Rightarrow> memory \<Rightarrow> memory" where
  "memcpy_chk 0 dest src m = m"
| "memcpy_chk (Suc len) dest src m = memcpy_chk len (dest + 1) (src + 1) (m(dest := m src))"

definition stack_chk_fail :: "'a symbol_state_scheme \<Rightarrow> (fault + 'a symbol_state_scheme) option" where
  "stack_chk_fail s = None"

definition assert_fail :: "'a symbol_state_scheme \<Rightarrow> (fault + 'a symbol_state_scheme) option" where
  "assert_fail s = None"

section \<open>Representation of an address\<close>

text \<open>The C string at \<open>p\<close>, for a buffer of 128 bytes.\<close>

definition c_string :: "memory \<Rightarrow> u64 \<Rightarrow> string" where
  "c_string m p = map (\<lambda>b. char_of (unat b)) (takeWhile (\<lambda>b. b \<noteq> 0) (map (\<lambda>i. m (p + of_nat i)) [0..<128]))"

definition search_repr ::
    "report_env \<Rightarrow> u64 \<Rightarrow> u64 \<times> bool \<Rightarrow> 'a symbol_state_scheme \<Rightarrow> (fault + (repr \<times> 'a symbol_state_scheme)) option" where
  "search_repr E addr result s =
     (let (entry, exact) = result in
      if entry = 0 then Some (Inr (Failed_to_resolve, s))
      else (let nm = c_string (mem s) (e_name (mem s) entry);
                buffer = (if \<not> exact then offset_str E nm (addr - e_address (mem s) entry) else nm)
            in if length nm \<ge> 128 \<or> length buffer \<ge> 128 then Some (Inl OutOfBounds)
               else then_do (demangle_alloc_symbol (atoi' E) (fresh_rows E) buffer s) (\<lambda>(p, s1). Some (Inr (Repr p, s1)))))"

definition addrsym_repr ::
    "report_env \<Rightarrow> u64 \<Rightarrow> 'a symbol_state_scheme \<Rightarrow> (fault + (repr \<times> 'a symbol_state_scheme)) option" where
  "addrsym_repr E addr s = search_repr E addr (resolve_address addr s) s"

section \<open>Numbers\<close>

text \<open>The digits of \<open>dump_address\<close>, written from the last to the first; \<open>k\<close> are still to write.\<close>

fun hex_loop :: "nat \<Rightarrow> u64 \<Rightarrow> string \<Rightarrow> string" where
  "hex_loop 0 v buf = buf"
| "hex_loop (Suc k) v buf =
     (let nibble = unat (v AND 0xF)
      in hex_loop k (drop_bit 4 v) (char_of (if nibble < 10 then 48 + nibble else 65 + nibble - 10) # buf))"

definition dump_address :: "u64 \<Rightarrow> string" where
  "dump_address v = ''0x'' @ hex_loop 16 v []"

section \<open>Stack frames\<close>

definition KERNEL_BASE :: u64 where "KERNEL_BASE = 0xffffffff80000000"

definition frame_line ::
    "report_env \<Rightarrow> nat \<Rightarrow> u64 \<Rightarrow> 'a symbol_state_scheme \<Rightarrow> (fault + (item list \<times> 'a symbol_state_scheme)) option" where
  "frame_line E i rip s =
     (if rip > KERNEL_BASE
      then (case addr2line_lookup E (rip - 1) of
              Some a \<Rightarrow> then_do (search_repr E (li_address a) (resolve_address (li_address a) s) s) (\<lambda>(fn_repr, s1).
                Some (Inr ([Frame_item i fn_repr (li_file a) (li_line a)], s1)))
            | None \<Rightarrow> Some (Inr ([Unknown_frame_item i rip], s)))
      else Some (Inr ([], s)))"

fun backtrace_loop ::
    "nat \<Rightarrow> report_env \<Rightarrow> nat \<Rightarrow> u64 \<Rightarrow> 'a symbol_state_scheme \<Rightarrow> (fault + (item list \<times> 'a symbol_state_scheme)) option" where
  "backtrace_loop 0 E i rbp s = Some (Inr ([], s))"
| "backtrace_loop (Suc k) E i rbp s =
     (if rbp = 0 \<or> load64 (mem s) (rbp + 8) = 0 then Some (Inr ([], s))
      else then_do (frame_line E i (load64 (mem s) (rbp + 8)) s) (\<lambda>(out1, s1).
           then_do (backtrace_loop k E (i + 1) (load64 (mem s1) rbp) s1) (\<lambda>(out2, s2). Some (Inr (out1 @ out2, s2)))))"

definition backtrace :: "report_env \<Rightarrow> u64 \<Rightarrow> 'a symbol_state_scheme \<Rightarrow> (fault + (item list \<times> 'a symbol_state_scheme)) option" where
  "backtrace E rbp s = backtrace_loop 16 E 0 rbp s"

section \<open>Instructions\<close>

text \<open>
  The first scan, from the start of the symbol: the addresses of the instructions, in a ring of 32, and
  their number, up to the first at or after the address shown. \<open>None\<close> when it does not end.
\<close>

partial_function (option) scan ::
    "(u64 \<Rightarrow> u64 \<Rightarrow> instruction option) \<Rightarrow> u64 \<Rightarrow> u64 \<Rightarrow> u64 \<Rightarrow> (nat \<Rightarrow> u64) \<Rightarrow> nat \<Rightarrow> ((nat \<Rightarrow> u64) \<times> nat) option" where
  "scan dis disas_address off a seen_at n =
     (case dis a off of
        None \<Rightarrow> Some (seen_at, n)
      | Some ins \<Rightarrow>
          if a \<ge> disas_address then Some (seen_at(n mod 32 := a), n + 1)
          else scan dis disas_address (off + ilength ins) (a + ilength ins) (seen_at(n mod 32 := a)) (n + 1))"

text \<open>The second scan: forward to the start address.\<close>

partial_function (option) seek ::
    "(u64 \<Rightarrow> u64 \<Rightarrow> instruction option) \<Rightarrow> u64 \<Rightarrow> u64 \<Rightarrow> u64 \<Rightarrow> (u64 \<times> u64) option" where
  "seek dis start_address off a =
     (if a < start_address
      then (case dis a off of None \<Rightarrow> Some (off, a) | Some ins \<Rightarrow> seek dis start_address (off + ilength ins) (a + ilength ins))
      else Some (off, a))"

text \<open>The address an operand names, and the symbol printed for the first one in the kernel.\<close>

definition operand_target :: "u64 \<Rightarrow> operand \<Rightarrow> u64 option" where
  "operand_target next_address op' =
     (case op' of
        Immediate relative v \<Rightarrow> Some (if relative then next_address + v else v)
      | Memory rip_base disp_size disp \<Rightarrow> if rip_base \<and> disp_size > 0 then Some (next_address + disp) else None
      | Other_operand \<Rightarrow> None)"

definition target_items :: "memory \<Rightarrow> repr \<Rightarrow> item list" where
  "target_items m r =
     (case r of Failed_to_resolve \<Rightarrow> [Target_item r]
      | Repr p \<Rightarrow> if m p \<noteq> 0 \<and> (m p \<noteq> 48 \<or> m (p + 1) \<noteq> 120) then [Target_item r] else [])"

fun target_loop ::
    "report_env \<Rightarrow> u64 \<Rightarrow> operand list \<Rightarrow> 'a symbol_state_scheme \<Rightarrow> (fault + (item list \<times> 'a symbol_state_scheme)) option" where
  "target_loop E next_address [] s = Some (Inr ([], s))"
| "target_loop E next_address (op' # rest) s =
     (case operand_target next_address op' of
        None \<Rightarrow> target_loop E next_address rest s
      | Some t \<Rightarrow>
          if t < KERNEL_BASE then target_loop E next_address rest s
          else (let (entry, exact) = resolve_address t s in
                if entry \<noteq> 0 \<and> exact
                then then_do (search_repr E t (entry, exact) s) (\<lambda>(r, s1). Some (Inr (target_items (mem s1) r, s1)))
                else Some (Inr ([], s))))"

definition instruction_line ::
    "report_env \<Rightarrow> u64 \<Rightarrow> u64 \<Rightarrow> instruction \<Rightarrow> 'a symbol_state_scheme \<Rightarrow> (fault + (item list \<times> 'a symbol_state_scheme)) option" where
  "instruction_line E disas_address a ins s =
     (let marked = (disas_address \<ge> a \<and> disas_address < a + ilength ins);
          line = Instruction_item marked (dump_address a) (itext ins)
      in if imnemonic ins = Other_mnemonic then Some (Inr ([line], s))
         else then_do (target_loop E (a + ilength ins) (ioperands ins) s) (\<lambda>(ts, s1). Some (Inr (line # ts, s1))))"

text \<open>The listing, for at most \<open>k\<close> instructions.\<close>

fun list_instructions ::
    "nat \<Rightarrow> report_env \<Rightarrow> (memory \<Rightarrow> u64 \<Rightarrow> u64 \<Rightarrow> instruction option) \<Rightarrow> u64 \<Rightarrow> u64 \<Rightarrow> u64 \<Rightarrow> 'a symbol_state_scheme \<Rightarrow>
     (fault + (item list \<times> 'a symbol_state_scheme)) option" where
  "list_instructions 0 E dis disas_address off a s = Some (Inr ([], s))"
| "list_instructions (Suc k) E dis disas_address off a s =
     (case dis (mem s) a off of
        None \<Rightarrow> Some (Inr ([], s))
      | Some ins \<Rightarrow>
          then_do (instruction_line E disas_address a ins s) (\<lambda>(out1, s1).
          then_do (list_instructions k E dis disas_address (off + ilength ins) (a + ilength ins) s1) (\<lambda>(out2, s2).
          Some (Inr (out1 @ out2, s2)))))"

definition SYMBOL_START_THRESHOLD :: u64 where "SYMBOL_START_THRESHOLD = 96"

text \<open>Where the listing starts: the offset in the symbol and the address.\<close>

definition listing_start ::
    "report_env \<Rightarrow> (u64 \<Rightarrow> u64 \<Rightarrow> instruction option) \<Rightarrow> u64 \<Rightarrow> u64 \<Rightarrow> (u64 \<times> u64) option" where
  "listing_start E dis start disas_address =
     (if disas_address - start \<le> SYMBOL_START_THRESHOLD then Some (0, start)
      else (case scan dis disas_address 0 start (\<lambda>_. fresh_address E) 0 of
              None \<Rightarrow> None
            | Some (seen_at, n) \<Rightarrow> seek dis (seen_at ((if n \<ge> 4 then n - 4 else 0) mod 32)) 0 start))"

definition dump_at_addr ::
    "report_env \<Rightarrow> u64 \<Rightarrow> u64 \<Rightarrow> u64 \<Rightarrow> 'a symbol_state_scheme \<Rightarrow> (fault + (int \<times> item list \<times> 'a symbol_state_scheme)) option" where
  "dump_at_addr E addr rbp disas_address s =
     (let rbp' = (if rbp = 0 then frame_address E else rbp);
          da = (if disas_address = 0 then addr else disas_address);
          (entry, exact) = resolve_address addr s
      in if entry = 0 then Some (Inr (- 1, [], s))
         else then_do (search_repr E addr (entry, exact) s) (\<lambda>(fn_repr, s1).
           let where' = (case addr2line_lookup E addr of Some a \<Rightarrow> [Location_item (li_file a) (li_line a)] | None \<Rightarrow> []) in
           then_do (backtrace E rbp' s1) (\<lambda>(frames', s2).
           let start = e_address (mem s2) entry; sz = e_size (mem s2) entry;
               dis = (\<lambda>m a off. disassemble E m a (start + off) (sz - off))
           in case listing_start E (dis (mem s2)) start da of
                None \<Rightarrow> None
              | Some (off, a) \<Rightarrow>
                  then_do (list_instructions 7 E dis da off a s2) (\<lambda>(listing, s3).
                    Some (Inr (0, Function_item fn_repr # where' @ frames' @ listing, s3))))))"

section \<open>The instructions of a function\<close>

text \<open>The decoder \<open>dis\<close> reads the instructions \<open>xs\<close> one after another from address \<open>a\<close> at offset \<open>off\<close>, and none wraps around.\<close>

fun code_chain :: "(u64 \<Rightarrow> u64 \<Rightarrow> instruction option) \<Rightarrow> u64 \<Rightarrow> u64 \<Rightarrow> instruction list \<Rightarrow> bool" where
  "code_chain dis off a [] \<longleftrightarrow> True"
| "code_chain dis off a (x # xs) \<longleftrightarrow>
     dis a off = Some x \<and> a < a + ilength x \<and> code_chain dis (off + ilength x) (a + ilength x) xs"

fun starts :: "u64 \<Rightarrow> instruction list \<Rightarrow> u64 list" where
  "starts a [] = []"
| "starts a (x # xs) = a # starts (a + ilength x) xs"

definition code_end :: "u64 \<Rightarrow> instruction list \<Rightarrow> u64" where
  "code_end a xs = foldl (\<lambda>a x. a + ilength x) a xs"

lemma code_end_simps [simp]:
  "code_end a [] = a" "code_end a (x # xs) = code_end (a + ilength x) xs" "code_end a (xs @ ys) = code_end (code_end a xs) ys"
  by (simp_all add: code_end_def)

lemma length_starts [simp]: "length (starts a xs) = length xs"
  by (induction a xs rule: starts.induct) auto

lemma starts_append [simp]: "starts a (xs @ ys) = starts a xs @ starts (code_end a xs) ys"
  by (induction a xs rule: starts.induct) auto

lemma code_chain_append [simp]:
  "code_chain dis off a (xs @ ys) \<longleftrightarrow> code_chain dis off a xs \<and> code_chain dis (code_end off xs) (code_end a xs) ys"
  by (induction dis off a xs rule: code_chain.induct) auto

lemma code_chain_le: "code_chain dis off a xs \<Longrightarrow> a \<le> code_end a xs"
  by (induction dis off a xs rule: code_chain.induct) (auto intro: order_trans less_imp_le)

lemma code_chain_starts: "code_chain dis off a xs \<Longrightarrow> b \<in> set (starts a xs) \<Longrightarrow> b < code_end a xs"
proof (induction dis off a xs rule: code_chain.induct)
  case (2 dis off a x xs)
  then have "a < code_end (a + ilength x) xs" using code_chain_le [of dis "off + ilength x" "a + ilength x" xs] by auto
  then show ?case using 2 by auto
qed simp

lemma ring_index_distinct: "j < 31 \<Longrightarrow> (n + 1 + j) mod 32 \<noteq> n mod (32 :: nat)"
proof
  assume "j < 31" and "(n + 1 + j) mod 32 = n mod 32"
  then have "32 dvd (n + 1 + j) - n" by (subst mod_eq_dvd_iff_nat [symmetric]) simp_all
  then have "32 \<le> 1 + j" by (intro dvd_imp_le) simp_all
  then show False using \<open>j < 31\<close> by simp
qed

lemma scan_chain:
  "code_chain dis off a (xs @ [y]) \<Longrightarrow> (\<forall>b \<in> set (starts a xs). b < da) \<Longrightarrow> da \<le> code_end a xs \<Longrightarrow>
   \<exists>f'. scan dis da off a f n = Some (f', n + length xs + 1) \<and>
     (\<forall>j \<le> length xs. length xs < j + 32 \<longrightarrow> f' ((n + j) mod 32) = starts a (xs @ [y]) ! j) \<and>
     (\<forall>k. (\<forall>j \<le> length xs. (n + j) mod 32 \<noteq> k) \<longrightarrow> f' k = f k)"
proof (induction xs arbitrary: off a f n)
  case Nil
  then show ?case by (subst scan.simps) auto
next
  case (Cons x xs)
  let ?f = "f(n mod 32 := a)"
  have "\<exists>f'. scan dis da (off + ilength x) (a + ilength x) ?f (n + 1) = Some (f', (n + 1) + length xs + 1) \<and>
     (\<forall>j \<le> length xs. length xs < j + 32 \<longrightarrow> f' ((n + 1 + j) mod 32) = starts (a + ilength x) (xs @ [y]) ! j) \<and>
     (\<forall>k. (\<forall>j \<le> length xs. (n + 1 + j) mod 32 \<noteq> k) \<longrightarrow> f' k = ?f k)"
    using Cons.prems by (intro Cons.IH) auto
  then obtain f' where f': "scan dis da (off + ilength x) (a + ilength x) ?f (n + 1) = Some (f', (n + 1) + length xs + 1)"
      "\<And>j. j \<le> length xs \<Longrightarrow> length xs < j + 32 \<Longrightarrow> f' ((n + 1 + j) mod 32) = starts (a + ilength x) (xs @ [y]) ! j"
      "\<And>k. (\<And>j. j \<le> length xs \<Longrightarrow> (n + 1 + j) mod 32 \<noteq> k) \<Longrightarrow> f' k = ?f k" by blast
  have step: "scan dis da off a f n = Some (f', n + length (x # xs) + 1)"
    using Cons.prems f'(1) by (subst scan.simps) (simp add: not_le)
  have first: "f' (n mod 32) = a" if "length xs < 31"
  proof -
    have "(n + 1 + j) mod 32 \<noteq> n mod 32" if "j \<le> length xs" for j
      using that \<open>length xs < 31\<close> by (intro ring_index_distinct) simp
    then show ?thesis using f'(3) by simp
  qed
  have "f' ((n + j) mod 32) = starts a ((x # xs) @ [y]) ! j" if "j \<le> length (x # xs)" "length (x # xs) < j + 32" for j
    using that f'(2) [of "j - 1"] first by (cases j) auto
  moreover have "f' k = f k" if "\<forall>j \<le> length (x # xs). (n + j) mod 32 \<noteq> k" for k
  proof -
    have "(n + 1 + j) mod 32 \<noteq> k" if "j \<le> length xs" for j
      using \<open>\<forall>j \<le> length (x # xs). (n + j) mod 32 \<noteq> k\<close> that by (metis Suc_le_mono add.assoc length_Cons plus_1_eq_Suc)
    moreover have "n mod 32 \<noteq> k" using that by (metis add.right_neutral le0)
    ultimately show ?thesis using f'(3) by auto
  qed
  ultimately show ?case using step by blast
qed

lemma seek_chain:
  "code_chain dis off a xs \<Longrightarrow> seek dis (code_end a xs) off a = Some (code_end off xs, code_end a xs)"
proof (induction dis off a xs rule: code_chain.induct)
  case (2 dis off a x xs)
  then have "a < code_end (a + ilength x) xs" using code_chain_le [of dis "off + ilength x" "a + ilength x" xs] by auto
  then show ?case using 2 by (subst seek.simps) simp
qed (subst seek.simps, simp)

lemma listing_start_window:
  assumes "code_chain dis 0 start (pre @ [x1, x2, x3, y])" and "da = code_end start (pre @ [x1, x2, x3])"
    and "SYMBOL_START_THRESHOLD < da - start"
  shows "listing_start E dis start da = Some (code_end 0 pre, code_end start pre)"
proof -
  let ?xs = "pre @ [x1, x2, x3]"
  have c: "code_chain dis 0 start (?xs @ [y])" using assms(1) by simp
  have "code_chain dis 0 start ?xs" using c by simp
  then have "\<forall>b \<in> set (starts start ?xs). b < da" using code_chain_starts assms(2) by metis
  from scan_chain [OF c this, of "\<lambda>_. fresh_address E" 0] assms(2) obtain f' where
    f': "scan dis da 0 start (\<lambda>_. fresh_address E) 0 = Some (f', length ?xs + 1)"
      "\<And>j. j \<le> length ?xs \<Longrightarrow> length ?xs < j + 32 \<Longrightarrow> f' (j mod 32) = starts start (?xs @ [y]) ! j" by auto
  have "f' (length pre mod 32) = code_end start pre" using f'(2) [of "length pre"] by (simp add: nth_append)
  moreover have "code_chain dis 0 start pre" using c by simp
  ultimately show ?thesis using f'(1) assms(3) seek_chain by (simp add: listing_start_def not_le [symmetric])
qed

section \<open>The marks of a listing\<close>

text \<open>For each instruction listed, whether it is marked as the one at the address shown.\<close>

definition marks :: "item list \<Rightarrow> bool list" where
  "marks out' = concat (map (\<lambda>i. case i of Instruction_item b _ _ \<Rightarrow> [b] | _ \<Rightarrow> []) out')"

fun covers_at :: "u64 \<Rightarrow> u64 \<Rightarrow> instruction list \<Rightarrow> bool list" where
  "covers_at da a [] = []"
| "covers_at da a (x # xs) = (a \<le> da \<and> da < a + ilength x) # covers_at da (a + ilength x) xs"

lemma marks_simps [simp]: "marks [] = []" "marks (xs @ ys) = marks xs @ marks ys"
    "marks (Instruction_item b t u # xs) = b # marks xs" "marks (Target_item r # xs) = marks xs"
  by (simp_all add: marks_def)

lemma target_items_marks [simp]: "marks (target_items m r) = []"
  by (simp add: target_items_def split: repr.split)

lemma target_loop_marks: "target_loop E a ops s = Some (Inr (ts, s')) \<Longrightarrow> marks ts = []"
  by (induction E a ops s rule: target_loop.induct)
    (auto simp: then_do_Inr_iff Let_def split: option.splits if_splits prod.splits repr.splits)

lemma instruction_line_marks:
  "instruction_line E da a x s = Some (Inr (out1, s1)) \<Longrightarrow> marks out1 = [a \<le> da \<and> da < a + ilength x]"
  by (auto simp: instruction_line_def Let_def then_do_Inr_iff dest!: target_loop_marks split: if_splits)

lemma list_instructions_bound:
  "list_instructions k E dis da off a s = Some (Inr (out', s')) \<Longrightarrow> length (marks out') \<le> k"
proof (induction k arbitrary: off a s out' s')
  case (Suc k)
  show ?case
  proof (cases "dis (mem s) a off")
    case None
    then show ?thesis using Suc.prems by simp
  next
    case (Some x)
    with Suc.prems obtain out1 s1 out2 where
      "instruction_line E da a x s = Some (Inr (out1, s1))"
      "list_instructions k E dis da (off + ilength x) (a + ilength x) s1 = Some (Inr (out2, s'))" "out' = out1 @ out2"
      by (auto simp: then_do_Inr_iff)
    then show ?thesis using Suc.IH instruction_line_marks by fastforce
  qed
qed simp

lemma covers_at_append: "covers_at da a (xs @ ys) = covers_at da a xs @ covers_at da (code_end a xs) ys"
  by (induction da a xs rule: covers_at.induct) auto

lemma covers_at_before: "code_chain dis off a xs \<Longrightarrow> code_end a xs \<le> da \<Longrightarrow> covers_at da a xs = replicate (length xs) False"
proof (induction dis off a xs rule: code_chain.induct)
  case (2 dis off a x xs)
  then have "a + ilength x \<le> da" using code_chain_le [of dis "off + ilength x" "a + ilength x" xs] by auto
  then show ?case using 2 by auto
qed simp

lemma list_instructions_marks:
  "code_chain dis off a xs \<Longrightarrow> length xs \<le> k \<Longrightarrow>
   list_instructions k E (\<lambda>_. dis) da off a s = Some (Inr (out', s')) \<Longrightarrow>
   \<exists>rest. marks out' = covers_at da a xs @ rest \<and> length rest \<le> k - length xs"
proof (induction k arbitrary: off a xs s out' s')
  case 0
  then show ?case by simp
next
  case (Suc k)
  show ?case
  proof (cases xs)
    case Nil
    then show ?thesis using list_instructions_bound [OF Suc.prems(3)] by simp
  next
    case (Cons x ys)
    from Suc.prems Cons obtain out1 s1 out2 where
      o1: "instruction_line E da a x s = Some (Inr (out1, s1))" and
      o2: "list_instructions k E (\<lambda>_. dis) da (off + ilength x) (a + ilength x) s1 = Some (Inr (out2, s'))" and
      out: "out' = out1 @ out2" by (auto simp: then_do_Inr_iff)
    have "code_chain dis (off + ilength x) (a + ilength x) ys" "length ys \<le> k" using Suc.prems Cons by auto
    from Suc.IH [OF this o2] obtain rest where "marks out2 = covers_at da (a + ilength x) ys @ rest" "length rest \<le> k - length ys" by auto
    then show ?thesis using instruction_line_marks [OF o1] out Cons by auto
  qed
qed

section \<open>Properties\<close>

text \<open>
  (C37) The listing of a crash more than 96 bytes into a function: when the decoder reads the function's
  instructions from its start up to the one at the address, and the listing is printed, the instruction at the
  address is the fourth one listed and the first three are those before it, and it is the one marked.
\<close>

theorem listing_marks_fault:
  assumes "code_chain dis 0 start (pre @ [x1, x2, x3, y])" and "da = code_end start (pre @ [x1, x2, x3])"
    and "SYMBOL_START_THRESHOLD < da - start"
  shows "listing_start E dis start da = Some (code_end 0 pre, code_end start pre) \<and>
    (\<forall>out' s'. list_instructions 7 E (\<lambda>_. dis) da (code_end 0 pre) (code_end start pre) s = Some (Inr (out', s')) \<longrightarrow>
       take 4 (marks out') = [False, False, False, True] \<and> length (marks out') \<le> 7)"
proof (intro conjI allI impI)
  show "listing_start E dis start da = Some (code_end 0 pre, code_end start pre)" by (rule listing_start_window [OF assms])
  fix out' s'
  assume l: "list_instructions 7 E (\<lambda>_. dis) da (code_end 0 pre) (code_end start pre) s = Some (Inr (out', s'))"
  then show "length (marks out') \<le> 7" by (rule list_instructions_bound)
  let ?a = "code_end start pre"
  have c: "code_chain dis (code_end 0 pre) ?a ([x1, x2, x3] @ [y])" using assms(1) by simp
  then have c3: "code_chain dis (code_end 0 pre) ?a [x1, x2, x3]" by simp
  have "covers_at da ?a [x1, x2, x3] = replicate (length [x1, x2, x3]) False"
    by (rule covers_at_before [OF c3]) (simp add: assms(2))
  moreover have e: "da = code_end ?a [x1, x2, x3]" "da < da + ilength y" using assms(2) c by auto
  moreover have "covers_at da (code_end ?a [x1, x2, x3]) [y] = [True]" using e by simp
  ultimately have "covers_at da ?a ([x1, x2, x3] @ [y]) = [False, False, False, True]" unfolding covers_at_append by simp
  with list_instructions_marks [OF c _ l] show "take 4 (marks out') = [False, False, False, True]" by auto
qed

text \<open>
  The listing of a crash in the first 96 bytes of a function starts at the function, and shows seven
  instructions: when seven instructions come before the address, it ends before the one that crashed and marks none.
\<close>

theorem listing_misses_fault:
  assumes "code_chain dis 0 start xs" and "length xs = 7" and "code_end start xs \<le> da"
    and "da - start \<le> SYMBOL_START_THRESHOLD"
  shows "listing_start E dis start da = Some (0, start) \<and>
    (\<forall>out' s'. list_instructions 7 E (\<lambda>_. dis) da 0 start s = Some (Inr (out', s')) \<longrightarrow> marks out' = replicate 7 False)"
  using list_instructions_marks [OF assms(1), of 7 E da s] covers_at_before [OF assms(1,3)] assms(2,4)
  by (fastforce simp: listing_start_def)

section \<open>Witnesses\<close>

text \<open>A function of instructions of 16 bytes, and one of instructions of 8 bytes.\<close>

definition ex_ins :: "u64 \<Rightarrow> instruction" where
  "ex_ins n = \<lparr>ilength = n, imnemonic = Other_mnemonic, ioperands = [], itext = ''nop''\<rparr>"

definition ex_env :: report_env where
  "ex_env = \<lparr>atoi' = decimal, fresh_rows = ex_junk, offset_str = (\<lambda>t v. t), addr2line_lookup = (\<lambda>_. None),
     disassemble = (\<lambda>_ _ _ _. None), frame_address = 0, fresh_address = 0\<rparr>"

lemma ex_ins_sel [simp]: "ilength (ex_ins n) = n" "imnemonic (ex_ins n) = Other_mnemonic" by (simp_all add: ex_ins_def)

lemma ex_listing:
  "\<exists>out'. list_instructions k E (\<lambda>_ _ _. Some (ex_ins n)) da off a s = Some (Inr (out', s))"
proof (induction k arbitrary: off a)
  case (Suc k)
  obtain o2 where "list_instructions k E (\<lambda>_ _ _. Some (ex_ins n)) da (off + n) (a + n) s = Some (Inr (o2, s))" using Suc by blast
  then show ?case by (simp add: instruction_line_def)
qed simp

theorem listing_marks_fault_witness:
  "listing_start ex_env (\<lambda>_ _. Some (ex_ins 16)) 0xffffffff80001000 0xffffffff80001070 = Some (0x40, 0xffffffff80001040) \<and>
   (\<exists>out'. list_instructions 7 ex_env (\<lambda>_ _ _. Some (ex_ins 16)) 0xffffffff80001070 0x40 0xffffffff80001040 ex_symbols =
       Some (Inr (out', ex_symbols)) \<and> take 4 (marks out') = [False, False, False, True])"
proof -
  let ?x = "ex_ins 16" and ?d = "\<lambda>(a :: u64) (off :: u64). Some (ex_ins 16)"
  have c: "code_chain ?d 0 0xffffffff80001000 ([?x, ?x, ?x, ?x] @ [?x, ?x, ?x, ?x])" by simp
  have e: "0xffffffff80001070 = code_end 0xffffffff80001000 ([?x, ?x, ?x, ?x] @ [?x, ?x, ?x])" by simp
  have t: "SYMBOL_START_THRESHOLD < 0xffffffff80001070 - 0xffffffff80001000" by (simp add: SYMBOL_START_THRESHOLD_def)
  obtain out' where "list_instructions 7 ex_env (\<lambda>_. ?d) 0xffffffff80001070 0x40 0xffffffff80001040 ex_symbols = Some (Inr (out', ex_symbols))"
    using ex_listing by blast
  with listing_marks_fault [OF c e t, of ex_env ex_symbols] show ?thesis by auto
qed

theorem listing_misses_fault_witness:
  "listing_start ex_env (\<lambda>_ _. Some (ex_ins 8)) 0xffffffff80001000 0xffffffff80001050 = Some (0, 0xffffffff80001000) \<and>
   (\<exists>out'. list_instructions 7 ex_env (\<lambda>_ _ _. Some (ex_ins 8)) 0xffffffff80001050 0 0xffffffff80001000 ex_symbols =
       Some (Inr (out', ex_symbols)) \<and> marks out' = replicate 7 False)"
proof -
  let ?x = "ex_ins 8" and ?d = "\<lambda>(a :: u64) (off :: u64). Some (ex_ins 8)"
  let ?xs = "[?x, ?x, ?x, ?x, ?x, ?x, ?x]"
  have c: "code_chain ?d 0 0xffffffff80001000 ?xs" by simp
  have e: "code_end 0xffffffff80001000 ?xs \<le> 0xffffffff80001050" by simp
  have t: "0xffffffff80001050 - 0xffffffff80001000 \<le> SYMBOL_START_THRESHOLD" by (simp add: SYMBOL_START_THRESHOLD_def)
  obtain out' where "list_instructions 7 ex_env (\<lambda>_. ?d) 0xffffffff80001050 0 0xffffffff80001000 ex_symbols = Some (Inr (out', ex_symbols))"
    using ex_listing by blast
  with listing_misses_fault [OF c _ e t, of ex_env ex_symbols] show ?thesis by auto
qed

end
