(* ===== verification/Interrupts.thy ===== *)
theory Interrupts
  imports Acpi_Kapi Backtrace
begin

unbundle bit_operations_syntax

text \<open>
  What the kernel does when an interrupt arrives: \<open>kernel/cpu/interrupts/irq.cc\<close> for interrupt requests and
  \<open>kernel/cpu/interrupts/handler.cc\<close> for exceptions.

  The frame that the assembly stub has built is an argument. The report of an exception is a list of lines,
  each with its words and the numbers printed; the frames drawn around them and the colours are left out. The report
  ends with the processor halted for good.
\<close>

section \<open>Interrupt requests\<close>

definition IOAPIC_Handle :: "irq_frame \<Rightarrow> 'a irq_state_scheme \<Rightarrow> 'a irq_state_scheme" where
  "IOAPIC_Handle frame s = s\<lparr>irq_log := irq_log s @ [f_error frame]\<rparr>"

definition run_irq ::
    "(u64 \<Rightarrow> u64 \<Rightarrow> 'a acpi_state_scheme \<Rightarrow> 'a acpi_state_scheme) \<Rightarrow> irq_fn \<Rightarrow> irq_frame \<Rightarrow> 'a acpi_state_scheme \<Rightarrow> 'a acpi_state_scheme" where
  "run_irq call h frame s =
     (case h of Fn_Timer_Handle \<Rightarrow> Timer_Handle s | Fn_IOAPIC_Handle \<Rightarrow> IOAPIC_Handle frame s
      | Fn_uacpi_irq_bridge \<Rightarrow> uacpi_irq_bridge call frame s)"

definition irq_handler ::
    "(u64 \<Rightarrow> u64 \<Rightarrow> 'a acpi_state_scheme \<Rightarrow> 'a acpi_state_scheme) \<Rightarrow> irq_frame \<Rightarrow> 'a acpi_state_scheme \<Rightarrow> fault + 'a acpi_state_scheme" where
  "irq_handler call frame s =
     (if f_error frame \<ge> 256 then Inl OutOfBounds
      else Inr (LAPIC_eoi (case irq_handlers s (ucast (f_error frame)) of None \<Rightarrow> s | Some h \<Rightarrow> run_irq call h frame s)))"

definition IRQ_init :: "'a irq_state_scheme \<Rightarrow> 'a irq_state_scheme" where
  "IRQ_init s =
     (let s1 = IRQ_register_entry 0x20 Fn_Timer_Handle s;
          s2 = s1\<lparr>irq_handlers := (irq_handlers s1)(0 := Some Fn_Timer_Handle)\<rparr>
      in IOAPIC_set 0x20 0 0 (ucast (LAPIC_id s2)) s2)"

section \<open>Exceptions\<close>

record isr_frame =
  return_address :: u64
  i_gs :: u64
  i_fs :: u64
  i_es :: u64
  i_ds :: u64
  i_cs :: u64
  i_ss :: u64
  i_cr0 :: u64
  i_cr2 :: u64
  i_cr3 :: u64
  i_cr4 :: u64
  i_cr8 :: u64
  i_rip :: u64
  i_rax :: u64
  i_rbx :: u64
  i_rcx :: u64
  i_rdx :: u64
  i_rsi :: u64
  i_rdi :: u64
  i_rsp :: u64
  i_rbp :: u64
  i_r8 :: u64
  i_r9 :: u64
  i_r10 :: u64
  i_r11 :: u64
  i_r12 :: u64
  i_r13 :: u64
  i_r14 :: u64
  i_r15 :: u64
  int_num :: u64
  error_code :: u64

definition messages :: "string list" where
  "messages =
     [''Divide by zero'', ''Single step'', ''Non-maskable interrupt'', ''Breakpoint'', ''Overflow'', ''Bound range exceeded'',
      ''Invalid opcode'', ''Device not available'', ''Double fault'', ''Coprocessor segment overrun'', ''Invalid TSS'',
      ''Segment not present'', ''Stack-segment fault'', ''General protection fault'', ''Page fault'', ''Reserved'',
      ''x87 FPU error'', ''Alignment check'', ''Machine check'', ''SIMD floating-point exception'',
      ''Virtualization exception'', ''Control protection exception'']"

text \<open>The array has 255 pointers; those without an initialiser are null, and \<open>strlen\<close> reads through the pointer it is given.\<close>

definition message :: "u64 \<Rightarrow> fault + string" where
  "message n =
     (if n \<ge> 255 then Inl OutOfBounds
      else if unat n < length messages then Inr (messages ! unat n) else Inl NullDeref)"

datatype report_line = Text string | Number string u64 | Numbers "(string \<times> u64) list" | Spaces nat | Report item

definition dump_registers :: "isr_frame \<Rightarrow> fault + report_line list" where
  "dump_registers info =
     bind_sum (if int_num info < 22 then bind_sum (message (int_num info)) (\<lambda>t. Inr [Text t]) else Inr []) (\<lambda>name.
     bind_sum (message (int_num info)) (\<lambda>t.
     Inr ([Text ''SYSTEM EXCEPTION - CRITICAL ERROR DETECTED'', Number ''Interrupt'' (int_num info)] @ name @
       [Spaces (54 - length t)] @
       (if error_code info \<noteq> 0 then [Number ''Error Code'' (error_code info)] else []) @
       [Text ''GENERAL PURPOSE REGISTERS'',
        Numbers [(''RAX'', i_rax info), (''RBX'', i_rbx info)], Numbers [(''RCX'', i_rcx info), (''RDX'', i_rdx info)],
        Numbers [(''RSI'', i_rsi info), (''RDI'', i_rdi info)], Numbers [(''RSP'', i_rsp info), (''RBP'', i_rbp info)],
        Numbers [(''R8'', i_r8 info), (''R9'', i_r9 info)], Numbers [(''R10'', i_r10 info), (''R11'', i_r11 info)],
        Numbers [(''R12'', i_r12 info), (''R13'', i_r13 info)], Numbers [(''R14'', i_r14 info), (''R15'', i_r15 info)],
        Text ''EXECUTION STATE'', Number ''RIP'' (i_rip info),
        Text ''CONTROL REGISTERS'', Numbers [(''CR0'', i_cr0 info), (''CR2'', i_cr2 info)],
        Numbers [(''CR3'', i_cr3 info), (''CR4'', i_cr4 info)], Number ''CR8'' (i_cr8 info),
        Text ''SEGMENT REGISTERS'',
        Numbers [(''CS'', i_cs info), (''DS'', i_ds info), (''ES'', i_es info), (''FS'', i_fs info), (''GS'', i_gs info), (''SS'', i_ss info)]])))"

definition dump_info :: "isr_frame \<Rightarrow> fault + report_line list" where
  "dump_info info = dump_registers info"

definition handle_double_fault :: "isr_frame \<Rightarrow> report_line list" where
  "handle_double_fault info =
     (let ext = ucast (error_code info AND 0x01) :: u8;
          tbl = ucast (drop_bit 1 (error_code info AND 0x07)) :: u8;
          index = ucast (drop_bit 3 (error_code info AND 0xFFFF)) :: u16
      in [Text ''DOUBLE FAULT - CRITICAL SYSTEM ERROR'',
          Text (if ext \<noteq> 0 then ''External interrupt'' else ''Internal exception''),
          Text (if tbl = 0 then ''GDT'' else if tbl = 1 \<or> tbl = 3 then ''IDT'' else ''LDT''),
          Number ''Index'' (ucast index)])"

definition handle_invalid_tss :: "isr_frame \<Rightarrow> report_line list" where
  "handle_invalid_tss info = [Text ''INVALID TSS - Task State Segment Error'', Number ''TSS Index'' (error_code info)]"

definition handle_invalid_segment :: "isr_frame \<Rightarrow> report_line list" where
  "handle_invalid_segment info = [Text ''INVALID SEGMENT - Segment Fault'', Number ''Segment Index'' (error_code info)]"

definition handle_gpf :: "isr_frame \<Rightarrow> report_line list" where
  "handle_gpf info = [Text ''GENERAL PROTECTION FAULT - Access Violation'', Number ''Segment Index'' (error_code info)]"

definition handle_page_fault :: "isr_frame \<Rightarrow> report_line list" where
  "handle_page_fault info =
     (let attrs = ucast (error_code info AND 0x7F) :: u8; is_set = (\<lambda>n. drop_bit n attrs AND 1 \<noteq> 0) in
      [Text ''PAGE FAULT - Memory Access Violation'', Number ''Faulting Address'' (i_cr2 info),
       Text (if is_set 0 then ''Page protection violation'' else ''Page not present''),
       Text (if is_set 1 then ''Write operation'' else ''Read operation''),
       Text (if is_set 2 then ''User mode access'' else ''Supervisor mode access'')] @
      (if is_set 3 then [Text ''Reserved bit violation''] else []) @
      (if is_set 4 then [Text ''Instruction fetch''] else []) @
      (if is_set 5 then [Text ''Protection key violation''] else []) @
      (if is_set 6 then [Text ''Shadow Stack access''] else []))"

definition handle_err_code :: "isr_frame \<Rightarrow> report_line list" where
  "handle_err_code info =
     (if int_num info = 0x08 then handle_double_fault info
      else if int_num info = 0x0A then handle_invalid_tss info
      else if int_num info = 0x0B then handle_invalid_segment info
      else if int_num info = 0x0D then handle_gpf info
      else if int_num info = 0x0E then handle_page_fault info
      else [])"

definition find_rip :: "report_env \<Rightarrow> u64 \<Rightarrow> u64" where
  "find_rip E ra = (case addr2line_lookup E (ra - 1) of None \<Rightarrow> ra | Some a \<Rightarrow> li_address a)"

definition spurious_handler :: "isr_frame \<Rightarrow> 'a symbol_state_scheme \<Rightarrow> 'a symbol_state_scheme" where
  "spurious_handler info s = s"

text \<open>The handler returns, or halts after a report, or faults itself; then the lines it has printed are not kept.\<close>

datatype 's isr_result = Returned 's | Hung "report_line list" | Faulted fault

definition isr_handler :: "report_env \<Rightarrow> isr_frame \<Rightarrow> 'a symbol_state_scheme \<Rightarrow> 'a symbol_state_scheme isr_result option" where
  "isr_handler E info s =
     (if int_num info = 0xFF then Some (Returned (spurious_handler info s))
      else (let info1 = info\<lparr>i_rip := find_rip E (return_address info)\<rparr> in
        case dump_info info1 of
          Inl e \<Rightarrow> Some (Faulted e)
        | Inr regs \<Rightarrow>
            (let errs = (if int_num info \<in> {0x08, 0x0A, 0x0B, 0x0D, 0x0E} then handle_err_code info1 else []);
                 disas_addr = (if return_address info - i_rip info1 < 2 then return_address info else i_rip info1)
             in case dump_at_addr E (i_rip info1) (i_rbp info) disas_addr s of
                  None \<Rightarrow> None
                | Some (Inl e) \<Rightarrow> Some (Faulted e)
                | Some (Inr (r, items, s1)) \<Rightarrow> Some (Hung (regs @ errs @ map Report items)))))"

section \<open>Delivery\<close>

lemma bridge_calls:
  assumes "handlers_wf s" and "registered s (ucast (f_error frame)) = Some (h, c)" and "f_error frame < 256"
  shows "uacpi_irq_bridge call frame s = call h c s"
proof -
  have u: "ucast (ucast (f_error frame) :: u32) = (ucast (f_error frame) :: u8)"
    by (rule bit_word_eqI) (simp add: bit_ucast_iff)
  have "(ucast (f_error frame) :: u32) < 256"
    using assms(3) by (simp add: word_less_nat_alt unsigned_ucast_eq take_bit_nat_eq_self)
  moreover have "installed (uacpi_handlers s (ucast (f_error frame)))" "handler (uacpi_handlers s (ucast (f_error frame))) = h"
      "ctx (uacpi_handlers s (ucast (f_error frame))) = c" using assms(2) by (auto simp: registered_def Let_def split: if_splits)
  moreover have "h \<noteq> 0" using assms(1) calculation(2,3) by (auto simp: handlers_wf_def entry_wf_def)
  ultimately show ?thesis using u by (simp add: uacpi_irq_bridge_def Let_def)
qed

lemma registered_bridge: "handlers_wf s \<Longrightarrow> registered s n = Some (h, c) \<Longrightarrow> irq_handlers s n = Some Fn_uacpi_irq_bridge"
  by (auto simp: handlers_wf_def entry_wf_def registered_def Let_def split: if_splits)

text \<open>
  (C15) Delivery of the interrupt requests of the ACPI library: after any sequence of installations and removals, an
  interrupt request whose number has a handler calls exactly that handler with its context and is then acknowledged
  at the local interrupt controller; the table stays well formed.
\<close>

theorem acpi_irq_delivered:
  assumes "(acpi_step tab)\<^sup>*\<^sup>* s0 s" and "handlers_wf s0" and "f_error frame < 256"
    and "registered s (ucast (f_error frame)) = Some (h, c)"
  shows "handlers_wf s \<and> irq_handler call frame s = Inr (LAPIC_eoi (call h c s))"
proof -
  have wf: "handlers_wf s" using assms(1,2) by (rule hw.reachable_inv)
  then show ?thesis using bridge_calls [OF wf assms(4,3)] registered_bridge [OF wf assms(4)] assms(3)
    by (simp add: irq_handler_def run_irq_def not_le [symmetric])
qed

text \<open>Programming a controller changes its registers only.\<close>

definition only_io :: "'a ioapic_state_scheme \<Rightarrow> 'a ioapic_state_scheme \<Rightarrow> bool" where
  "only_io s s' \<longleftrightarrow> (\<exists>sel regs. s' = s\<lparr>io_select := sel, io_regs := regs\<rparr>)"

lemma only_ioI: "s' = s\<lparr>io_select := sel, io_regs := regs\<rparr> \<Longrightarrow> only_io s s'"
  unfolding only_io_def by (rule exI [of _ sel], rule exI [of _ regs])

lemma only_io_refl [simp]: "only_io s s"
  by (rule only_ioI [where sel = "io_select s" and regs = "io_regs s"]) simp

lemma only_io_trans: "only_io s s1 \<Longrightarrow> only_io s1 s2 \<Longrightarrow> only_io s s2"
  unfolding only_io_def [of s s1] only_io_def [of s1 s2] by (elim exE) (rule only_ioI, simp)

lemma only_io_write: "only_io s (IOAPIC_write base reg v s)"
  unfolding IOAPIC_write_def Let_def window_store_def select_reg_def by (rule only_ioI) simp

lemma only_io_read: "IOAPIC_read base reg s = (v, s1) \<Longrightarrow> only_io s s1"
  by (rule only_ioI [where sel = "(io_select s)(PHYS2VIRT s base := reg)" and regs = "io_regs s"]) (auto simp: IOAPIC_read_def Let_def select_reg_def)

lemma only_io_find: "find_apic actual_irq n i found s = (r, s1) \<Longrightarrow> only_io s s1"
proof (induction actual_irq n i found s arbitrary: r s1 rule: find_apic.induct)
  case (1 actual_irq n i found s)
  then show ?case
    by (subst (asm) (2) find_apic.simps)
      (auto simp: Let_def split: if_splits prod.splits dest: only_io_read intro: only_io_trans)
qed

lemma only_io_set: "only_io s (IOAPIC_set vec n fl lapic s)"
  by (auto simp: IOAPIC_set_def Let_def split: prod.splits option.splits dest: only_io_find
      intro!: only_io_trans [OF _ only_io_write])

text \<open>
  (C39) The timer interrupt after \<open>IRQ::init\<close>: the gate of vector 32 is present and leads to its stub, and the interrupt
  request 0 that the stub passes on advances the tick count and the interrupt count by one and is acknowledged; the
  kernel's other interrupt requests keep their handlers.
\<close>

theorem IRQ_init_timer:
  assumes "f_error frame = 0" and "s1 = IRQ_init s"
  shows "idt s1 = (idt s)(0x20 := gate_with (isr_handlers s 0x20) 0x08 INT_GATE IST_IRQ) \<and>
     (\<exists>s2. irq_handler call frame s1 = Inr s2 \<and> ticks_since_boot s2 = ticks_since_boot s + 1 \<and>
        timer_interrupt_count s2 = timer_interrupt_count s + 1 \<and> mmio s2 = (mmio s1)(LAPIC_base s1 + 0xB0 := 0)) \<and>
     (\<forall>n. n \<noteq> 0 \<and> n \<noteq> 0x20 \<longrightarrow> irq_handlers s1 n = irq_handlers s n)"
proof -
  obtain sel regs where s1: "s1 = (let s1 = IRQ_register_entry 0x20 Fn_Timer_Handle s in
      s1\<lparr>irq_handlers := (irq_handlers s1)(0 := Some Fn_Timer_Handle)\<rparr>)\<lparr>io_select := sel, io_regs := regs\<rparr>"
    using only_io_set unfolding assms(2) IRQ_init_def Let_def only_io_def by blast
  show ?thesis using assms(1)
    by (simp add: s1 Let_def IRQ_register_entry_def register_entry_with_ist_def irq_handler_def run_irq_def Timer_Handle_def PIT_tick_def
        LAPIC_eoi_def LAPIC_write_def LAPIC_base_def rdmsr_def PHYS2VIRT_def)
qed

lemma attr_bit: "n < 7 \<Longrightarrow> drop_bit n (ucast (e AND 0x7F) :: u8) AND 1 \<noteq> 0 \<longleftrightarrow> bit (e :: u64) n"
proof -
  assume "n < 7"
  have m: "(0x7F :: u64) = mask 7" by (simp add: mask_eq_exp_minus_1)
  have "bit (ucast (e AND mask 7) :: u8) n \<longleftrightarrow> bit e n" using \<open>n < 7\<close> by (simp add: bit_ucast_iff bit_and_iff bit_mask_iff)
  then have "bit (ucast (e AND 0x7F) :: u8) n \<longleftrightarrow> bit e n" unfolding m .
  then show ?thesis by (simp add: and_one_eq odd_iff_mod_2_eq_one bit_iff_odd_drop_bit)
qed

lemma message_known: "n < 22 \<Longrightarrow> message n = Inr (messages ! unat n)"
  by (simp add: message_def messages_def word_less_nat_alt word_le_nat_alt)

lemma message_missing: "22 \<le> n \<Longrightarrow> n < 0xFF \<Longrightarrow> message n = Inl NullDeref"
  by (simp add: message_def messages_def word_less_nat_alt word_le_nat_alt)

text \<open>
  (C27) What \<open>isr_handler\<close> does with each vector. The spurious vector 255 returns. An exception from 0 to 21 is reported: its
  number and name come first, the registers and the function that crashed follow, a page fault with its
  address and the kind of access, and the processor halts. For any other vector, 0xF0 among them, the handler itself
  faults while it computes the length of a message that is not there.
\<close>

theorem isr_handler_vectors:
  assumes "rip = find_rip E (return_address info)"
    and "dump_at_addr E rip (i_rbp info) (if return_address info - rip < 2 then return_address info else rip) s = Some (Inr (r, items, s1))"
  shows "(int_num info = 0xFF \<longrightarrow> isr_handler E info s = Some (Returned s)) \<and>
    (int_num info < 22 \<longrightarrow> (\<exists>regs errs. isr_handler E info s = Some (Hung (regs @ errs @ map Report items)) \<and>
       take 3 regs = [Text ''SYSTEM EXCEPTION - CRITICAL ERROR DETECTED'', Number ''Interrupt'' (int_num info), Text (messages ! unat (int_num info))] \<and>
       Number ''RIP'' rip \<in> set regs \<and> Numbers [(''RSP'', i_rsp info), (''RBP'', i_rbp info)] \<in> set regs \<and>
       (int_num info = 0x0E \<longrightarrow> Number ''Faulting Address'' (i_cr2 info) \<in> set errs \<and>
          (Text ''Write operation'' \<in> set errs \<longleftrightarrow> bit (error_code info) 1) \<and>
          (Text ''Page not present'' \<in> set errs \<longleftrightarrow> \<not> bit (error_code info) 0) \<and>
          (Text ''User mode access'' \<in> set errs \<longleftrightarrow> bit (error_code info) 2)))) \<and>
    (22 \<le> int_num info \<and> int_num info < 0xFF \<longrightarrow> isr_handler E info s = Some (Faulted NullDeref))"
proof (intro conjI impI)
  show "isr_handler E info s = Some (Returned s)" if "int_num info = 0xFF"
    using that by (simp add: isr_handler_def spurious_handler_def)
  show "isr_handler E info s = Some (Faulted NullDeref)" if "22 \<le> int_num info \<and> int_num info < 0xFF"
    using that message_missing [of "int_num info"]
    by (auto simp: isr_handler_def dump_info_def dump_registers_def Let_def not_less [symmetric])
  assume lt: "int_num info < 22"
  let ?i = "info\<lparr>i_rip := rip\<rparr>"
  define errs where "errs = (if int_num info \<in> {0x08, 0x0A, 0x0B, 0x0D, 0x0E} then handle_err_code ?i else [])"
  obtain regs where regs: "dump_info ?i = Inr regs"
      "take 3 regs = [Text ''SYSTEM EXCEPTION - CRITICAL ERROR DETECTED'', Number ''Interrupt'' (int_num info), Text (messages ! unat (int_num info))]"
      "Number ''RIP'' rip \<in> set regs" "Numbers [(''RSP'', i_rsp info), (''RBP'', i_rbp info)] \<in> set regs"
    using lt message_known [OF lt] by (simp add: dump_info_def dump_registers_def)
  have "isr_handler E info s = Some (Hung (regs @ errs @ map Report items))"
    using lt regs(1) assms by (auto simp: isr_handler_def errs_def Let_def)
  moreover have "Number ''Faulting Address'' (i_cr2 info) \<in> set errs \<and>
          (Text ''Write operation'' \<in> set errs \<longleftrightarrow> bit (error_code info) 1) \<and>
          (Text ''Page not present'' \<in> set errs \<longleftrightarrow> \<not> bit (error_code info) 0) \<and>
          (Text ''User mode access'' \<in> set errs \<longleftrightarrow> bit (error_code info) 2)" if "int_num info = 0x0E"
    using that attr_bit [of 0 "error_code info"] attr_bit [of 1 "error_code info"] attr_bit [of 2 "error_code info"]
    by (simp add: errs_def handle_err_code_def handle_page_fault_def Let_def)
  ultimately show "\<exists>regs errs. isr_handler E info s = Some (Hung (regs @ errs @ map Report items)) \<and>
       take 3 regs = [Text ''SYSTEM EXCEPTION - CRITICAL ERROR DETECTED'', Number ''Interrupt'' (int_num info), Text (messages ! unat (int_num info))] \<and>
       Number ''RIP'' rip \<in> set regs \<and> Numbers [(''RSP'', i_rsp info), (''RBP'', i_rbp info)] \<in> set regs \<and>
       (int_num info = 0x0E \<longrightarrow> Number ''Faulting Address'' (i_cr2 info) \<in> set errs \<and>
          (Text ''Write operation'' \<in> set errs \<longleftrightarrow> bit (error_code info) 1) \<and>
          (Text ''Page not present'' \<in> set errs \<longleftrightarrow> \<not> bit (error_code info) 0) \<and>
          (Text ''User mode access'' \<in> set errs \<longleftrightarrow> bit (error_code info) 2))"
    using regs by blast
qed

section \<open>Witnesses\<close>

definition ex_irq_frame :: "u64 \<Rightarrow> irq_frame" where
  "ex_irq_frame n = \<lparr>f_r15 = 0, f_r14 = 0, f_r13 = 0, f_r12 = 0, f_r11 = 0, f_r10 = 0, f_r9 = 0, f_r8 = 0, f_rbp = 0, f_rsi = 0,
     f_rdi = 0, f_rdx = 0, f_rcx = 0, f_rbx = 0, f_rax = 0, f_error = n, f_rip = 0, f_cs = 8, f_rflags = 0x202, f_rsp = 0, f_ss = 0x10\<rparr>"

definition ex_isr_frame :: "u64 \<Rightarrow> isr_frame" where
  "ex_isr_frame n = \<lparr>return_address = 0x1000, i_gs = 0, i_fs = 0, i_es = 0, i_ds = 0, i_cs = 8, i_ss = 0x10, i_cr0 = 0, i_cr2 = 0xdead000,
     i_cr3 = 0, i_cr4 = 0, i_cr8 = 0, i_rip = 0, i_rax = 0, i_rbx = 0, i_rcx = 0, i_rdx = 0, i_rsi = 0, i_rdi = 0, i_rsp = 0, i_rbp = 0,
     i_r8 = 0, i_r9 = 0, i_r10 = 0, i_r11 = 0, i_r12 = 0, i_r13 = 0, i_r14 = 0, i_r15 = 0, int_num = n, error_code = 2\<rparr>"

theorem acpi_irq_delivered_witness:
  "\<exists>s. (acpi_step 0xffffffff80100000)\<^sup>*\<^sup>* ex_acpi s \<and> registered s 9 = Some (0xffffffff80001000, 5) \<and>
     irq_handler (\<lambda>h c s. s\<lparr>irq_log := irq_log s @ [c]\<rparr>) (ex_irq_frame 9) s = Inr (LAPIC_eoi (s\<lparr>irq_log := irq_log s @ [5]\<rparr>))"
proof -
  obtain st s where r: "uacpi_kernel_install_interrupt_handler 0xffffffff80100000 9 0xffffffff80001000 5 0x4000 ex_acpi = (st, s)" by fastforce
  then have step: "(acpi_step 0xffffffff80100000)\<^sup>*\<^sup>* ex_acpi s" by (intro r_into_rtranclp acpi_step.install)
  have reg: "registered s 9 = Some (0xffffffff80001000, 5)"
    using r by (auto simp: uacpi_kernel_install_interrupt_handler_def IRQ_register_entry_def register_entry_with_ist_def registered_def Let_def)
  have e: "f_error (ex_irq_frame 9) = 9" by (simp add: ex_irq_frame_def)
  from acpi_irq_delivered [OF step ex_acpi_wf, of "ex_irq_frame 9" "0xffffffff80001000" 5 "\<lambda>h c s. s\<lparr>irq_log := irq_log s @ [c]\<rparr>"] e reg step
  show ?thesis by auto
qed

theorem IRQ_init_timer_witness:
  "\<exists>s1 s2. s1 = IRQ_init ex_acpi \<and> irq_handler (\<lambda>h c s. s) (ex_irq_frame 0) s1 = Inr s2 \<and>
     ticks_since_boot s2 = ticks_since_boot ex_acpi + 1"
  using IRQ_init_timer [of "ex_irq_frame 0" "IRQ_init ex_acpi" ex_acpi "\<lambda>h c s. s"] by (auto simp: ex_irq_frame_def)

lemma ex_dump: "dump_at_addr ex_env 0x1000 0 0x1000 ex_symbols = Some (Inr (- 1, [], ex_symbols))"
  by (simp add: dump_at_addr_def resolve_address_def)

theorem isr_handler_vectors_witness:
  "isr_handler ex_env (ex_isr_frame 0xFF) ex_symbols = Some (Returned ex_symbols) \<and>
   isr_handler ex_env (ex_isr_frame 0xF0) ex_symbols = Some (Faulted NullDeref) \<and>
   (\<exists>lines. isr_handler ex_env (ex_isr_frame 0x0E) ex_symbols = Some (Hung lines) \<and>
      Text ''Page fault'' \<in> set lines \<and> Text ''Write operation'' \<in> set lines)"
proof -
  have f: "find_rip ex_env 0x1000 = 0x1000" by (simp add: find_rip_def ex_env_def)
  have g: "return_address (ex_isr_frame n) = 0x1000" "i_rbp (ex_isr_frame n) = 0" "int_num (ex_isr_frame n) = n" "error_code (ex_isr_frame n) = 2" for n
    by (simp_all add: ex_isr_frame_def)
  have d: "dump_at_addr ex_env 0x1000 (i_rbp (ex_isr_frame n)) (if return_address (ex_isr_frame n) - 0x1000 < 2 then return_address (ex_isr_frame n) else 0x1000)
      ex_symbols = Some (Inr (- 1, [], ex_symbols))" for n
    using ex_dump by (simp add: g)
  have r: "0x1000 = find_rip ex_env (return_address (ex_isr_frame n))" for n using f by (simp add: g)
  note v = isr_handler_vectors [OF r d]
  have "isr_handler ex_env (ex_isr_frame 0xFF) ex_symbols = Some (Returned ex_symbols)" using v [of "0xFF"] by (simp add: g)
  moreover have "isr_handler ex_env (ex_isr_frame 0xF0) ex_symbols = Some (Faulted NullDeref)" using v [of "0xF0"] by (simp add: g)
  moreover have "\<exists>lines. isr_handler ex_env (ex_isr_frame 0x0E) ex_symbols = Some (Hung lines) \<and>
      Text ''Page fault'' \<in> set lines \<and> Text ''Write operation'' \<in> set lines"
  proof -
    from v [of "0x0E"] obtain regs errs where h: "isr_handler ex_env (ex_isr_frame 0x0E) ex_symbols = Some (Hung (regs @ errs @ []))"
        "take 3 regs = [Text ''SYSTEM EXCEPTION - CRITICAL ERROR DETECTED'', Number ''Interrupt'' 0x0E, Text (messages ! 14)]"
        "Text ''Write operation'' \<in> set errs \<longleftrightarrow> bit (2 :: u64) 1" unfolding g by auto
    have "Text ''Page fault'' \<in> set (take 3 regs)" unfolding h(2) by (simp add: messages_def)
    then have "Text ''Page fault'' \<in> set regs" by (rule in_set_takeD)
    moreover have "bit (2 :: u64) 1" by (simp add: bit_numeral_rec)
    ultimately show ?thesis using h(1,3) by auto
  qed
  ultimately show ?thesis by simp
qed

end
