(* ===== verification/Devices.thy ===== *)
theory Devices
  imports Mapper Interrupts
begin

unbundle bit_operations_syntax

text \<open>
  The interrupt controllers come up: \<open>Sys::IOAPIC::init\<close> of \<open>kernel/sys/ioapic.cc\<close> on a table of the firmware whose
  chain of entries reaches its end, \<open>LAPIC::init\<close> of \<open>kernel/cpu/lapic/lapic.cc\<close>, and the route of the timer's
  interrupt that \<open>IRQ::init\<close> of \<open>kernel/cpu/interrupts/irq.cc\<close> then programs.
\<close>

section \<open>The table of the firmware\<close>

text \<open>
  The addresses of the entries from \<open>cur\<close> on, each at the end of the one before it, up to an address at or past
  the limit. An entry of length 0 below the limit is on no such list.
\<close>

fun madt_walk :: "madt_abi \<Rightarrow> memory \<Rightarrow> u64 \<Rightarrow> u64 \<Rightarrow> u64 list \<Rightarrow> bool" where
  "madt_walk A m lim cur [] \<longleftrightarrow> lim \<le> cur"
| "madt_walk A m lim cur (a # as) \<longleftrightarrow> a = cur \<and> cur < lim \<and> madt_walk A m lim (cur + ucast (entry_length A m cur)) as"

text \<open>The controllers and the overrides among the entries.\<close>

definition madt_ioapics :: "madt_abi \<Rightarrow> memory \<Rightarrow> u64 list \<Rightarrow> ioapic_rec list" where
  "madt_ioapics A m as = map (ioapic_of A m) (filter (\<lambda>a. entry_type A m a = type_ioapic A) as)"

definition madt_isos :: "madt_abi \<Rightarrow> memory \<Rightarrow> u64 list \<Rightarrow> iso_rec list" where
  "madt_isos A m as = map (iso_of A m) (filter (\<lambda>a. entry_type A m a \<noteq> type_ioapic A \<and> entry_type A m a = type_iso A) as)"

text \<open>The entries are not in the memory the frames, and so the page tables, are taken from.\<close>

definition madt_fixed :: "madt_abi \<Rightarrow> nat set \<Rightarrow> u64 list \<Rightarrow> bool" where
  "madt_fixed A R as \<longleftrightarrow> (\<forall>m m'. agree_on m m' (- R) \<longrightarrow> (\<forall>a \<in> set as. entry_type A m' a = entry_type A m a \<and>
     entry_length A m' a = entry_length A m a \<and> ioapic_of A m' a = ioapic_of A m a \<and> iso_of A m' a = iso_of A m a))"

lemma madt_fixed_sub: "madt_fixed A R as \<Longrightarrow> set bs \<subseteq> set as \<Longrightarrow> madt_fixed A R bs"
  unfolding madt_fixed_def by blast

section \<open>Arrays filled from a list\<close>

definition put_all :: "(u8 \<Rightarrow> 'r) \<times> u8 \<Rightarrow> 'r list \<Rightarrow> (u8 \<Rightarrow> 'r) \<times> u8" where
  "put_all = foldl (\<lambda>(f, n) x. (f(n := x), n + 1))"

lemma unat_index: "i \<le> unat (n :: u8) \<Longrightarrow> unat (of_nat i :: u8) = i"
  using unsigned_less [of n, where 'a = nat] by (simp add: unsigned_of_nat take_bit_nat_eq_self)

lemma put_all_simps [simp]:
  "put_all p [] = p" "put_all (f, n) (x # xs) = put_all (f(n := x), n + 1) xs"
  "put_all p (xs @ ys) = put_all (put_all p xs) ys"
  by (simp_all add: put_all_def)

lemma put_all_spec:
  "unat n + length xs < 256 \<Longrightarrow> unat (snd (put_all (f, n) xs)) = unat n + length xs \<and>
   (\<forall>i < length xs. fst (put_all (f, n) xs) (n + of_nat i) = xs ! i) \<and>
   (\<forall>k. unat k < unat n \<longrightarrow> fst (put_all (f, n) xs) k = f k)"
proof (induction xs arbitrary: f n)
  case (Cons x xs)
  have n1: "unat (n + 1) = Suc (unat n)" using Cons.prems by (simp add: unat_word_ariths)
  define g where "g = f(n := x)"
  have g: "g n = x" "k \<noteq> n \<Longrightarrow> g k = f k" for k by (simp_all add: g_def)
  have IH: "unat (snd (put_all (g, n + 1) xs)) = unat (n + 1) + length xs"
      "\<forall>i < length xs. fst (put_all (g, n + 1) xs) (n + 1 + of_nat i) = xs ! i"
      "\<forall>k. unat k < unat (n + 1) \<longrightarrow> fst (put_all (g, n + 1) xs) k = g k"
    using Cons.IH [of "n + 1" g] Cons.prems n1 by auto
  have "fst (put_all (g, n + 1) xs) (n + of_nat i) = (x # xs) ! i" if "i < Suc (length xs)" for i
  proof (cases i)
    case 0
    then show ?thesis using IH(3) n1 g by simp
  next
    case (Suc j)
    then show ?thesis using IH(2) that by (simp add: add.assoc)
  qed
  moreover have "fst (put_all (g, n + 1) xs) k = f k" if "unat k < unat n" for k
  proof -
    have "k \<noteq> n" using that by auto
    then show ?thesis using IH(3) that n1 g by simp
  qed
  ultimately show ?case using IH(1) n1 by (simp add: g_def [symmetric])
qed simp

section \<open>One entry\<close>

definition set_tables ::
    "(u8 \<Rightarrow> ioapic_rec) \<times> u8 \<Rightarrow> (u8 \<Rightarrow> iso_rec) \<times> u8 \<Rightarrow> 'a ioapic_state_scheme \<Rightarrow> 'a ioapic_state_scheme" where
  "set_tables P Q s = s\<lparr>apics := fst P, iso := fst Q, apic_ent := snd P, iso_ent := snd Q\<rparr>"

lemma set_tables_more:
  "paging_state.more s' = paging_state.more s \<Longrightarrow> paging_state.more (set_tables P Q s') = paging_state.more (set_tables P Q s)"
  by (cases s; cases s') (simp add: set_tables_def)

lemma set_tables_twice: "set_tables P Q (set_tables P' Q' s) = set_tables P Q s"
  by (simp add: set_tables_def)

lemma set_tables_sel [simp]:
  "apics (set_tables P Q s) = fst P" "apic_ent (set_tables P Q s) = snd P" "iso (set_tables P Q s) = fst Q" "iso_ent (set_tables P Q s) = snd Q"
  "mem (set_tables P Q s) = mem s" "hhdm_addr (set_tables P Q s) = hhdm_addr s" "frame_region (set_tables P Q s) = frame_region s"
  "free_ahead (set_tables P Q s) = free_ahead s" "pt_wf (set_tables P Q s) = pt_wf s" "frame_wf (set_tables P Q s) = frame_wf s"
  by (simp_all add: set_tables_def frame_region_def free_ahead_def pt_wf_def frame_wf_def phys_ok_def taken_def frame_addr_def cong: image_cong)

lemma select_sel [simp]:
  "mem (s\<lparr>io_select := x\<rparr>) = mem s" "hhdm_addr (s\<lparr>io_select := x\<rparr>) = hhdm_addr s" "pt_wf (s\<lparr>io_select := x\<rparr>) = pt_wf s"
  "free_ahead (s\<lparr>io_select := x\<rparr>) = free_ahead s" "frame_region (s\<lparr>io_select := x\<rparr>) = frame_region s"
  by (simp_all add: frame_region_def free_ahead_def pt_wf_def frame_wf_def phys_ok_def taken_def frame_addr_def cong: image_cong)

lemma more_tables:
  assumes "paging_state.more s' = paging_state.more (s :: 'a ioapic_state_scheme)"
  shows "apics s' = apics s" "apic_ent s' = apic_ent s" "iso s' = iso s" "iso_ent s' = iso_ent s"
  using assms by (cases s; cases s'; simp)+

text \<open>The part of the table read so far is in the arrays; the page tables grew by at most three frames a controller.\<close>

definition table_read :: "madt_abi \<Rightarrow> memory \<Rightarrow> u64 list \<Rightarrow> 'a ioapic_state_scheme \<Rightarrow> 'a ioapic_state_scheme \<Rightarrow> bool" where
  "table_read A m as s s' \<longleftrightarrow> pt_wf s' \<and> hhdm_addr s' = hhdm_addr s \<and> frame_region s' = frame_region s \<and>
     agree_on (mem s) (mem s') (- frame_region s) \<and> free_ahead s \<le> free_ahead s' + 3 * length (madt_ioapics A m as) \<and>
     paging_state.more s' = paging_state.more (set_tables (put_all (apics s, apic_ent s) (madt_ioapics A m as))
       (put_all (iso s, iso_ent s) (madt_isos A m as)) s)"

lemma table_read_arrays:
  assumes "table_read A m as s s'"
  shows "(apics s', apic_ent s') = put_all (apics s, apic_ent s) (madt_ioapics A m as)"
    and "(iso s', iso_ent s') = put_all (iso s, iso_ent s) (madt_isos A m as)"
  using assms more_tables [of s' "set_tables (put_all (apics s, apic_ent s) (madt_ioapics A m as))
       (put_all (iso s, iso_ent s) (madt_isos A m as)) s"] by (simp_all add: table_read_def)

lemma table_read_trans:
  assumes 1: "table_read A m [a] s s1" and 2: "table_read A m as s1 s'"
  shows "table_read A m (a # as) s s'"
proof -
  have ap: "madt_ioapics A m (a # as) = madt_ioapics A m [a] @ madt_ioapics A m as" "madt_isos A m (a # as) = madt_isos A m [a] @ madt_isos A m as"
    by (simp_all add: madt_ioapics_def madt_isos_def)
  have "paging_state.more s' = paging_state.more (set_tables (put_all (apics s, apic_ent s) (madt_ioapics A m (a # as)))
       (put_all (iso s, iso_ent s) (madt_isos A m (a # as))) s)"
    using 2 set_tables_more [of s1 "set_tables (put_all (apics s, apic_ent s) (madt_ioapics A m [a])) (put_all (iso s, iso_ent s) (madt_isos A m [a])) s"] 1
    unfolding ap put_all_simps table_read_arrays [OF 1, symmetric] table_read_def by (simp add: set_tables_twice)
  moreover have "agree_on (mem s) (mem s') (- frame_region s)"
    using 1 2 unfolding table_read_def by (auto elim: agree_on_trans)
  ultimately show ?thesis using 1 2 ap unfolding table_read_def by auto
qed

lemma madt_entry_ok:
  assumes wf: "pt_wf s" and on: "agree_on m (mem s) (- frame_region s)" and fx: "madt_fixed A (frame_region s) [cur]"
    and room: "3 * length (madt_ioapics A m [cur]) \<le> free_ahead s" and n: "unat (apic_ent s) + length (madt_ioapics A m [cur]) \<le> 24"
    and k: "unat (iso_ent s) + length (madt_isos A m [cur]) \<le> 24"
  obtains s1 where "madt_entry A cur s = Inr s1" and "table_read A m [cur] s s1"
proof -
  have read: "entry_type A m' cur = entry_type A m cur" "ioapic_of A m' cur = ioapic_of A m cur" "iso_of A m' cur = iso_of A m cur"
    if "agree_on m m' (- frame_region s)" for m'
    using fx that unfolding madt_fixed_def by auto
  consider (io) "entry_type A m cur = type_ioapic A" | (iso) "entry_type A m cur \<noteq> type_ioapic A" "entry_type A m cur = type_iso A"
    | (other) "entry_type A m cur \<noteq> type_ioapic A" "entry_type A m cur \<noteq> type_iso A" by blast
  then show thesis
  proof cases
    case io
    then have L: "madt_ioapics A m [cur] = [ioapic_of A m cur]" "madt_isos A m [cur] = []" by (simp_all add: madt_ioapics_def madt_isos_def)
    let ?p = "ucast (address (ioapic_of A (mem s) cur)) :: u64"
    have "3 \<le> free_ahead s" using room L by simp
    then obtain s1 where s1: "Paging_map ?p (PHYS2VIRT s ?p) (PAGE_PRESENT OR PAGE_WRITE) s = Inr s1" "free_ahead s \<le> free_ahead s1 + 3"
      by (rule Paging_map_room [OF wf])
    note eff = Paging_map_effect [OF wf s1(1)]
    have more: "paging_state.more s1 = paging_state.more s" using Paging_map_kept [OF s1(1)] by (simp add: frames_kept_def)
    note f = more_tables [OF more]
    have on1: "agree_on m (mem s1) (- frame_region s)" using on eff(8) by (rule agree_on_trans)
    have lt: "\<not> 24 \<le> apic_ent s1" using n L f(2) by (simp add: word_le_nat_alt)
    let ?s1 = "set_tables ((apics s1)(apic_ent s1 := ioapic_of A m cur), apic_ent s1 + 1) (iso s1, iso_ent s1) s1"
    have "madt_entry A cur s = Inr ?s1"
      using s1(1) io read [OF on] read [OF on1] lt by (simp add: madt_entry_def Let_def set_tables_def)
    moreover have "table_read A m [cur] s ?s1"
      using eff s1(2) f set_tables_more [OF more] L unfolding table_read_def by simp
    ultimately show thesis by (rule that)
  next
    case iso
    then have L: "madt_ioapics A m [cur] = []" "madt_isos A m [cur] = [iso_of A m cur]" by (simp_all add: madt_ioapics_def madt_isos_def)
    have lt: "\<not> 24 \<le> iso_ent s" using k L by (simp add: word_le_nat_alt)
    let ?s1 = "set_tables (apics s, apic_ent s) ((iso s)(iso_ent s := iso_of A m cur), iso_ent s + 1) s"
    have "madt_entry A cur s = Inr ?s1" using iso read [OF on] lt by (simp add: madt_entry_def set_tables_def)
    moreover have "table_read A m [cur] s ?s1" using wf L unfolding table_read_def by simp
    ultimately show thesis by (rule that)
  next
    case other
    then have L: "madt_ioapics A m [cur] = []" "madt_isos A m [cur] = []" by (simp_all add: madt_ioapics_def madt_isos_def)
    have "madt_entry A cur s = Inr s" using other read [OF on] by (simp add: madt_entry_def)
    moreover have "table_read A m [cur] s s" using wf L unfolding table_read_def by (simp add: set_tables_def)
    ultimately show thesis by (rule that)
  qed
qed

section \<open>The whole table\<close>

lemma madt_loop_ok:
  "madt_walk A m lim cur as \<Longrightarrow> madt_fixed A (frame_region s) as \<Longrightarrow> pt_wf s \<Longrightarrow> agree_on m (mem s) (- frame_region s) \<Longrightarrow>
   3 * length (madt_ioapics A m as) \<le> free_ahead s \<Longrightarrow> unat (apic_ent s) + length (madt_ioapics A m as) \<le> 24 \<Longrightarrow>
   unat (iso_ent s) + length (madt_isos A m as) \<le> 24 \<Longrightarrow>
   \<exists>s'. madt_loop A lim cur s = Some (Inr s') \<and> table_read A m as s s'"
proof (induction as arbitrary: cur s)
  case Nil
  have "madt_loop A lim cur s = Some (Inr s)" using Nil.prems(1) by (subst madt_loop.simps) simp
  moreover have "table_read A m [] s s"
    using Nil.prems(3) by (simp add: table_read_def madt_ioapics_def madt_isos_def set_tables_def)
  ultimately show ?case by blast
next
  case (Cons a as)
  have a: "a = cur" "cur < lim" "madt_walk A m lim (cur + ucast (entry_length A m cur)) as" using Cons.prems(1) by simp_all
  have len: "length (madt_ioapics A m (cur # as)) = length (madt_ioapics A m [cur]) + length (madt_ioapics A m as)"
      "length (madt_isos A m (cur # as)) = length (madt_isos A m [cur]) + length (madt_isos A m as)"
    by (simp_all add: madt_ioapics_def madt_isos_def)
  have fx: "madt_fixed A (frame_region s) [cur]" "madt_fixed A (frame_region s) as"
    using Cons.prems(2) a(1) by (auto intro: madt_fixed_sub)
  obtain s1 where s1: "madt_entry A cur s = Inr s1" "table_read A m [cur] s s1"
    by (rule madt_entry_ok [OF Cons.prems(3,4) fx(1)]) (use Cons.prems(5-7) len a(1) in auto)
  note arr = table_read_arrays [OF s1(2)]
  have n1: "unat (apic_ent s1) = unat (apic_ent s) + length (madt_ioapics A m [cur])"
      "unat (iso_ent s1) = unat (iso_ent s) + length (madt_isos A m [cur])"
    using put_all_spec [of "apic_ent s" "madt_ioapics A m [cur]" "apics s"] put_all_spec [of "iso_ent s" "madt_isos A m [cur]" "iso s"]
      Cons.prems(6,7) len a(1) arr [symmetric] by auto
  have on1: "agree_on m (mem s1) (- frame_region s)" using Cons.prems(4) s1(2) unfolding table_read_def by (auto elim: agree_on_trans)
  then have el: "entry_length A (mem s1) cur = entry_length A m cur" using fx(1) unfolding madt_fixed_def by simp
  have reg: "frame_region s1 = frame_region s" "pt_wf s1" using s1(2) by (simp_all add: table_read_def)
  have "\<exists>s'. madt_loop A lim (cur + ucast (entry_length A m cur)) s1 = Some (Inr s') \<and> table_read A m as s1 s'"
    by (rule Cons.IH [OF a(3)]) (use fx(2) reg on1 Cons.prems(5-7) len a(1) n1 s1(2) in \<open>auto simp: table_read_def\<close>)
  then obtain s' where s': "madt_loop A lim (cur + ucast (entry_length A m cur)) s1 = Some (Inr s')" "table_read A m as s1 s'" by blast
  have "madt_loop A lim cur s = Some (Inr s')"
    using a(2) s1(1) el s'(1) by (subst madt_loop.simps) (simp add: not_le)
  then show ?case using table_read_trans [OF s1(2) s'(2)] a(1) by blast
qed

lemma probe_run: "\<exists>sel. run_list probe_apic is s = Inr (s\<lparr>io_select := sel\<rparr>)"
proof (induction "is" arbitrary: s)
  case Nil
  show ?case by (rule exI [of _ "io_select s"]) simp
next
  case (Cons i "is")
  obtain sel where "probe_apic i s = Inr (s\<lparr>io_select := sel\<rparr>)" by (simp add: probe_apic_def IOAPIC_read_value)
  then show ?case using Cons.IH [of "s\<lparr>io_select := sel\<rparr>"] by auto
qed

lemma probe_loop:
  obtains sel where "for_loop probe_apic 1 0 n s = Some (Inr (s\<lparr>io_select := sel\<rparr>))"
proof -
  have "unat n + unat (1 :: u8) \<le> 2 ^ LENGTH(8)" using unsigned_less [of n, where 'a = nat] by simp
  then show thesis using for_loop_run [of 1 n probe_apic 0 s] probe_run [of "for_range 1 0 n" s] that by auto
qed

text \<open>What the firmware's table has to look like for \<open>Sys::IOAPIC::init\<close>.\<close>

definition madt_ok :: "madt_abi \<Rightarrow> 'a frame_state_scheme \<Rightarrow> u64 list \<Rightarrow> bool" where
  "madt_ok A s as \<longleftrightarrow> (\<exists>t. madt_table A = Some t \<and>
     madt_walk A (mem s) (entries_at A t + ucast (hdr_length A (mem s) t) - sizeof_madt A) (entries_at A t) as) \<and>
     madt_fixed A (frame_region s) as \<and> length (madt_ioapics A (mem s) as) \<le> 24 \<and> length (madt_isos A (mem s) as) \<le> 24"

lemma IOAPIC_init_ok:
  assumes ok: "madt_ok A s as" and wf: "pt_wf s" and room: "3 * length (madt_ioapics A (mem s) as) \<le> free_ahead s"
  obtains s' sel where "IOAPIC_init A s = Some (Inr s')" and "pt_wf s'" and "hhdm_addr s' = hhdm_addr s"
    and "free_ahead s \<le> free_ahead s' + 3 * length (madt_ioapics A (mem s) as)"
    and "paging_state.more s' = paging_state.more ((set_tables (put_all (apics s, 0) (madt_ioapics A (mem s) as))
       (put_all (iso s, 0) (madt_isos A (mem s) as)) s)\<lparr>io_select := sel\<rparr>)"
proof -
  obtain t where t: "madt_table A = Some t"
      and walk: "madt_walk A (mem s) (entries_at A t + ucast (hdr_length A (mem s) t) - sizeof_madt A) (entries_at A t) as"
    using ok by (auto simp: madt_ok_def)
  let ?s0 = "set_tables (apics s, 0) (iso s, 0) s"
  obtain s1 where s1: "madt_loop A (entries_at A t + ucast (hdr_length A (mem s) t) - sizeof_madt A) (entries_at A t) ?s0 = Some (Inr s1)"
      "table_read A (mem s) as ?s0 s1"
    using madt_loop_ok [OF walk, of ?s0] ok wf room by (auto simp: madt_ok_def)
  obtain sel where sel: "for_loop probe_apic 1 0 (apic_ent s1) s1 = Some (Inr (s1\<lparr>io_select := sel\<rparr>))" by (rule probe_loop)
  have "s\<lparr>apic_ent := 0, iso_ent := 0\<rparr> = ?s0" by (simp add: set_tables_def)
  then have init: "IOAPIC_init A s = Some (Inr (s1\<lparr>io_select := sel\<rparr>))"
    using t s1(1) sel by (simp add: IOAPIC_init_def Let_def)
  have "paging_state.more (s1\<lparr>io_select := sel\<rparr>) = paging_state.more ((set_tables (put_all (apics s, 0) (madt_ioapics A (mem s) as))
       (put_all (iso s, 0) (madt_isos A (mem s) as)) s)\<lparr>io_select := sel\<rparr>)"
    using s1(2) by (cases s1; cases s) (simp add: table_read_def set_tables_def)
  then show thesis
    using that [OF init, of sel] s1(2) by (simp add: table_read_def)
qed

lemma LAPIC_init_ok:
  assumes wf: "pt_wf s" and room: "3 \<le> free_ahead s"
  obtains s' a b where "LAPIC_init s = Inr s'" and "hhdm_addr s' = hhdm_addr s"
    and "paging_state.more s' = paging_state.more (s\<lparr>msr := a, mmio := b\<rparr>)"
proof -
  obtain a where a: "wrmsr 0x1B (rdmsr 0x1B s OR 0x800) s = s\<lparr>msr := a\<rparr>" by (simp add: wrmsr_def)
  have wf1: "pt_wf (s\<lparr>msr := a\<rparr>)" and room1: "3 \<le> free_ahead (s\<lparr>msr := a\<rparr>)"
    using wf room by (simp_all add: pt_wf_def frame_wf_def phys_ok_def taken_def frame_addr_def free_ahead_def)
  let ?p = "rdmsr 0x1B s AND 0xFFFFF000"
  obtain s2 where s2: "Paging_map ?p (PHYS2VIRT (s\<lparr>msr := a\<rparr>) ?p) (PAGE_PRESENT OR PAGE_WRITE) (s\<lparr>msr := a\<rparr>) = Inr s2"
    by (rule Paging_map_room [OF wf1 room1])
  have more: "paging_state.more s2 = paging_state.more (s\<lparr>msr := a\<rparr>)" using Paging_map_kept [OF s2] by (simp add: frames_kept_def)
  obtain b where b: "LAPIC_write 0xf0 (0xff OR 0x100) s2 = s2\<lparr>mmio := b\<rparr>" by (simp add: LAPIC_write_def)
  have "LAPIC_init s = Inr (s2\<lparr>mmio := b\<rparr>)" unfolding LAPIC_init_def Let_def a bind_sum_def using s2 b by simp
  moreover have "paging_state.more (s2\<lparr>mmio := b\<rparr>) = paging_state.more (s\<lparr>msr := a, mmio := b\<rparr>)"
    using more by (cases s2; cases s) simp
  ultimately show thesis using that Paging_map_effect(5) [OF wf1 s2] by simp
qed

section \<open>The route of an interrupt\<close>

text \<open>The override of an interrupt, its number at the controllers, and the first controller that covers it.\<close>

definition override_for :: "u8 \<Rightarrow> iso_rec list \<Rightarrow> iso_rec option" where
  "override_for ln isos = find (\<lambda>o'. source o' = ln) isos"

definition gsi_for :: "u8 \<Rightarrow> iso_rec list \<Rightarrow> u8" where
  "gsi_for ln isos = (case override_for ln isos of None \<Rightarrow> ln | Some o' \<Rightarrow> ucast (gsi o'))"

definition route_to :: "u8 \<Rightarrow> ioapic_rec list \<Rightarrow> iso_rec list \<Rightarrow> (u64 \<Rightarrow> u32 \<Rightarrow> u32) \<Rightarrow> u64 \<Rightarrow> nat \<Rightarrow> bool" where
  "route_to ln ios isos regs h j \<longleftrightarrow> j < length ios \<and>
     covers (ios ! j) (drop_bit 16 (regs (h + ucast (address (ios ! j))) 1)) (gsi_for ln isos) \<and>
     (\<forall>k < j. \<not> covers (ios ! k) (drop_bit 16 (regs (h + ucast (address (ios ! k))) 1)) (gsi_for ln isos))"

text \<open>The arrays of the state hold the two lists.\<close>

definition arrays_hold :: "ioapic_rec list \<Rightarrow> iso_rec list \<Rightarrow> 'a ioapic_state_scheme \<Rightarrow> bool" where
  "arrays_hold ios isos s \<longleftrightarrow> unat (apic_ent s) = length ios \<and> (\<forall>i < length ios. apics s (of_nat i) = ios ! i) \<and>
     unat (iso_ent s) = length isos \<and> (\<forall>i < length isos. iso s (of_nat i) = isos ! i)"

lemma find_iso_list:
  assumes h: "arrays_hold ios isos s" and "i \<le> length isos"
  shows "find_iso ln (of_nat i) s = find (\<lambda>o'. source o' = ln) (drop i isos)"
  using assms(2)
proof (induction "length isos - i" arbitrary: i)
  case 0
  have "unat (of_nat i :: u8) = i" using 0 h by (intro unat_index [of _ "iso_ent s"]) (simp add: arrays_hold_def)
  then show ?case using 0 h by (subst find_iso.simps) (simp add: arrays_hold_def word_less_nat_alt)
next
  case (Suc d)
  then have i: "i < length isos" by simp
  have u: "unat (of_nat i :: u8) = i" using i h by (intro unat_index [of _ "iso_ent s"]) (simp add: arrays_hold_def)
  have lt: "of_nat i < iso_ent s" using u i h by (simp add: arrays_hold_def word_less_nat_alt)
  have "find_iso ln (of_nat i + 1) s = find (\<lambda>o'. source o' = ln) (drop (Suc i) isos)"
    using Suc.hyps(1) [of "Suc i"] Suc.hyps(2) i by (simp add: add.commute)
  then show ?case using lt i h Cons_nth_drop_Suc [OF i, symmetric]
    by (subst find_iso.simps) (simp add: arrays_hold_def)
qed

lemma route_stops:
  assumes h: "arrays_hold ios isos s" and r: "route_to ln ios isos (io_regs s) (hhdm_addr s) j"
  shows "of_nat j < apic_ent s" and "stops_at s (gsi_for ln isos) (of_nat j)" and "\<forall>k < of_nat j. \<not> stops_at s (gsi_for ln isos) k"
    and "apics s (of_nat j) = ios ! j" and "apic_virt s (of_nat j) = hhdm_addr s + ucast (address (ios ! j))"
proof -
  have j: "j < length ios" using r by (simp add: route_to_def)
  have u: "unat (of_nat j :: u8) = j" using j h by (intro unat_index [of _ "apic_ent s"]) (simp add: arrays_hold_def)
  show "of_nat j < apic_ent s" using u j h by (simp add: arrays_hold_def word_less_nat_alt)
  show "apics s (of_nat j) = ios ! j" "apic_virt s (of_nat j) = hhdm_addr s + ucast (address (ios ! j))"
    using h j by (simp_all add: arrays_hold_def apic_virt_def PHYS2VIRT_def)
  then show "stops_at s (gsi_for ln isos) (of_nat j)" using r by (simp add: stops_at_def route_to_def)
  have "\<not> stops_at s (gsi_for ln isos) k" if k: "k < of_nat j" for k
  proof -
    have "unat k < j" using k u by (simp add: word_less_nat_alt)
    moreover have "apics s k = ios ! unat k" using h calculation j unfolding arrays_hold_def by (auto dest!: spec [of _ "unat k"])
    ultimately show ?thesis using r by (simp add: stops_at_def apic_virt_def PHYS2VIRT_def route_to_def)
  qed
  then show "\<forall>k < of_nat j. \<not> stops_at s (gsi_for ln isos) k" by blast
qed

definition route_reg :: "u8 \<Rightarrow> ioapic_rec \<Rightarrow> iso_rec list \<Rightarrow> u32" where
  "route_reg ln a isos = (ucast (gsi_for ln isos) - gsi_base a) * 2 + 0x10"

text \<open>The entry of the timer's interrupt after \<open>IRQ::init\<close>.\<close>

lemma IRQ_init_route:
  assumes h: "arrays_hold ios isos s" and r: "route_to 0 ios isos (io_regs s) (hhdm_addr s) j"
  shows "decode_entry (io_regs (IRQ_init s) (hhdm_addr s + ucast (address (ios ! j))) (route_reg 0 (ios ! j) isos))
      (io_regs (IRQ_init s) (hhdm_addr s + ucast (address (ios ! j))) (route_reg 0 (ios ! j) isos + 1)) =
    (0x20, 0, 0, of_bool (fst (pol_trig (override_for 0 isos))), of_bool (snd (pol_trig (override_for 0 isos))), 0, ucast (LAPIC_id s))"
proof -
  define s2 where "s2 = (let s1 = IRQ_register_entry 0x20 Fn_Timer_Handle s in s1\<lparr>irq_handlers := (irq_handlers s1)(0 := Some Fn_Timer_Handle)\<rparr>)"
  have f: "arrays_hold ios isos s2" "io_regs s2 = io_regs s" "hhdm_addr s2 = hhdm_addr s" "LAPIC_id s2 = LAPIC_id s"
    using h by (simp_all add: s2_def Let_def IRQ_register_entry_def register_entry_with_ist_def arrays_hold_def LAPIC_id_def LAPIC_read_def
        LAPIC_base_def rdmsr_def PHYS2VIRT_def)
  have init: "IRQ_init s = IOAPIC_set 0x20 0 0 (ucast (LAPIC_id s)) s2" using f(4) by (simp add: IRQ_init_def s2_def Let_def)
  note st = route_stops [OF f(1) r [folded f(2,3)]]
  have iso: "override_for 0 isos = find_iso 0 0 s2" using find_iso_list [OF f(1), of 0 0] by (simp add: override_for_def)
  have reg: "route_reg 0 (ios ! j) isos = (ucast (gsi_for 0 isos) - gsi_base (apics s2 (of_nat j))) * 2 + 0x10"
    using st(4) by (simp add: route_reg_def)
  have gsi: "gsi_for 0 isos = (case override_for 0 isos of None \<Rightarrow> 0 | Some o' \<Rightarrow> ucast (gsi o'))" by (simp add: gsi_for_def)
  obtain sel where "IRQ_init s = s2\<lparr>io_select := sel, io_regs := (io_regs s2)(apic_virt s2 (of_nat j) := (io_regs s2 (apic_virt s2 (of_nat j)))
       (route_reg 0 (ios ! j) isos := ucast (redirect_word 0x20 0 (ucast (LAPIC_id s)) (override_for 0 isos)),
        route_reg 0 (ios ! j) isos + 1 := ucast (drop_bit 32 (redirect_word 0x20 0 (ucast (LAPIC_id s)) (override_for 0 isos)))))\<rparr>"
    using IOAPIC_set_state [OF iso gsi st(1-3) reg, of "0x20" 0 "ucast (LAPIC_id s)"] init by auto
  moreover have "(ucast (ucast (LAPIC_id s) :: u64) :: u8) = ucast (LAPIC_id s)" by (rule bit_word_eqI) (simp add: bit_simps)
  ultimately show ?thesis using decode_redirect [of "0x20" "ucast (LAPIC_id s)" "override_for 0 isos"] st(5) f(3) by simp
qed

end
