(* ===== verification/Console.thy ===== *)
theory Console
  imports Lapic
begin

unbundle bit_operations_syntax

text \<open>
  The serial line, \<open>kernel/arch/serial.cc\<close>, the log on top of it, \<open>kernel/dbg/logger/log.cc\<close>, and the
  features of the processor, \<open>kernel/arch/cpuid.cc\<close> and \<open>kernel/arch/sse.cc\<close>.

  What the status port returns, read after read, is a list; a loop that waits for it does not return
  (\<open>None\<close>) when the list ends first. The text terminal driver is a function on the state, the formatting of
  the kernel library and the processor's \<open>cpuid\<close> are parameters. A format or a text longer than the
  buffer it is copied to is the fault \<open>OutOfBounds\<close>.
\<close>

section \<open>The serial line\<close>

definition COM1 :: u16 where "COM1 = 0x3F8"

text \<open>The check byte read back is an argument; the endless loop when it differs is \<open>None\<close>.\<close>

definition UART_init :: "u8 \<Rightarrow> 'a timer_state_scheme \<Rightarrow> 'a timer_state_scheme option" where
  "UART_init echo s =
     (let s1 = fold (\<lambda>(port, v). outb port v)
        [(COM1 + 1, 0x00), (COM1 + 3, 0x80), (COM1, 0x03), (COM1 + 1, 0x00), (COM1 + 3, 0x03), (COM1 + 2, 0xC7),
         (COM1 + 4, 0x0B), (COM1 + 4, 0x1E), (COM1, 0xAE)] s
      in if echo \<noteq> 0xAE then None else Some (outb (COM1 + 4) 0x0F s1))"

definition active :: "u8 \<Rightarrow> bool" where
  "active status \<longleftrightarrow> status AND 1 \<noteq> 0"

definition transmit_empty :: "u8 \<Rightarrow> bool" where
  "transmit_empty status \<longleftrightarrow> status AND 0x20 \<noteq> 0"

fun UART_write :: "char \<Rightarrow> u8 list \<Rightarrow> 'a timer_state_scheme \<Rightarrow> (u8 list \<times> 'a timer_state_scheme) option" where
  "UART_write c [] s = None"
| "UART_write c (status # rest) s =
     (if transmit_empty status then Some (rest, outb COM1 (of_char c) s) else UART_write c rest s)"

text \<open>The byte received is the argument \<open>v\<close>.\<close>

fun UART_read :: "u8 \<Rightarrow> u8 list \<Rightarrow> (u8 list \<times> char) option" where
  "UART_read v [] = None"
| "UART_read v (status # rest) = (if active status then Some (rest, char_of (unat v)) else UART_read v rest)"

section \<open>The log\<close>

fun print_serial :: "string \<Rightarrow> u8 list \<Rightarrow> 'a timer_state_scheme \<Rightarrow> (u8 list \<times> 'a timer_state_scheme) option" where
  "print_serial [] st s = Some (st, s)"
| "print_serial (c # message) st s =
     (case UART_write c st s of None \<Rightarrow> None | Some (st1, s1) \<Rightarrow> print_serial message st1 s1)"

text \<open>The terminal: whether it is initialised, and what writing to it does.\<close>

record 's tty =
  tty_initialized :: "'s \<Rightarrow> bool"
  tty_write :: "string \<Rightarrow> 's \<Rightarrow> 's"

type_synonym ('r, 's) printed = "(fault + ('r \<times> u8 list \<times> 's)) option"

definition Log_print :: "'a timer_state_scheme tty \<Rightarrow> string \<Rightarrow> u8 list \<Rightarrow> 'a timer_state_scheme \<Rightarrow> (nat, 'a timer_state_scheme) printed" where
  "Log_print T message st s =
     (case print_serial message st s of
        None \<Rightarrow> None
      | Some (st1, s1) \<Rightarrow> Some (Inr (length message, st1, if tty_initialized T s1 then tty_write T message s1 else s1)))"

text \<open>\<open>txt'\<close> is the formatted text, for the buffer of 1024 bytes.\<close>

definition Log_printf :: "'a timer_state_scheme tty \<Rightarrow> string \<Rightarrow> u8 list \<Rightarrow> 'a timer_state_scheme \<Rightarrow> (nat, 'a timer_state_scheme) printed" where
  "Log_printf T txt' st s = (if length txt' \<ge> 1024 then Some (Inl OutOfBounds) else Log_print T txt' st s)"

definition Log_vsprintf ::
    "'a timer_state_scheme tty \<Rightarrow> (string \<Rightarrow> string) \<Rightarrow> string \<Rightarrow> u8 list \<Rightarrow> 'a timer_state_scheme \<Rightarrow> (nat, 'a timer_state_scheme) printed" where
  "Log_vsprintf T fmt f st s = (if length (fmt f) \<ge> 1024 then Some (Inl OutOfBounds) else Log_print T (fmt f) st s)"

definition ESC :: string where "ESC = [CHR 0x1B]"

definition LOG_END :: string where "LOG_END = ESC @ ''[0m'' @ [CHR 0x0A]"

text \<open>What the six functions have in common: their prefix, the format and the end.\<close>

definition log_with ::
    "string \<Rightarrow> 'a timer_state_scheme tty \<Rightarrow> (string \<Rightarrow> string) \<Rightarrow> string \<Rightarrow> u8 list \<Rightarrow> 'a timer_state_scheme \<Rightarrow>
     (nat, 'a timer_state_scheme) printed" where
  "log_with base T fmt f st s =
     (if length (base @ f) \<ge> 128 then Some (Inl OutOfBounds)
      else then_do (Log_vsprintf T fmt (base @ f) st s) (\<lambda>(n, st1, s1).
           then_do (Log_print T LOG_END st1 s1) (\<lambda>(n2, st2, s2). Some (Inr (n + n2, st2, s2)))))"

definition INFO_BASE :: string where "INFO_BASE = ESC @ ''[37;1m[    INFO]'' @ ESC @ ''[36m ''"
definition CRITICAL_BASE :: string where "CRITICAL_BASE = ESC @ ''[31;1m[CRITICAL]'' @ ESC @ ''[36m ''"
definition SUCCESS_BASE :: string where "SUCCESS_BASE = ESC @ ''[32;1m[ SUCCESS]'' @ ESC @ ''[36m ''"
definition RUNNING_BASE :: string where "RUNNING_BASE = ESC @ ''[90;1m[ RUNNING]'' @ ESC @ ''[36m ''"
definition DEBUG_BASE :: string where "DEBUG_BASE = ESC @ ''[34;1m[   DEBUG]'' @ ESC @ ''[36m ''"
definition WARNING_BASE :: string where "WARNING_BASE = ESC @ ''[33;1m[ WARNING]'' @ ESC @ ''[36m ''"

definition Log_info ::
    "'a timer_state_scheme tty \<Rightarrow> (string \<Rightarrow> string) \<Rightarrow> string \<Rightarrow> u8 list \<Rightarrow> 'a timer_state_scheme \<Rightarrow> (nat, 'a timer_state_scheme) printed" where
  "Log_info = log_with INFO_BASE"

definition Log_critical ::
    "'a timer_state_scheme tty \<Rightarrow> (string \<Rightarrow> string) \<Rightarrow> string \<Rightarrow> u8 list \<Rightarrow> 'a timer_state_scheme \<Rightarrow> (nat, 'a timer_state_scheme) printed" where
  "Log_critical = log_with CRITICAL_BASE"

definition Log_success ::
    "'a timer_state_scheme tty \<Rightarrow> (string \<Rightarrow> string) \<Rightarrow> string \<Rightarrow> u8 list \<Rightarrow> 'a timer_state_scheme \<Rightarrow> (nat, 'a timer_state_scheme) printed" where
  "Log_success = log_with SUCCESS_BASE"

definition Log_running ::
    "'a timer_state_scheme tty \<Rightarrow> (string \<Rightarrow> string) \<Rightarrow> string \<Rightarrow> u8 list \<Rightarrow> 'a timer_state_scheme \<Rightarrow> (nat, 'a timer_state_scheme) printed" where
  "Log_running = log_with RUNNING_BASE"

definition Log_warning ::
    "'a timer_state_scheme tty \<Rightarrow> (string \<Rightarrow> string) \<Rightarrow> string \<Rightarrow> u8 list \<Rightarrow> 'a timer_state_scheme \<Rightarrow> (nat, 'a timer_state_scheme) printed" where
  "Log_warning = log_with WARNING_BASE"

text \<open>\<open>Log::debug\<close> prints the end with \<open>Log::printf\<close>; the end has no conversion.\<close>

definition Log_debug ::
    "'a timer_state_scheme tty \<Rightarrow> (string \<Rightarrow> string) \<Rightarrow> string \<Rightarrow> u8 list \<Rightarrow> 'a timer_state_scheme \<Rightarrow> (nat, 'a timer_state_scheme) printed" where
  "Log_debug T fmt f st s =
     (if length (DEBUG_BASE @ f) \<ge> 128 then Some (Inl OutOfBounds)
      else then_do (Log_vsprintf T fmt (DEBUG_BASE @ f) st s) (\<lambda>(n, st1, s1).
           then_do (Log_printf T LOG_END st1 s1) (\<lambda>(n2, st2, s2). Some (Inr (n + n2, st2, s2)))))"

definition ASSERT_MESSAGE :: string where
  "ASSERT_MESSAGE =
     ''Failed assertion '' @ ESC @ ''[0m'' @ ESC @ ''[41m%s'' @ ESC @ ''[0m'' @ [CHR 0x0A, CHR 0x09] @ ''   [ '' @ ESC @ ''[33m%s'' @
     ESC @ ''[0m ]  ->  '' @ ESC @ ''[36;4m%s:%d'' @ ESC @ ''[0m in '' @ ESC @ ''[36;4m%s''"

definition failed_assert ::
    "'a timer_state_scheme tty \<Rightarrow> (string \<Rightarrow> string) \<Rightarrow> u8 list \<Rightarrow> 'a timer_state_scheme \<Rightarrow> (nat, 'a timer_state_scheme) printed" where
  "failed_assert T fmt st s = Log_critical T fmt ASSERT_MESSAGE st s"

section \<open>Processor features\<close>

type_synonym cpuid_fn = "u32 \<Rightarrow> u32 \<Rightarrow> u32 \<times> u32 \<times> u32 \<times> u32"

definition word_chars :: "u32 \<Rightarrow> string" where
  "word_chars w = map (\<lambda>i. char_of (unat (drop_bit (8 * i) w AND 0xFF))) [0, 1, 2, 3]"

definition cpu_vendor :: "cpuid_fn \<Rightarrow> string" where
  "cpu_vendor cpuid = (let (eax, ebx, ecx, edx) = cpuid 0 0 in word_chars ebx @ word_chars edx @ word_chars ecx)"

definition cpu_brand :: "cpuid_fn \<Rightarrow> string" where
  "cpu_brand cpuid =
     concat (map (\<lambda>i. let (eax, ebx, ecx, edx) = cpuid (0x80000002 + i) 0
                      in word_chars eax @ word_chars ebx @ word_chars ecx @ word_chars edx) [0, 1, 2])"

definition tsc_freq :: "cpuid_fn \<Rightarrow> u64" where
  "tsc_freq cpuid =
     (let (eax, ebx, ecx, edx) = cpuid 0x15 0 in
      if eax \<noteq> 0 \<and> ebx \<noteq> 0 then (if ecx \<noteq> 0 then ucast ecx else 1) * ucast ebx div ucast eax else 0)"

definition SSE_enable :: "cpuid_fn \<Rightarrow> 'a desc_state_scheme \<Rightarrow> bool \<times> 'a desc_state_scheme" where
  "SSE_enable cpuid s =
     (if cs s AND 3 \<noteq> 0 then (False, s)
      else (let (eax, ebx, ecx, edx) = cpuid 1 0 in
        if \<not> bit edx 25 \<or> \<not> bit ecx 0 \<or> \<not> bit ecx 19 \<or> \<not> bit ecx 20 then (False, s)
        else (True, s\<lparr>cr0 := (cr0 s AND NOT (push_bit 2 1)) OR push_bit 1 1, cr4 := cr4 s OR (push_bit 9 1 OR push_bit 10 1)\<rparr>)))"

definition SSE_test :: "cpuid_fn \<Rightarrow> bool" where
  "SSE_test cpuid = (let (eax, ebx, ecx, edx) = cpuid 1 0 in edx AND push_bit 25 1 \<noteq> 0)"

section \<open>What the log writes\<close>

definition ready_reads :: "u8 list \<Rightarrow> nat" where
  "ready_reads st = length (filter transmit_empty st)"

definition sent :: "string \<Rightarrow> (u16 \<times> u8) list" where
  "sent message = map (\<lambda>c. (COM1, of_char c)) message"

lemma UART_write_ready:
  "0 < ready_reads st \<Longrightarrow> \<exists>st'. UART_write c st s = Some (st', outb COM1 (of_char c) s) \<and> ready_reads st = Suc (ready_reads st')"
  by (induction c st s rule: UART_write.induct) (auto simp: ready_reads_def)

lemma print_serial_ready:
  "length message \<le> ready_reads st \<Longrightarrow>
   \<exists>st'. print_serial message st s = Some (st', s\<lparr>out_log := out_log s @ sent message\<rparr>) \<and> ready_reads st = ready_reads st' + length message"
proof (induction message arbitrary: st s)
  case (Cons c message)
  then obtain st1 where w: "UART_write c st s = Some (st1, outb COM1 (of_char c) s)" "ready_reads st = Suc (ready_reads st1)"
    using UART_write_ready [of st c s] by auto
  then show ?case using Cons.IH [of st1 "outb COM1 (of_char c) s"] Cons.prems by (auto simp: outb_def sent_def)
qed (simp add: sent_def)

text \<open>A terminal whose writes leave the ports alone.\<close>

definition tty_quiet :: "'a timer_state_scheme tty \<Rightarrow> bool" where
  "tty_quiet T \<longleftrightarrow> (\<forall>m s. out_log (tty_write T m s) = out_log s)"

lemma Log_print_ready:
  assumes "length message \<le> ready_reads st" and "tty_quiet T"
  shows "\<exists>st' s'. Log_print T message st s = Some (Inr (length message, st', s')) \<and> out_log s' = out_log s @ sent message \<and>
     ready_reads st = ready_reads st' + length message"
  using print_serial_ready [OF assms(1), of s] assms(2) by (auto simp: Log_print_def tty_quiet_def)

lemma log_with_ready:
  assumes "length (base @ f) < 128" and "length (fmt (base @ f)) < 1024" and "tty_quiet T"
    and "length (fmt (base @ f)) + length LOG_END \<le> ready_reads st"
  shows "\<exists>st' s'. log_with base T fmt f st s = Some (Inr (length (fmt (base @ f)) + length LOG_END, st', s')) \<and>
     out_log s' = out_log s @ sent (fmt (base @ f) @ LOG_END)"
proof -
  from assms obtain st1 s1 where 1: "Log_print T (fmt (base @ f)) st s = Some (Inr (length (fmt (base @ f)), st1, s1))"
      "out_log s1 = out_log s @ sent (fmt (base @ f))" "ready_reads st = ready_reads st1 + length (fmt (base @ f))"
    using Log_print_ready [of "fmt (base @ f)" st T s] by auto
  with assms(3,4) obtain st2 s2 where "Log_print T LOG_END st1 s1 = Some (Inr (length LOG_END, st2, s2))" "out_log s2 = out_log s1 @ sent LOG_END"
    using Log_print_ready [of LOG_END st1 T s1] by auto
  with 1 assms(1,2) show ?thesis by (simp add: log_with_def Log_vsprintf_def sent_def)
qed

lemma Log_debug_with: "Log_debug = log_with DEBUG_BASE"
  by (intro ext) (simp add: Log_debug_def log_with_def Log_printf_def LOG_END_def ESC_def)

text \<open>
  (C28) The six log functions. When the format fits the buffer of 128 bytes behind the prefix and the text its buffer of 1024,
  and the serial line gets ready often enough, whatever number of reads it takes in between, the call returns the
  number of characters, and exactly the prefix, the text and the end have gone out on the serial line,
  in this order. A longer format overruns the buffer before anything is printed.
\<close>

theorem log_output:
  assumes "(base, lg) \<in> {(INFO_BASE, Log_info), (CRITICAL_BASE, Log_critical), (SUCCESS_BASE, Log_success),
      (RUNNING_BASE, Log_running), (DEBUG_BASE, Log_debug), (WARNING_BASE, Log_warning)}"
  shows "(128 \<le> length (base @ f) \<longrightarrow> lg T fmt f st s = Some (Inl OutOfBounds)) \<and>
    (length (base @ f) < 128 \<and> length (fmt (base @ f)) < 1024 \<and> tty_quiet T \<and> length (fmt (base @ f)) + 5 \<le> ready_reads st \<longrightarrow>
      (\<exists>st' s'. lg T fmt f st s = Some (Inr (length (fmt (base @ f)) + 5, st', s')) \<and>
         out_log s' = out_log s @ sent (fmt (base @ f) @ LOG_END)))"
proof -
  have lg: "lg = log_with base"
    using assms by (auto simp: Log_info_def Log_critical_def Log_success_def Log_running_def Log_debug_with Log_warning_def)
  have "length LOG_END = 5" by (simp add: LOG_END_def ESC_def)
  then show ?thesis using log_with_ready [of base f fmt T st s] unfolding lg by (auto simp: log_with_def)
qed

section \<open>Witness\<close>

theorem log_output_witness:
  "\<exists>st' s'. Log_info \<lparr>tty_initialized = (\<lambda>_. False), tty_write = (\<lambda>_ s. s)\<rparr> id ''up'' (replicate 3 0 @ replicate 30 0x20) ex_timer =
     Some (Inr (30, st', s')) \<and> map snd (out_log s') = map of_char (INFO_BASE @ ''up'' @ LOG_END)"
proof -
  let ?T = "\<lparr>tty_initialized = (\<lambda>_. False), tty_write = (\<lambda>_ s. s)\<rparr> :: timer_state tty" and ?st = "replicate 3 0 @ replicate 30 0x20"
  have b: "length (INFO_BASE @ ''up'') = 25" by (simp add: INFO_BASE_def ESC_def)
  have r: "ready_reads ?st = 30" by (simp add: ready_reads_def transmit_empty_def)
  have o: "out_log ex_timer = []" by (simp add: ex_timer_def desc_state.defs timer_state.defs)
  have q: "tty_quiet ?T" by (simp add: tty_quiet_def)
  have "\<exists>st' s'. Log_info ?T id ''up'' ?st ex_timer = Some (Inr (length (id (INFO_BASE @ ''up'')) + 5, st', s')) \<and>
      out_log s' = out_log ex_timer @ sent (id (INFO_BASE @ ''up'') @ LOG_END)"
    using log_output [of INFO_BASE Log_info "''up''" ?T id ?st ex_timer] b r q by simp
  then show ?thesis using b o by (auto simp: sent_def)
qed

end
