(* ===== verification/Boot.thy ===== *)
theory Boot
  imports Devices Console
begin

text \<open>
  The start of the kernel, \<open>kernel/kern.cc\<close>: the order in which it sets up its parts, up to the scheduler.

  \<open>boot_env\<close> holds what the parts take from outside: the bootloader's responses, the addresses the linker gives,
  the symbols of the image, the processor, the firmware tables, the byte the serial line echoes, the ACPI
  library's initialisation and the framebuffer driver's calls. The messages logged on the way are left out; the
  log is the subject of \<open>Console\<close>.
\<close>

section \<open>The sequence\<close>

datatype fb_call = Gfx_init | Tty_init | Splash nat

record 's boot_env =
  echo :: u8
  responses :: limine_responses
  syms :: desc_syms
  linker :: linker_symbols
  image :: elf_view
  cpuid_of :: cpuid_fn
  uacpi_init :: "u64 \<Rightarrow> 's \<Rightarrow> bool \<times> 's"
  madt :: madt_abi
  fb :: "fb_call \<Rightarrow> 's \<Rightarrow> 's"

text \<open>A function that cannot fail, and one that waits for interrupts, as a step of the sequence.\<close>

definition plain :: "('s \<Rightarrow> 's) \<Rightarrow> 's \<Rightarrow> (fault + 's) option" where
  "plain f s = Some (Inr (f s))"

definition sleeping ::
    "u64 \<Rightarrow> irq_event list \<Rightarrow> 'a timer_state_scheme \<Rightarrow> (fault + (irq_event list \<times> 'a timer_state_scheme)) option" where
  "sleeping ms ev s = (case sleep_ms ms ev s of None \<Rightarrow> None | Some r \<Rightarrow> Some (Inr r))"

text \<open>The first part: from the serial line to the symbols.\<close>

definition setup_core :: "'a acpi_state_scheme boot_env \<Rightarrow> 'a acpi_state_scheme \<Rightarrow> (fault + 'a acpi_state_scheme) option" where
  "setup_core B s =
     then_do (case UART_init (echo B) s of None \<Rightarrow> None | Some s1 \<Rightarrow> Some (Inr s1)) (\<lambda>s.
     then_do (Some (gather (responses B) s)) (\<lambda>s.
     then_do (plain (fb B Gfx_init) s) (\<lambda>s.
     then_do (if fb_info s = 0 then Some (Inl NullDeref) else plain (fb B (Splash 0) \<circ> fb B Tty_init) s) (\<lambda>s.
     then_do (plain (fb B (Splash 5) \<circ> GDT_init (syms B)) s) (\<lambda>s.
     then_do (Some (Frame_init s)) (\<lambda>s.
     then_do (plain (fb B (Splash 14) \<circ> TSS_init_stacks \<circ> fb B (Splash 8)) s) (\<lambda>s.
     then_do (IDT_init (syms B) s) (\<lambda>s.
     then_do (Paging_init (linker B) (fb B (Splash 20) s)) (\<lambda>s.
     then_do (init_symbols (image B) (fb B (Splash 25) s)) (\<lambda>s.
     Some (Inr (fb B (Splash 30) s))))))))))))"

text \<open>The second part: from the processor's features to the ACPI namespace.\<close>

definition setup_devices ::
    "'a acpi_state_scheme boot_env \<Rightarrow> irq_event list \<Rightarrow> 'a acpi_state_scheme \<Rightarrow> (fault + (irq_event list \<times> 'a acpi_state_scheme)) option" where
  "setup_devices B ev s =
     then_do (plain (fb B (Splash 35) \<circ> snd \<circ> SSE_enable (cpuid_of B)) s) (\<lambda>s.
     then_do (plain (fb B (Splash 40) \<circ> ACPI_init (uacpi_init B)) s) (\<lambda>s.
     then_do (plain (fb B (Splash 45) \<circ> PIC_disable) s) (\<lambda>s.
     then_do (IOAPIC_init (madt B) s) (\<lambda>s.
     then_do (Some (LAPIC_init (fb B (Splash 50) s))) (\<lambda>s.
     then_do (plain (fb B (Splash 60) \<circ> IRQ_init \<circ> fb B (Splash 55)) s) (\<lambda>s.
     then_do (Some (Timer_init s)) (\<lambda>(_, s).
     then_do (sleeping 100 ev s) (\<lambda>(ev, s).
     then_do (sleeping 200 ev s) (\<lambda>(ev, s).
     then_do (sleeping 300 ev (fb B (Splash 75) s)) (\<lambda>(ev, s).
     Some (Inr (ev, fb B (Splash 100) (ACPI_load (fb B (Splash 90) s))))))))))))))"

definition kernel_pre_setup ::
    "'a acpi_state_scheme boot_env \<Rightarrow> irq_event list \<Rightarrow> 'a acpi_state_scheme \<Rightarrow> (fault + (irq_event list \<times> 'a acpi_state_scheme)) option" where
  "kernel_pre_setup B ev s = then_do (setup_core B s) (setup_devices B ev)"

definition kernel_start ::
    "'a acpi_state_scheme boot_env \<Rightarrow> irq_event list \<Rightarrow> 'a acpi_state_scheme \<Rightarrow> (fault + (irq_event list \<times> 'a acpi_state_scheme)) option" where
  "kernel_start B ev s = kernel_pre_setup B ev s"

text \<open>
  The entry point: the address of the task the scheduler calls; \<open>None\<close> in its place when there is no task
  and the endless loop of \<open>hlt\<close> follows.
\<close>

definition start :: "'a acpi_state_scheme boot_env \<Rightarrow> irq_event list \<Rightarrow> 'a acpi_state_scheme \<Rightarrow> (fault + (u64 option \<times> 'a acpi_state_scheme)) option" where
  "start B ev s =
     then_do (kernel_start B ev s) (\<lambda>(_, s1).
       case start_scheduler s1 of None \<Rightarrow> None | Some r \<Rightarrow> Some (Inr r))"

section \<open>The devices come up\<close>

text \<open>The framebuffer driver keeps its own state, outside the kernel's.\<close>

definition fb_quiet :: "'a acpi_state_scheme boot_env \<Rightarrow> bool" where
  "fb_quiet B \<longleftrightarrow> (\<forall>c s. \<exists>e. fb B c s = s\<lparr>acpi_state.more := e\<rparr>)"

text \<open>A sleeping loop advances the counts of the timer interrupt and nothing else.\<close>

definition only_time :: "'a timer_state_scheme \<Rightarrow> 'a timer_state_scheme \<Rightarrow> bool" where
  "only_time s s' \<longleftrightarrow> (\<exists>t c. s' = s\<lparr>ticks_since_boot := t, timer_interrupt_count := c\<rparr>)"

lemma only_timeI: "s' = s\<lparr>ticks_since_boot := t, timer_interrupt_count := c\<rparr> \<Longrightarrow> only_time s s'"
  unfolding only_time_def by (rule exI [of _ t], rule exI [of _ c])

lemma sleep_until_time: "sleep_until target ev s = Some (rest, s') \<Longrightarrow> only_time s s'"
proof (induction target ev s rule: sleep_until.induct)
  case (1 target ev s)
  show ?case
  proof (cases "ticks_since_boot s < target")
    case False
    then have "s' = s" using "1.prems" by (subst (asm) sleep_until.simps) simp
    then show ?thesis by (intro only_timeI [where t = "ticks_since_boot s" and c = "timer_interrupt_count s"]) simp
  next
    case True
    then obtain e ev' where ev: "ev = e # ev'" using "1.prems" by (subst (asm) sleep_until.simps) (auto split: list.splits)
    show ?thesis
    proof (cases e)
      case Other_irq
      then show ?thesis using 1 True ev by (subst (asm) (3) sleep_until.simps) simp
    next
      case Timer_irq
      then have "only_time (Timer_Handle s) s'" using 1 True ev by (subst (asm) (3) sleep_until.simps) simp
      then show ?thesis unfolding only_time_def [of "Timer_Handle s"]
        by (elim exE) (rule only_timeI, simp add: Timer_Handle_def PIT_tick_def)
    qed
  qed
qed

lemma sleep_ms_1000:
  assumes "active_timer s = T_PIT" and "pit_frequency s = 1000" and "n \<le> 4000" and "ms = of_nat n"
    and "unat (ticks_since_boot s) + n < 2 ^ 64" and "n \<le> timer_irqs ev"
  shows "\<exists>used rest s'. sleep_ms ms ev s = Some (rest, s') \<and> ev = used @ rest \<and> timer_irqs used = n \<and>
    ticks_since_boot s' = ticks_since_boot s + of_nat n \<and> only_time s s'"
proof -
  have "unat (ucast ms :: u32) = n" using assms(3,4) by (simp add: unsigned_ucast_eq unsigned_of_nat take_bit_nat_eq_self)
  then have "unat ((ucast ms :: u32) * 1000 div 1000) = n" using assms(3) by (simp add: unat_div unat_word_ariths)
  moreover have "of_nat (unat ((ucast ms :: u32) * 1000 div 1000)) = (ucast ((ucast ms :: u32) * 1000 div 1000) :: u64)" by simp
  ultimately have "ucast ((ucast ms :: u32) * 1000 div 1000) = (of_nat n :: u64)" by (simp only:)
  then have "sleep_ms ms ev s = sleep_until (ticks_since_boot s + of_nat n) ev s"
    using assms(1,2) by (simp add: sleep_ms_def PIT_sleep_ms_def)
  then show ?thesis using sleep_until_ok [OF assms(5,6)] sleep_until_time by metis
qed

text \<open>What the rest of the sequence needs to know of a state, and what of it the driver keeps.\<close>

definition same_controllers :: "'a ioapic_state_scheme \<Rightarrow> 'a ioapic_state_scheme \<Rightarrow> bool" where
  "same_controllers s s' \<longleftrightarrow> hhdm_addr s' = hhdm_addr s \<and> msr s' = msr s \<and> mmio s' = mmio s \<and> io_regs s' = io_regs s \<and>
     apics s' = apics s \<and> apic_ent s' = apic_ent s \<and> iso s' = iso s \<and> iso_ent s' = iso_ent s"

lemma same_controllers_id: "same_controllers s s' \<Longrightarrow> LAPIC_id s' = LAPIC_id s"
  by (simp add: same_controllers_def LAPIC_id_def LAPIC_read_def LAPIC_base_def rdmsr_def PHYS2VIRT_def)

definition same_kernel :: "'a acpi_state_scheme \<Rightarrow> 'a acpi_state_scheme \<Rightarrow> bool" where
  "same_kernel s s' \<longleftrightarrow> active_timer s' = active_timer s \<and> pit_frequency s' = pit_frequency s \<and> ticks_since_boot s' = ticks_since_boot s \<and>
     irq_handlers s' = irq_handlers s \<and> idt s' = idt s \<and> isr_handlers s' = isr_handlers s \<and> pcount s' = pcount s \<and> same_controllers s s'"

lemma fb_same: "fb_quiet B \<Longrightarrow> same_kernel s (fb B c s)"
  unfolding fb_quiet_def same_kernel_def same_controllers_def by (elim allE [of _ c] allE [of _ s] exE) simp

lemma fb_tables:
  assumes "fb_quiet B"
  shows "pt_wf (fb B c s) = pt_wf s" and "free_ahead (fb B c s) = free_ahead s"
proof -
  obtain e where "fb B c s = s\<lparr>acpi_state.more := e\<rparr>" using assms by (auto simp: fb_quiet_def)
  then show "pt_wf (fb B c s) = pt_wf s" "free_ahead (fb B c s) = free_ahead s"
    by (simp_all add: free_ahead_def pt_wf_def frame_wf_def phys_ok_def taken_def frame_addr_def)
qed

lemma more_same: "paging_state.more s' = paging_state.more s \<Longrightarrow> hhdm_addr s' = hhdm_addr s \<Longrightarrow> same_kernel s s'"
  by (cases s; cases s') (simp add: same_kernel_def same_controllers_def)

lemma same_kernel_trans: "same_kernel s s1 \<Longrightarrow> same_kernel s1 s2 \<Longrightarrow> same_kernel s s2"
  by (simp add: same_kernel_def same_controllers_def)

lemma sleeping_1000:
  assumes "active_timer s = T_PIT" and "pit_frequency s = 1000" and "n \<le> 4000" and "ms = of_nat n"
    and "unat (ticks_since_boot s) + n < 2 ^ 64" and "n \<le> timer_irqs ev"
  shows "\<exists>used rest s'. sleeping ms ev s = Some (Inr (rest, s')) \<and> ev = used @ rest \<and> timer_irqs used = n \<and>
    same_kernel (s\<lparr>ticks_since_boot := ticks_since_boot s + of_nat n\<rparr>) s'"
proof -
  obtain used rest s' where s': "sleep_ms ms ev s = Some (rest, s')" "ev = used @ rest" "timer_irqs used = n"
      "ticks_since_boot s' = ticks_since_boot s + of_nat n" "only_time s s'" using sleep_ms_1000 [OF assms] by blast
  have "same_kernel (s\<lparr>ticks_since_boot := ticks_since_boot s + of_nat n\<rparr>) s'"
    using s'(5) unfolding only_time_def by (elim exE) (use s'(4) in \<open>simp add: same_kernel_def same_controllers_def\<close>)
  with s'(1-3) show ?thesis unfolding sleeping_def by force
qed

lemma Timer_init_state:
  "\<exists>s'. Timer_init s = Inr (True, s') \<and> active_timer s' = T_PIT \<and> pit_frequency s' = 1000 \<and> ticks_since_boot s' = ticks_since_boot s \<and>
     irq_handlers s' = irq_handlers s \<and> idt s' = idt s \<and> isr_handlers s' = isr_handlers s \<and> pcount s' = pcount s \<and> same_controllers s s'"
  by (simp add: same_controllers_def Timer_init_def PIT_init_def PIT_set_frequency_def PIT_TARGET_FREQUENCY_def outb_def Let_def)

lemma IRQ_init_state:
  "irq_handlers (IRQ_init s) = (irq_handlers s)(0x20 \<mapsto> Fn_Timer_Handle, 0 \<mapsto> Fn_Timer_Handle) \<and>
   idt (IRQ_init s) = (idt s)(0x20 := gate_with (isr_handlers s 0x20) 0x08 INT_GATE IST_IRQ) \<and>
   isr_handlers (IRQ_init s) = isr_handlers s \<and> ticks_since_boot (IRQ_init s) = ticks_since_boot s \<and> pcount (IRQ_init s) = pcount s \<and>
   hhdm_addr (IRQ_init s) = hhdm_addr s \<and> LAPIC_id (IRQ_init s) = LAPIC_id s"
proof -
  obtain sel regs where "IRQ_init s = (let s1 = IRQ_register_entry 0x20 Fn_Timer_Handle s in
      s1\<lparr>irq_handlers := (irq_handlers s1)(0 := Some Fn_Timer_Handle)\<rparr>)\<lparr>io_select := sel, io_regs := regs\<rparr>"
    using only_io_set unfolding IRQ_init_def Let_def only_io_def by blast
  then show ?thesis by (simp add: Let_def IRQ_register_entry_def register_entry_with_ist_def LAPIC_id_def LAPIC_read_def LAPIC_base_def
      rdmsr_def PHYS2VIRT_def)
qed

lemma three_sleeps:
  assumes "fb_quiet B" and "active_timer s = T_PIT" and "pit_frequency s = 1000"
    and "unat (ticks_since_boot s) + 600 < 2 ^ 64" and "600 \<le> timer_irqs ev"
  shows "\<exists>used rest s'. then_do (sleeping 100 ev s) (\<lambda>(ev, s). then_do (sleeping 200 ev s) (\<lambda>(ev, s).
       then_do (sleeping 300 ev (fb B (Splash 75) s)) (\<lambda>(ev, s). Some (Inr (ev, fb B (Splash 100) (ACPI_load (fb B (Splash 90) s))))))) = Some (Inr (rest, s')) \<and>
     ev = used @ rest \<and> timer_irqs used = 600 \<and> same_kernel (s\<lparr>ticks_since_boot := ticks_since_boot s + 600\<rparr>) s'"
proof -
  have small: "unat (ticks_since_boot s + of_nat n) = unat (ticks_since_boot s) + n" if "n \<le> 600" for n
    using that assms(4) by (simp add: unat_word_ariths unsigned_of_nat take_bit_nat_eq_self)
  obtain u1 e1 s1 where 1: "sleeping 100 ev s = Some (Inr (e1, s1))" "ev = u1 @ e1" "timer_irqs u1 = 100"
      "same_kernel (s\<lparr>ticks_since_boot := ticks_since_boot s + of_nat 100\<rparr>) s1"
    using sleeping_1000 [of s 100 100 ev] assms by auto
  obtain u2 e2 s2 where 2: "sleeping 200 e1 s1 = Some (Inr (e2, s2))" "e1 = u2 @ e2" "timer_irqs u2 = 200"
      "same_kernel (s1\<lparr>ticks_since_boot := ticks_since_boot s1 + of_nat 200\<rparr>) s2"
    using sleeping_1000 [of s1 200 200 e1] assms 1(2-4) small [of 100] by (auto simp: same_kernel_def)
  let ?s2 = "fb B (Splash 75) s2"
  have f2: "same_kernel s2 ?s2" by (rule fb_same [OF assms(1)])
  have t2: "ticks_since_boot ?s2 = ticks_since_boot s + of_nat 300" using 1(4) 2(4) f2 by (simp add: same_kernel_def)
  have "300 \<le> timer_irqs e2" using assms(5) 1(2,3) 2(2,3) by simp
  moreover have "unat (ticks_since_boot ?s2) + 300 < 2 ^ 64" using t2 small [of 300] assms(4) by simp
  ultimately obtain u3 e3 s3 where 3: "sleeping 300 e2 ?s2 = Some (Inr (e3, s3))" "e2 = u3 @ e3" "timer_irqs u3 = 300"
      "same_kernel (?s2\<lparr>ticks_since_boot := ticks_since_boot ?s2 + of_nat 300\<rparr>) s3"
    using sleeping_1000 [of ?s2 300 300 e2] assms(2,3) 1(4) 2(4) f2 by (auto simp: same_kernel_def)
  let ?s' = "fb B (Splash 100) (ACPI_load (fb B (Splash 90) s3))"
  have "same_kernel s3 (fb B (Splash 90) s3)" "same_kernel (fb B (Splash 90) s3) ?s'"
    using fb_same [OF assms(1)] by (simp_all add: ACPI_load_def)
  then have "same_kernel (s\<lparr>ticks_since_boot := ticks_since_boot s + 600\<rparr>) ?s'"
    using 1(4) 2(4) f2 3(4) t2 by (simp add: same_kernel_def same_controllers_def)
  moreover have "ev = (u1 @ u2 @ u3) @ e3" "timer_irqs (u1 @ u2 @ u3) = 600" using 1 2 3 by simp_all
  ultimately show ?thesis using 1(1) 2(1) 3(1) by (intro exI [of _ "u1 @ u2 @ u3"] exI [of _ e3] exI [of _ ?s']) simp
qed

text \<open>The kernel when it comes to the interrupt controllers.\<close>

definition before_controllers :: "'a acpi_state_scheme boot_env \<Rightarrow> 'a acpi_state_scheme \<Rightarrow> 'a acpi_state_scheme" where
  "before_controllers B s = fb B (Splash 45) (PIC_disable (fb B (Splash 40) (ACPI_init (uacpi_init B)
     (fb B (Splash 35) (snd (SSE_enable (cpuid_of B) s))))))"

lemma put_all_arrays:
  assumes "length ios \<le> 24" and "length isos \<le> 24"
    and "same_kernel ((set_tables (put_all (apics s, 0) ios) (put_all (iso s, 0) isos) s)\<lparr>msr := a, mmio := b\<rparr>) s'"
  shows "arrays_hold ios isos s'"
  using put_all_spec [of 0 ios "apics s"] put_all_spec [of 0 isos "iso s"] assms
  by (simp add: arrays_hold_def same_kernel_def same_controllers_def)

text \<open>The two controllers are found and mapped; nothing else the kernel knows changes, but the arrays and the local registers.\<close>

lemma controllers_up:
  assumes q: "fb_quiet B" and ok: "madt_ok (madt B) s as" and wf: "pt_wf s"
    and room: "3 * (length (madt_ioapics (madt B) (mem s) as) + 1) \<le> free_ahead s"
  obtains s2 s3 a b where "IOAPIC_init (madt B) s = Some (Inr s2)" and "LAPIC_init (fb B (Splash 50) s2) = Inr s3"
    and "same_kernel ((set_tables (put_all (apics s, 0) (madt_ioapics (madt B) (mem s) as))
       (put_all (iso s, 0) (madt_isos (madt B) (mem s) as)) s)\<lparr>msr := a, mmio := b\<rparr>) s3"
proof -
  let ?t = "set_tables (put_all (apics s, 0) (madt_ioapics (madt B) (mem s) as)) (put_all (iso s, 0) (madt_isos (madt B) (mem s) as)) s"
  obtain s2 sel where s2: "IOAPIC_init (madt B) s = Some (Inr s2)" "pt_wf s2" "hhdm_addr s2 = hhdm_addr s"
      "free_ahead s \<le> free_ahead s2 + 3 * length (madt_ioapics (madt B) (mem s) as)" "paging_state.more s2 = paging_state.more (?t\<lparr>io_select := sel\<rparr>)"
    using room by (auto intro: IOAPIC_init_ok [OF ok wf])
  let ?s2 = "fb B (Splash 50) s2"
  have "pt_wf ?s2" "3 \<le> free_ahead ?s2" using s2(2,4) room fb_tables [OF q] by auto
  then obtain s3 a b where s3: "LAPIC_init ?s2 = Inr s3" "hhdm_addr s3 = hhdm_addr ?s2"
      "paging_state.more s3 = paging_state.more (?s2\<lparr>msr := a, mmio := b\<rparr>)" by (rule LAPIC_init_ok)
  have 2: "same_kernel (?t\<lparr>io_select := sel\<rparr>) s2" using s2(3,5) by (intro more_same) simp_all
  have 3: "same_kernel (?s2\<lparr>msr := a, mmio := b\<rparr>) s3" using s3(2,3) by (intro more_same) simp_all
  have "same_kernel (?t\<lparr>msr := a, mmio := b\<rparr>) s3"
    using 2 3 fb_same [OF q, of s2 "Splash 50"] by (simp add: same_kernel_def same_controllers_def)
  with s2(1) s3(1) show thesis by (rule that)
qed

text \<open>
  (C14) The devices come up. Let the firmware's table be one whose entries lie outside the memory the frames come
  from and whose chain of lengths reaches its end, with at most 24 controllers and 24 overrides, one of the controllers
  covering the timer's interrupt; let the page tables be well formed with three free frames for each controller and for
  the local one. Then the second part of the boot returns with the interrupt that makes 600 timer interrupts, the 100, 200
  and 300 ms it sleeps, whatever other interrupts come between. The interval timer runs at 1000 Hz and is the active
  timer; the redirection entry of its line, at the first controller that covers it, leads unmasked to vector 32 of this
  processor with the override's polarity and trigger mode; the gate of vector 32 leads to its stub, the timer handler
  serves the requests 0 and 32 and is what the dispatcher runs, before the end of interrupt, and every other gate
  and handler is as it was. With no task made by then the scheduler starts none and the kernel idles.
\<close>

theorem setup_devices_returns:
  assumes q: "fb_quiet B" and s1: "s1 = before_controllers B s"
    and ok: "madt_ok (madt B) s1 as" and wf: "pt_wf s1"
    and ios: "ios = madt_ioapics (madt B) (mem s1) as" and isos: "isos = madt_isos (madt B) (mem s1) as"
    and room: "3 * (length ios + 1) \<le> free_ahead s1" and route: "route_to 0 ios isos (io_regs s1) (hhdm_addr s1) j"
    and ticks: "unat (ticks_since_boot s1) + 600 < 2 ^ 64" and ev: "600 \<le> timer_irqs ev"
  shows "\<exists>used rest s'. setup_devices B ev s = Some (Inr (rest, s')) \<and> ev = used @ rest \<and> timer_irqs used = 600 \<and>
     ticks_since_boot s' = ticks_since_boot s1 + 600 \<and> active_timer s' = T_PIT \<and> pit_frequency s' = 1000 \<and>
     decode_entry (io_regs s' (hhdm_addr s1 + ucast (address (ios ! j))) (route_reg 0 (ios ! j) isos))
         (io_regs s' (hhdm_addr s1 + ucast (address (ios ! j))) (route_reg 0 (ios ! j) isos + 1)) =
       (0x20, 0, 0, of_bool (fst (pol_trig (override_for 0 isos))), of_bool (snd (pol_trig (override_for 0 isos))), 0, ucast (LAPIC_id s')) \<and>
     irq_handlers s' = (irq_handlers s1)(0x20 \<mapsto> Fn_Timer_Handle, 0 \<mapsto> Fn_Timer_Handle) \<and>
     idt s' = (idt s1)(0x20 := gate_with (isr_handlers s1 0x20) 0x08 INT_GATE IST_IRQ) \<and>
     (\<forall>call frame. f_error frame = 0x20 \<longrightarrow> irq_handler call frame s' = Inr (LAPIC_eoi (Timer_Handle s'))) \<and>
     (pcount s1 = 0 \<longrightarrow> start_scheduler s' = Some (None, s'))"
proof -
  obtain s2 s3 a b where s2: "IOAPIC_init (madt B) s1 = Some (Inr s2)" and s3: "LAPIC_init (fb B (Splash 50) s2) = Inr s3"
      and k3: "same_kernel ((set_tables (put_all (apics s1, 0) ios) (put_all (iso s1, 0) isos) s1)\<lparr>msr := a, mmio := b\<rparr>) s3"
    using room unfolding ios isos by (rule controllers_up [OF q ok wf])
  let ?s3 = "fb B (Splash 55) s3" and ?s4 = "fb B (Splash 60) (IRQ_init (fb B (Splash 55) s3))"
  have k3': "same_kernel ((set_tables (put_all (apics s1, 0) ios) (put_all (iso s1, 0) isos) s1)\<lparr>msr := a, mmio := b\<rparr>) ?s3"
    by (rule same_kernel_trans [OF k3 fb_same [OF q]])
  have "length ios \<le> 24" "length isos \<le> 24" using ok ios isos by (simp_all add: madt_ok_def)
  then have hold: "arrays_hold ios isos ?s3"
    using k3' by (rule put_all_arrays)
  have f3: "io_regs ?s3 = io_regs s1" "hhdm_addr ?s3 = hhdm_addr s1" "ticks_since_boot ?s3 = ticks_since_boot s1" "irq_handlers ?s3 = irq_handlers s1"
      "idt ?s3 = idt s1" "isr_handlers ?s3 = isr_handlers s1" "pcount ?s3 = pcount s1"
    using k3' by (simp_all add: same_kernel_def same_controllers_def set_tables_def)
  note entry = IRQ_init_route [OF hold, unfolded f3(1,2), OF route]
  have k4: "same_kernel (IRQ_init ?s3) ?s4" by (rule fb_same [OF q])
  obtain s5 where s5: "Timer_init ?s4 = Inr (True, s5)" "active_timer s5 = T_PIT" "pit_frequency s5 = 1000" "ticks_since_boot s5 = ticks_since_boot ?s4"
     "irq_handlers s5 = irq_handlers ?s4" "idt s5 = idt ?s4" "isr_handlers s5 = isr_handlers ?s4" "pcount s5 = pcount ?s4" "same_controllers ?s4 s5"
    using Timer_init_state [of ?s4] by blast
  have t: "ticks_since_boot s5 = ticks_since_boot s1" using s5(4) k4 f3(3) IRQ_init_state [of ?s3] by (simp add: same_kernel_def)
  obtain used rest s' where r: "then_do (sleeping 100 ev s5) (\<lambda>(ev, s). then_do (sleeping 200 ev s) (\<lambda>(ev, s).
       then_do (sleeping 300 ev (fb B (Splash 75) s)) (\<lambda>(ev, s). Some (Inr (ev, fb B (Splash 100) (ACPI_load (fb B (Splash 90) s))))))) = Some (Inr (rest, s'))"
     "ev = used @ rest" "timer_irqs used = 600" "same_kernel (s5\<lparr>ticks_since_boot := ticks_since_boot s5 + 600\<rparr>) s'"
    using three_sleeps [OF q s5(2,3) _ ev] t ticks by auto
  have run: "setup_devices B ev s = Some (Inr (rest, s'))"
    using s2 s3 s5(1) r(1) unfolding s1 before_controllers_def by (simp add: setup_devices_def plain_def)
  have c: "same_controllers (IRQ_init ?s3) s'" using k4 s5(9) r(4) by (simp add: same_kernel_def same_controllers_def)
  have regs: "io_regs s' = io_regs (IRQ_init ?s3)" "LAPIC_id s' = LAPIC_id ?s3"
    using c same_controllers_id [OF c] IRQ_init_state [of ?s3] by (simp_all add: same_controllers_def)
  have h: "irq_handlers s' = (irq_handlers s1)(0x20 \<mapsto> Fn_Timer_Handle, 0 \<mapsto> Fn_Timer_Handle)"
    using r(4) s5(5) k4 f3(4) IRQ_init_state [of ?s3] by (simp add: same_kernel_def)
  have d: "idt s' = (idt s1)(0x20 := gate_with (isr_handlers s1 0x20) 0x08 INT_GATE IST_IRQ)" "pcount s' = pcount s1"
    using r(4) s5(6,8) k4 f3(5-7) IRQ_init_state [of ?s3] by (simp_all add: same_kernel_def)
  have u: "active_timer s' = T_PIT" "pit_frequency s' = 1000" "ticks_since_boot s' = ticks_since_boot s1 + 600"
    using r(4) s5(2,3) t by (simp_all add: same_kernel_def)
  have i: "irq_handler call frame s' = Inr (LAPIC_eoi (Timer_Handle s'))" if "f_error frame = 0x20" for call frame
    using that h by (simp add: irq_handler_def run_irq_def)
  have st: "start_scheduler s' = Some (None, s')" if "pcount s1 = 0" using that d(2) by (simp add: start_scheduler_def)
  show ?thesis
    by (intro exI [of _ used] exI [of _ rest] exI [of _ s'] conjI run r(2,3) u h d(1) allI impI i st) (simp_all add: entry [folded regs])
qed

section \<open>Witness\<close>

definition ex_boot :: acpi_state where "ex_boot = ex_acpi\<lparr>mem := (\<lambda>_. 0)\<rparr>"

definition ex_B :: "acpi_state boot_env" where
  "ex_B = \<lparr>echo = 0xAE, responses = \<lparr>info_response = None, memmap_response = None, hhdm_response = None, kernaddr_response = None,
       fb_response = 0, kernel_file_response = None, rsdp_response = None\<rparr>,
     syms = ex_syms, linker = ex_linker, image = \<lparr>symtab = [], strtab = 0, is_func = (\<lambda>_. True)\<rparr>, cpuid_of = (\<lambda>_ _. (0, 0, 0, 0)), uacpi_init = (\<lambda>_ s. (True, s)),
     madt = ex_abi, fb = (\<lambda>_ s. s)\<rparr>"

lemmas ex_chain = ex_boot_def ex_acpi_def ex_symbols_def ex_ioapic_def ex_lapic_def ex_timer_def ex_desc_def ex_heap_def ex_paging_def ex_frames_def
  frame_state.defs paging_state.defs heap_state.defs task_state.defs desc_state.defs timer_state.defs lapic_state.defs ioapic_state.defs
  symbol_state.defs irq_state.defs acpi_state.defs

lemma ex_boot_sel [simp]:
  "mem ex_boot = (\<lambda>_. 0)" "hhdm_addr ex_boot = 0xffff800000000000" "pml4 ex_boot = 0xffff800000100000"
  "frames ex_boot = (\<lambda>k. k < 2)" "latest_frame ex_boot = 2" "available_frames ex_boot = 64"
  "base_addr ex_boot = 0xffff800000100000" "ticks_since_boot ex_boot = 5" "pcount ex_boot = 0" "msr ex_boot = (\<lambda>_. 0xfee00900)"
  by (simp_all add: ex_chain)

text \<open>A table with one controller and an override that sends the timer's interrupt to its line 2.\<close>

definition ex_madt :: memory where
  "ex_madt = store32 (store8 (store8 (store32 (store32 (store8 (store8 (store32 (\<lambda>_. 0) 0x1004 66)
     0x102c 1) 0x102d 12) 0x1030 0xfec00000) 0x1034 0) 0x1038 2) 0x1039 10) 0x103c 2"

definition ex_devices :: acpi_state where "ex_devices = ex_boot\<lparr>mem := ex_madt\<rparr>"

lemma ex_madt_low: "x - 0xffff800000100000 < FRAME_SIZE \<Longrightarrow> ex_madt x = 0"
  unfolding ex_madt_def store32_def store8_def by (auto simp: word_less_nat_alt word_le_nat_alt unat_sub_if' split: if_splits)

lemma ex_abi_fixed:
  assumes "{unat (a :: u64)..<unat a + 12} \<inter> R = {}" and "unat a + 12 \<le> 2 ^ 64"
  shows "madt_fixed ex_abi R [a]"
proof -
  have off: "unat (a + k) = unat a + unat k" if "k < 12" for k using that assms(2) by (intro unat_offset) (simp add: word_less_nat_alt)
  have byte: "m' (a + k) = m (a + k)" if "agree_on m m' (- R)" "k < 12" for m m' k
  proof -
    have "unat (a + k) \<in> {unat a..<unat a + 12}" using off [OF that(2)] that(2) by (simp add: word_less_nat_alt)
    then show ?thesis using that(1) assms(1) by (auto simp: agree_on_def)
  qed
  have word: "load32 m' (a + k) = load32 m (a + k)" if "agree_on m m' (- R)" "k \<le> 8" for m m' k
  proof (rule load32_on)
    have "k < 12" using that(2) by (simp add: word_less_nat_alt word_le_nat_alt)
    note u = off [OF this]
    have "{unat (a + k)..<unat (a + k) + 4} \<subseteq> {unat a..<unat a + 12}" using u that(2) by (simp add: word_le_nat_alt)
    then show "agree_on m m' {unat (a + k)..<unat (a + k) + 4}" using assms(1) by (intro agree_on_mono [OF that(1)]) blast
    show "unat (a + k) + 4 \<le> 2 ^ 64" using u that(2) assms(2) by (simp add: word_le_nat_alt)
  qed
  show ?thesis unfolding madt_fixed_def
  proof (intro allI impI)
    fix m m' :: memory
    assume on: "agree_on m m' (- R)"
    have "m' a = m a" "m' (a + 1) = m (a + 1)" "m' (a + 3) = m (a + 3)" "m' (a + 8) = m (a + 8)" "m' (a + 9) = m (a + 9)"
        "load32 m' (a + 4) = load32 m (a + 4)" "load32 m' (a + 8) = load32 m (a + 8)"
      using byte [OF on, of 0] byte [OF on, of 1] byte [OF on, of 3] byte [OF on, of 8] byte [OF on, of 9] word [OF on, of 4] word [OF on, of 8]
      by simp_all
    then show "\<forall>x \<in> set [a]. entry_type ex_abi m' x = entry_type ex_abi m x \<and> entry_length ex_abi m' x = entry_length ex_abi m x \<and>
        ioapic_of ex_abi m' x = ioapic_of ex_abi m x \<and> iso_of ex_abi m' x = iso_of ex_abi m x"
      by (simp add: ex_abi_def)
  qed
qed

lemma ex_table:
  "load32 ex_madt 0x1004 = 66" "ex_madt 0x102c = 1" "ex_madt 0x102d = 12" "ex_madt 0x1038 = 2" "ex_madt 0x1039 = 10"
  "load32 ex_madt 0x1030 = 0xfec00000" "load32 ex_madt 0x1034 = 0" "ex_madt 0x103b = 0" "load32 ex_madt 0x103c = 2" "ex_madt 0x1040 = 0" "ex_madt 0x1041 = 0"
  by (simp_all add: ex_madt_def mem_simps apart_def one_le_u64)

lemma ex_lists:
  "madt_ioapics ex_abi ex_madt [0x102c, 0x1038] = [\<lparr>address = 0xfec00000, gsi_base = 0\<rparr>]"
  "madt_isos ex_abi ex_madt [0x102c, 0x1038] = [\<lparr>source = 0, gsi = 2, flags = 0\<rparr>]"
  by (simp_all add: madt_ioapics_def madt_isos_def ex_abi_def ex_table)

lemma ex_devices_ok: "madt_ok ex_abi ex_devices [0x102c, 0x1038]"
proof -
  have "madt_fixed ex_abi (frame_region ex_devices) [a]" if "a \<in> {0x102c, 0x1038}" for a
    by (rule ex_abi_fixed) (use that in \<open>auto simp: frame_region_def ex_devices_def\<close>)
  then have "madt_fixed ex_abi (frame_region ex_devices) [0x102c, 0x1038]" by (simp add: madt_fixed_def)
  moreover have "madt_table ex_abi = Some 0x1000" "entries_at ex_abi 0x1000 = 0x102c" "hdr_length ex_abi ex_madt 0x1000 = 66" "sizeof_madt ex_abi = 44"
      "entry_length ex_abi ex_madt 0x102c = 12" "entry_length ex_abi ex_madt 0x1038 = 10"
    by (simp_all add: ex_abi_def ex_table)
  ultimately show ?thesis by (simp add: madt_ok_def ex_lists ex_devices_def)
qed

lemma ex_devices_wf: "pt_wf ex_devices" "free_ahead ex_devices = 62"
proof -
  have "frame_addr ex_devices 0 = pml4 ex_devices" by (simp add: frame_addr_def ex_devices_def)
  then have "pml4 ex_devices \<in> taken ex_devices" unfolding taken_def by (intro image_eqI [of _ _ 0]) (simp_all add: ex_devices_def)
  moreover have "frame_wf ex_devices" "phys_ok ex_devices" by (simp_all add: frame_wf_def phys_ok_def ex_devices_def)
  moreover have "load64 ex_madt (slot 0xffff800000100000 i) = 0" if "i < 512" for i
    using load_slot_agree [of "\<lambda>_. 0" ex_madt "0xffff800000100000" i] that ex_madt_low by (simp add: agree_def)
  ultimately show "pt_wf ex_devices" using empty_tables(1) [of ex_devices] by (simp add: ex_devices_def)
  show "free_ahead ex_devices = 62" using card_word_range [of "2 :: u32" 64] by (simp add: free_ahead_def not_less conj_commute ex_devices_def)
qed

theorem setup_devices_returns_witness:
  "\<exists>rest s'. setup_devices ex_B (replicate 700 Timer_irq) ex_devices = Some (Inr (rest, s')) \<and> ticks_since_boot s' = 605 \<and>
     pit_frequency s' = 1000 \<and> fst (decode_entry (io_regs s' 0xffff8000fec00000 0x14) (io_regs s' 0xffff8000fec00000 0x15)) = 0x20 \<and>
     start_scheduler s' = Some (None, s')"
proof -
  let ?s1 = "PIC_disable (ex_devices\<lparr>acpi_initialized := True\<rparr>)"
  have s1: "before_controllers ex_B ex_devices = ?s1"
    by (simp add: before_controllers_def ex_B_def SSE_enable_def ACPI_init_def)
  have f: "mem ?s1 = ex_madt" "hhdm_addr ?s1 = 0xffff800000000000" "ticks_since_boot ?s1 = 5" "pcount ?s1 = 0" "madt ex_B = ex_abi"
      "io_regs ?s1 = (\<lambda>_ r. if r = 1 then 0x170000 else 0)" "free_ahead ?s1 = free_ahead ex_devices" "pt_wf ?s1 = pt_wf ex_devices"
      "frame_region ?s1 = frame_region ex_devices"
    by (simp_all add: PIC_disable_def outb_def Let_def ex_devices_def ex_B_def free_ahead_def pt_wf_def frame_wf_def phys_ok_def taken_def
        frame_addr_def frame_region_def) (simp add: ex_chain)
  have q: "fb_quiet ex_B" by (simp add: ex_B_def fb_quiet_def)
  have ok: "madt_ok (madt ex_B) ?s1 [0x102c, 0x1038]"
    using ex_devices_ok f by (simp add: madt_ok_def ex_devices_def)
  have ev: "600 \<le> timer_irqs (replicate 700 Timer_irq)" by (simp add: timer_irqs_def)
  have r: "route_to 0 [\<lparr>address = 0xfec00000, gsi_base = 0\<rparr>] [\<lparr>source = 0, gsi = 2, flags = 0\<rparr>] (io_regs ?s1) (hhdm_addr ?s1) 0"
    by (simp add: route_to_def gsi_for_def override_for_def covers_def f)
  have wf: "pt_wf ?s1" using f(8) ex_devices_wf(1) by simp
  from setup_devices_returns [OF q s1 [symmetric] ok wf, unfolded f(1,5) ex_lists, OF refl refl _ r _ ev] f(2-4,7) ex_devices_wf(2)
  show ?thesis by (auto simp: route_reg_def gsi_for_def override_for_def)
qed

end
