(* ===== verification/Startup.thy ===== *)
theory Startup
  imports Boot
begin

unbundle bit_operations_syntax

text \<open>
  The first part of the boot, \<open>setup_core\<close>, as a whole: with enough frames it returns, with the frame allocator,
  the heap and the symbol table in order, the exception gates loaded and paging on.
\<close>

section \<open>The interrupt stacks take their frames\<close>

lemma unat_add_small: "unat (k :: u32) + n < 2 ^ 32 \<Longrightarrow> unat (k + of_nat n) = unat k + n"
  by (simp add: unat_word_ariths unsigned_of_nat take_bit_nat_eq_self)

text \<open>Four frames more: the frontier moves by at most four.\<close>

lemma allocs_frontier:
  assumes wf: "frame_wf s" and fr: "frontier s u" and room: "unat u + 4 \<le> unat (available_frames s)"
  obtains p fs l m u' where "Frame_allocs 4 s = (p, s\<lparr>frames := fs, latest_frame := l, mem := m\<rparr>)" and "p \<noteq> 0"
    and "frontier (s\<lparr>frames := fs, latest_frame := l, mem := m\<rparr>) u'" and "unat u' \<le> unat u + 4"
    and "frame_wf (s\<lparr>frames := fs, latest_frame := l, mem := m\<rparr>)"
proof -
  note found = that
  let ?l = "latest_frame s"
  have av: "unat (available_frames s) \<le> 2 ^ 20" and lu: "unat ?l \<le> unat u"
    using wf fr by (auto simp: frame_wf_def frontier_def word_le_nat_alt)
  have used: "frames s k" if "unat ?l \<le> unat k" "unat k < unat u" for k
    using fr that by (simp add: frontier_def word_le_nat_alt word_less_nat_alt)
  have free: "run_free (frames s) (unat u) (unat (available_frames s))"
    using fr by (simp add: frontier_def run_free_def word_le_nat_alt word_less_nat_alt)
  have l1: "unat (?l + 1) = Suc (unat ?l)" using lu room by (intro unat_inc [of _ "available_frames s"]) (simp add: word_less_nat_alt)
  have result: thesis if al: "Frame_allocs 4 s = (frame_addr s st, s\<lparr>frames := mark_frames (frames s) st 4, latest_frame := ?l + 1, mem := m\<rparr>)"
      and st: "unat st \<le> unat u" "unat u \<le> Suc (unat st)" "unat ?l \<le> unat st" "unat st = unat ?l \<or> unat st < unat u" for st m
  proof (rule found [OF al])
    have mark: "mark_frames (frames s) st 4 = (\<lambda>j. frames s j \<or> unat st \<le> unat j \<and> unat j < unat st + 4)"
      using st(1) room av by (intro mark_frames_eq) simp
    have u': "unat (st + of_nat 4) = unat st + 4" using st(1) room av by (intro unat_add_small) simp
    show "frame_addr s st \<noteq> 0" using wf st(1) room by (intro frame_addr_nonzero) (simp_all add: word_less_nat_alt)
    show "frontier (s\<lparr>frames := mark_frames (frames s) st 4, latest_frame := ?l + 1, mem := m\<rparr>) (st + of_nat 4)"
      using free used st room l1 unfolding frontier_def word_le_nat_alt word_less_nat_alt u' mark run_free_def by auto
    show "unat (st + of_nat 4) \<le> unat u + 4" using st(1) u' by simp
    show "frame_wf (s\<lparr>frames := mark_frames (frames s) st 4, latest_frame := ?l + 1, mem := m\<rparr>)"
      using wf l1 lu room by (simp add: frame_wf_def word_le_nat_alt)
  qed
  show thesis
  proof (cases "unat ?l = unat u")
    case True
    have "run_free (frames s) (unat ?l) (unat ?l + unat (4 :: u64))" by (rule run_free_mono [OF free]) (use True room in simp_all)
    from Frame_allocs_free_run [OF this] show thesis using result [of ?l] True room by simp
  next
    case False
    define d where "d = unat u - Suc (unat ?l)"
    have d: "unat ?l + Suc d = unat u" using False lu by (simp add: d_def)
    have st: "unat (?l + of_nat d) = unat ?l + d" using d room av by (intro unat_add_small) simp
    have 1: "\<forall>k. unat ?l \<le> unat k \<and> unat k < unat ?l + Suc d \<longrightarrow> frames s k" using used d by simp
    have 2: "run_free (frames s) (unat ?l + Suc d) (unat ?l + d + unat (4 :: u64))"
      by (rule run_free_mono [OF free]) (use d room in simp_all)
    from Frame_allocs_after_used [OF 1 2] show thesis using result [of "?l + of_nat d"] d st room by simp
  qed
qed

section \<open>What the steps of the boot leave alone\<close>

text \<open>The fields that the steps before and after a given one read.\<close>

definition boot_fields :: "'a symbol_state_scheme \<Rightarrow> _" where
  "boot_fields s = ((hhdm_addr s, memmap_entries s, kern_address_phys s, kern_address_virt s), (available_frames s, base_addr s),
     heap s, isr_handlers s, symbol_table s)"

definition frame_fields :: "'a frame_state_scheme \<Rightarrow> _" where
  "frame_fields s = (frames s, latest_frame s, available_frames s, base_addr s)"

lemma init_stacks_frontier:
  "frame_wf s \<Longrightarrow> frontier s u \<Longrightarrow> unat u + 4 * length js \<le> unat (available_frames s) \<Longrightarrow>
   \<exists>u'. frontier (init_stacks_loop js s) u' \<and> unat u' \<le> unat u + 4 * length js \<and> frame_wf (init_stacks_loop js s) \<and>
     boot_fields (init_stacks_loop js s) = boot_fields (s :: 'a symbol_state_scheme)"
proof (induction js arbitrary: s u)
  case (Cons j js)
  have four: "IST_STACK_SIZE div FRAME_SIZE = 4" by (simp add: IST_STACK_SIZE_def)
  obtain p fs l m u1 where al: "Frame_allocs 4 s = (p, s\<lparr>frames := fs, latest_frame := l, mem := m\<rparr>)" "p \<noteq> 0"
      and u1: "frontier (s\<lparr>frames := fs, latest_frame := l, mem := m\<rparr>) u1" "unat u1 \<le> unat u + 4"
        "frame_wf (s\<lparr>frames := fs, latest_frame := l, mem := m\<rparr>)"
    by (rule allocs_frontier [OF Cons.prems(1,2)]) (use Cons.prems(3) in simp_all)
  define t where "t = s\<lparr>frames := fs, latest_frame := l, mem := m, ist_stacks := (ist_stacks s)(j := p),
    tss := set_ist j (p + IST_STACK_SIZE) (tss s)\<rparr>"
  have step: "init_stacks_loop (j # js) s = init_stacks_loop js t" using al by (simp add: four Let_def t_def)
  have "frame_wf t" "frontier t u1" using u1 by (simp_all add: t_def frame_wf_def frontier_def)
  moreover have "available_frames t = available_frames s" "boot_fields t = boot_fields s" by (simp_all add: t_def boot_fields_def)
  ultimately show ?case using Cons.IH [of t u1] Cons.prems(3) u1(2) unfolding step by auto
qed auto

text \<open>The driver of the framebuffer, the serial line and the descriptor table.\<close>

definition keeps_all :: "'a acpi_state_scheme \<Rightarrow> 'a acpi_state_scheme \<Rightarrow> bool" where
  "keeps_all s s' \<longleftrightarrow> boot_fields s' = boot_fields s \<and> frame_fields s' = frame_fields s"

lemma keeps_all_trans: "keeps_all s s' \<Longrightarrow> keeps_all s' s'' \<Longrightarrow> keeps_all s s''"
  by (simp add: keeps_all_def)

lemma fb_keeps: "fb_quiet B \<Longrightarrow> keeps_all s (fb B c s)"
  unfolding fb_quiet_def keeps_all_def boot_fields_def frame_fields_def by (elim allE [of _ c] allE [of _ s] exE) simp

lemma fb_state:
  assumes "fb_quiet B"
  obtains e where "fb B c s = s\<lparr>acpi_state.more := e\<rparr>"
  using assms unfolding fb_quiet_def by blast

lemma GDT_init_keeps: "keeps_all s (GDT_init K s)"
  by (simp add: keeps_all_def boot_fields_def frame_fields_def GDT_init_def load_gdt_def reload_cs_segments_def TSS_init_def load_tss_def Let_def)

lemma UART_init_keeps:
  assumes "c = 0xAE"
  obtains s' where "UART_init c s = Some s'" and "keeps_all s s'"
  using assms by (simp add: UART_init_def Let_def keeps_all_def boot_fields_def frame_fields_def outb_def)

lemma frame_fields_cong:
  assumes "frame_fields s' = frame_fields s"
  shows "frame_wf s' = frame_wf s" and "frontier s' u = frontier s u" and "free_ahead s' = free_ahead s"
    and "ahead_free s' = ahead_free s"
  using assms by (simp_all add: frame_fields_def frame_wf_def frontier_def free_ahead_def ahead_free_def)

section \<open>The stages\<close>

text \<open>The kernel as it is loaded: nothing allocated, the stubs in their table.\<close>

definition loaded :: "desc_syms \<Rightarrow> 'a symbol_state_scheme \<Rightarrow> bool" where
  "loaded K s \<longleftrightarrow> latest_frame s = 0 \<and> heap s = 0 \<and> symbol_table s = [] \<and>
     isr_handlers s = isr_initial K"

text \<open>
  The memory of the bitmap that \<open>Mem::Frame::init\<close> does not clear: it clears a byte for each frame of the second
  region, \<open>b\<close>, and the allocator reads a byte for each frame of the first, \<open>a\<close>.
\<close>

definition rest_clear :: "limine_memmap_entry \<Rightarrow> limine_memmap_entry \<Rightarrow> 'a frame_state_scheme \<Rightarrow> bool" where
  "rest_clear a b s \<longleftrightarrow> (\<forall>k. unat (me_length b) div 4096 \<le> unat k \<and> unat k < unat (me_length a) div 4096 \<longrightarrow> \<not> frames s k)"

text \<open>The region the frames are taken from.\<close>

definition region_ok :: "limine_memmap_entry \<Rightarrow> bool" where
  "region_ok a \<longleftrightarrow> entry_ok a \<and> unat (me_length a) div 4096 \<le> 2 ^ 20"

lemma gather_stage:
  assumes r: "responses B = \<lparr>info_response = Some (nm, ver), memmap_response = Some entries, hhdm_response = Some hhdm,
      kernaddr_response = Some (vb, pb), fb_response = fbr, kernel_file_response = Some file, rsdp_response = Some rsdp\<rparr>"
    and ld: "loaded K s"
  obtains s' where "gather (responses B) s = Inr s'" and "memmap_entries s' = exchange_outer memmap_swap 0 entries"
    and "hhdm_addr s' = hhdm" and "kern_address_virt s' = vb" and "kern_address_phys s' = pb" and "loaded K s'"
    and "fb_info s' = fbr" and "frames s' = frames s"
  using r ld by (simp add: gather_def sort_memmap_def loaded_def)

lemma loaded_keeps: "keeps_all s s' \<Longrightarrow> loaded K s \<Longrightarrow> loaded K s'"
  by (simp add: keeps_all_def boot_fields_def frame_fields_def loaded_def)

lemma Frame_init_stage:
  assumes mm: "memmap_entries s = a # b # rest" and h: "hhdm_addr s = HHDM_BASE" and a: "region_ok a" and ld: "loaded K s" and rc: "rest_clear a b s"
  obtains s' where "Frame_init s = Inr s'" and "frame_wf s'" and "frontier s' 0" and "phys_ok s'"
    and "unat (available_frames s') = unat (me_length a) div 4096"
    and "unat (base_addr s') + 4096 * unat (available_frames s') < 2 ^ 64" and "base_addr s' - HHDM_BASE = me_base a"
    and "loaded K s'" and "memmap_entries s' = memmap_entries s" and "hhdm_addr s' = hhdm_addr s"
    and "kern_address_virt s' = kern_address_virt s" and "kern_address_phys s' = kern_address_phys s"
proof -
  have b: "unat (me_base a) + unat (me_length a) \<le> 2 ^ 46" "unat (me_base a) mod 4096 = 0"
      and n: "unat (me_length a) div 4096 \<le> 2 ^ 20" using a by (auto simp: region_ok_def entry_ok_def)
  have ub: "unat (HHDM_BASE + me_base a) = unat HHDM_BASE + unat (me_base a)" using b(1) by (intro unat_offset) simp
  have avail: "unat (ucast (me_length a div FRAME_SIZE) :: u32) = unat (me_length a) div 4096"
    using n by (simp add: unsigned_ucast_eq unat_div take_bit_nat_eq_self)
  have len: "4096 * (unat (me_length a) div 4096) \<le> unat (me_length a)" by simp
  let ?s = "s\<lparr>nframes := me_length b div FRAME_SIZE, frames := (\<lambda>i. if ucast i < me_length b div FRAME_SIZE then False else frames s i), base_addr := HHDM_BASE + me_base a,
    available_frames := ucast (me_length a div FRAME_SIZE)\<rparr>"
  have init: "Frame_init s = Inr ?s" using mm h ld by (simp add: Frame_init_def Let_def PHYS2VIRT_def loaded_def)
  have nz: "HHDM_BASE + me_base a \<noteq> 0"
  proof
    assume "HHDM_BASE + me_base a = 0"
    then have "unat (HHDM_BASE + me_base a) = 0" by simp
    then show False using ub by simp
  qed
  show thesis
  proof (rule that [OF init])
    show "frame_wf ?s" using n avail ub b(1) len nz ld by (simp add: frame_wf_def loaded_def)
    show "frontier ?s 0"
      using ld rc avail by (simp add: frontier_def loaded_def rest_clear_def ucast_less_u64_iff unat_div word_less_nat_alt)
    show "phys_ok ?s" using avail b len h by (simp add: phys_ok_def)
    show "unat (available_frames ?s) = unat (me_length a) div 4096" using avail by simp
    show "unat (base_addr ?s) + 4096 * unat (available_frames ?s) < 2 ^ 64" using avail ub b(1) len by simp
    show "base_addr ?s - HHDM_BASE = me_base a" by simp
  qed (use ld in \<open>simp_all add: loaded_def\<close>)
qed

text \<open>The registers and tables of the processor, which the symbol table does not touch.\<close>

definition machine :: "'a desc_state_scheme \<Rightarrow> _" where
  "machine s = (hhdm_addr s, pml4 s, cr0 s, cr3 s, idt s, idtr_loaded s, interrupts s)"

lemma symbols_loop_machine: "symbols_loop E ys s = Some (Inr s') \<Longrightarrow> machine s' = machine s"
proof (induction ys arbitrary: s)
  case (Cons y ys)
  show ?case
  proof (cases "st_name y = 0 \<or> st_info y = 0 \<or> \<not> is_func E (st_info y)")
    case False
    then obtain p s1 m where km: "kmalloc SYMBOL_SIZE s = Some (Inr (p, s1))"
        and rest: "symbols_loop E ys (s1\<lparr>mem := m, symbol_table := symbol_table s1 @ [p]\<rparr>) = Some (Inr s')"
      using Cons.prems by (auto simp: then_do_def Let_def split: option.splits sum.splits if_splits)
    have "machine s1 = machine s" using kmalloc_rest [OF km] by (cases s; cases s1) (simp add: heap_rest_def machine_def)
    then show ?thesis using Cons.IH [OF rest] by (simp add: machine_def)
  qed (use Cons in simp)
qed simp

lemma init_symbols_machine: "init_symbols E s = Some (Inr s') \<Longrightarrow> machine s' = machine s"
  by (auto simp: init_symbols_def then_do_def sort_symbol_table_def machine_def
      dest!: symbols_loop_machine split: option.splits sum.splits)

text \<open>From the serial line to the frame allocator.\<close>

definition core_tables :: "linker_symbols \<Rightarrow> u64 \<Rightarrow> u64 \<Rightarrow> limine_memmap_entry list \<Rightarrow> u16 list set" where
  "core_tables ld vb pb es = (\<Union>(p, v, f) \<in> set (memory_requests HHDM_BASE es @ kernel_requests ld pb vb). table_paths v)"

lemma frames_stage:
  assumes quiet: "fb_quiet B" and echo: "echo B = 0xAE"
    and r: "responses B = \<lparr>info_response = Some (nm, ver), memmap_response = Some entries, hhdm_response = Some HHDM_BASE,
      kernaddr_response = Some (vb, pb), fb_response = fbr, kernel_file_response = Some file, rsdp_response = Some rsdp\<rparr>"
    and fbr: "fbr \<noteq> 0"
    and mm: "exchange_outer memmap_swap 0 entries = a # b # rest" and a: "region_ok a" and ld: "loaded (syms B) s" and rc: "rest_clear a b s"
  obtains s' where "setup_core B s =
       then_do (plain (fb B (Splash 14) \<circ> TSS_init_stacks \<circ> fb B (Splash 8)) s') (\<lambda>s.
       then_do (IDT_init (syms B) s) (\<lambda>s.
       then_do (Paging_init (linker B) (fb B (Splash 20) s)) (\<lambda>s.
       then_do (init_symbols (image B) (fb B (Splash 25) s)) (\<lambda>s. Some (Inr (fb B (Splash 30) s))))))"
    and "frame_wf s'" and "frontier s' 0" and "phys_ok s'" and "unat (available_frames s') = unat (me_length a) div 4096"
    and "unat (base_addr s') + 4096 * unat (available_frames s') < 2 ^ 64" and "loaded (syms B) s'"
    and "boot_tables (linker B) s' = core_tables (linker B) vb pb (a # b # rest)"
proof -
  obtain s1 where s1: "UART_init (echo B) s = Some s1" "keeps_all s s1" by (rule UART_init_keeps [OF echo])
  obtain s2 where s2: "gather (responses B) s1 = Inr s2" "memmap_entries s2 = a # b # rest" "hhdm_addr s2 = HHDM_BASE"
      "kern_address_virt s2 = vb" "kern_address_phys s2 = pb" "loaded (syms B) s2" "fb_info s2 = fbr" "frames s2 = frames s1"
    using gather_stage [OF r loaded_keeps [OF s1(2) ld]] mm by metis
  let ?s3 = "fb B (Splash 0) (fb B Tty_init (fb B Gfx_init s2))"
  let ?s4 = "fb B (Splash 5) (GDT_init (syms B) ?s3)"
  obtain e where e: "fb B Gfx_init s2 = s2\<lparr>acpi_state.more := e\<rparr>" by (rule fb_state [OF quiet])
  then have info: "fb_info (fb B Gfx_init s2) \<noteq> 0" using s2(7) fbr by simp
  note fbk = fb_keeps [OF quiet]
  have k: "keeps_all s2 ?s4"
    by (rule keeps_all_trans [OF keeps_all_trans [OF keeps_all_trans [OF keeps_all_trans [OF fbk fbk] fbk] GDT_init_keeps] fbk])
  then have f4: "memmap_entries ?s4 = a # b # rest" "hhdm_addr ?s4 = HHDM_BASE" "kern_address_virt ?s4 = vb" "kern_address_phys ?s4 = pb"
    using s2 by (simp_all add: keeps_all_def boot_fields_def)
  have rc4: "rest_clear a b ?s4" using rc k s1(2) s2(8) by (simp add: keeps_all_def frame_fields_def rest_clear_def)
  obtain s5 where s5: "Frame_init ?s4 = Inr s5" "frame_wf s5" "frontier s5 0" "phys_ok s5"
      "unat (available_frames s5) = unat (me_length a) div 4096" "unat (base_addr s5) + 4096 * unat (available_frames s5) < 2 ^ 64"
      "loaded (syms B) s5" "memmap_entries s5 = memmap_entries ?s4" "hhdm_addr s5 = hhdm_addr ?s4"
      "kern_address_virt s5 = kern_address_virt ?s4" "kern_address_phys s5 = kern_address_phys ?s4"
    by (rule Frame_init_stage [OF f4(1,2) a loaded_keeps [OF k s2(6)] rc4])
  show thesis
  proof (rule that [OF _ s5(2-7)])
    show "boot_tables (linker B) s5 = core_tables (linker B) vb pb (a # b # rest)"
      using s5(8-11) f4 by (simp add: boot_tables_def core_tables_def boot_requests_def)
  qed (use s1(1) s2(1) s5(1) info in \<open>simp add: setup_core_def plain_def\<close>)
qed

text \<open>From there to the page tables.\<close>

lemma paging_stage:
  assumes quiet: "fb_quiet B" and wf: "frame_wf s" "frontier s 0" "phys_ok s" and ld: "loaded (syms B) s"
    and top: "unat (base_addr s) + 4096 * unat (available_frames s) < 2 ^ 64"
    and isr: "\<forall>i. i < 32 \<or> i = 0xF0 \<or> i = 0xFF \<longrightarrow> isr_at (syms B) i \<noteq> 0"
    and room: "29 + card (boot_tables (linker B) s) + k \<le> unat (available_frames s)"
  obtains s6 s7 s' where "plain (fb B (Splash 14) \<circ> TSS_init_stacks \<circ> fb B (Splash 8)) s = Some (Inr s6)"
    and "IDT_init (syms B) s6 = Some (Inr s7)" and "Paging_init (linker B) (fb B (Splash 20) s7) = Some (Inr s')"
    and "heap_rep s' {}" and "rooms_for k SYMBOL_SIZE s'" and "symbol_table s' = []" and "bit (cr0 s') 31"
    and "hhdm_addr s' + cr3 s' = pml4 s'" and "interrupts s'" and "idtr_loaded s' = (4095, idt_at (syms B))"
    and "\<forall>i. i < 32 \<or> i = 0xF0 \<or> i = 0xFF \<longrightarrow> gate_target (idt s' i) = isr_at (syms B) i"
proof -
  let ?t = "fb B (Splash 8) s"
  let ?u = "TSS_init_stacks ?t"
  define s6 where "s6 = fb B (Splash 14) ?u"
  have t: "keeps_all s ?t" "keeps_all ?u s6" unfolding s6_def by (rule fb_keeps [OF quiet])+
  have wft: "frame_wf ?t" "frontier ?t 0" and av: "available_frames ?t = available_frames s"
    using wf t(1) frame_fields_cong [of ?t s] by (simp_all add: keeps_all_def frame_fields_def)
  have "unat (0 :: u32) + 4 * length [1, 2, 3, 4, 5, 6, 7 :: nat] \<le> unat (available_frames ?t)" using room av by simp
  from init_stacks_frontier [OF wft this] obtain u where u: "frontier ?u u" "unat u \<le> 28" "frame_wf ?u" "boot_fields ?u = boot_fields ?t"
    unfolding TSS_init_stacks_def by auto
  have fr6: "frontier s6 u" "frame_wf s6" and b6: "boot_fields s6 = boot_fields s"
    using u t frame_fields_cong [of s6 ?u] by (simp_all add: keeps_all_def)
  have "isr_handlers s6 = isr_initial (syms B)" using b6 ld by (simp add: boot_fields_def loaded_def)
  then obtain h g where idt: "IDT_init (syms B) s6 = Some (Inr (s6\<lparr>idtr := (4095, idt_at (syms B)), isr_handlers := h, idt := g,
      idtr_loaded := (4095, idt_at (syms B)), interrupts := True\<rparr>))"
      and g: "\<forall>i. if i < 32 \<or> i = 0xF0 \<or> i = 0xFF then gate_target (g i) = isr_at (syms B) i \<and> selector (g i) = 8 \<and>
        ist (g i) = IST_EXCEPTION \<and> type_attr (g i) = 0x8E else g i = idt s6 i"
    by (rule IDT_init_ok [OF isr])
  define s7 where "s7 = s6\<lparr>idtr := (4095, idt_at (syms B)), isr_handlers := h, idt := g,
      idtr_loaded := (4095, idt_at (syms B)), interrupts := True\<rparr>"
  obtain x where x: "fb B (Splash 20) s7 = s7\<lparr>acpi_state.more := x\<rparr>" by (rule fb_state [OF quiet])
  define s8 where "s8 = fb B (Splash 20) s7"
  have e: "s8 = s7\<lparr>acpi_state.more := x\<rparr>" using x by (simp add: s8_def)
  have fr: "frame_wf s8" "frontier s8 u" using fr6 by (simp_all add: e s7_def frame_wf_def frontier_def)
  have b: "hhdm_addr s8 = hhdm_addr s" "memmap_entries s8 = memmap_entries s" "kern_address_phys s8 = kern_address_phys s"
      "kern_address_virt s8 = kern_address_virt s" "available_frames s8 = available_frames s" "base_addr s8 = base_addr s"
      "heap s8 = 0" "symbol_table s8 = []" "idt s8 = g" "interrupts s8" "idtr_loaded s8 = (4095, idt_at (syms B))"
    using b6 ld by (simp_all add: e s7_def boot_fields_def loaded_def)
  have ph: "phys_ok s8" using wf(3) b by (simp add: phys_ok_def)
  have bt: "boot_tables (linker B) s8 = boot_tables (linker B) s" using b by (simp add: boot_tables_def boot_requests_def)
  have ahead: "free_ahead s8 = unat (available_frames s) - unat u" using free_ahead_frontier [OF fr(2)] b(5) by simp
  have ua: "u < available_frames s8" using u(2) room b(5) by (simp add: word_less_nat_alt)
  have "card (boot_tables (linker B) s8) < free_ahead s8" using room u(2) ahead bt by simp
  then obtain s' where p: "Paging_init (linker B) s8 = Some (Inr s')" "pt_wf s'" "hhdm_addr s' + cr3 s' = pml4 s'" "bit (cr0 s') 31"
      and left: "free_ahead s8 \<le> free_ahead s' + 1 + card (boot_tables (linker B) s8)" and kept: "frames_kept s8 s'"
      and af: "ahead_free s'"
    using Paging_init_returns [OF fr(1) ph, of "linker B" u thesis] fr(2) ua by blast
  have av': "available_frames s' = available_frames s" "base_addr s' = base_addr s" and more: "paging_state.more s' = paging_state.more s8"
    using kept b(5,6) by (simp_all add: frames_kept_def)
  have f': "heap s' = heap s8" "symbol_table s' = symbol_table s8" "idt s' = idt s8" "interrupts s' = interrupts s8"
      "idtr_loaded s' = idtr_loaded s8"
    using more by (cases s'; cases s8; simp)+
  have "frame_wf s'" using p(2) by (simp add: pt_wf_def)
  then have "heap_wf s' []" using f'(1) b(7) top av' by (simp add: heap_wf_def)
  then have rep: "heap_rep s' {}" by (auto simp: heap_rep_def)
  have "frontier s' (latest_frame s')" using af by (simp add: ahead_free_def)
  moreover have "k \<le> free_ahead s'" using left ahead bt room u(2) by simp
  ultimately have rooms: "rooms_for k SYMBOL_SIZE s'"
    using free_ahead_frontier [of s' "latest_frame s'"]
    by (auto simp: rooms_for_def SYMBOL_SIZE_def frontier_def run_free_def word_le_nat_alt word_less_nat_alt)
  show thesis
    by (rule that [of s6 s7 s', OF _ _ p(1) [unfolded s8_def] rep rooms]) (use p idt f' b g in \<open>simp_all add: plain_def s7_def s6_def\<close>)
qed

lemma driver_fields [simp]:
  "heap_rep (s\<lparr>acpi_state.more := x\<rparr>) L = heap_rep s L" "rooms_for k sz (s\<lparr>acpi_state.more := x\<rparr>) = rooms_for k sz s"
  "resolve_address addr (s\<lparr>acpi_state.more := x\<rparr>) = resolve_address addr s" "machine (s\<lparr>acpi_state.more := x\<rparr>) = machine s"
  by (simp_all add: heap_rep_def heap_wf_def frame_wf_def taken_def frame_addr_def rooms_for_def resolve_address_def machine_def)

section \<open>The core comes up\<close>

text \<open>
  (C10) The core of the kernel comes up. When the serial line answers, the bootloader has filled in its responses, the framebuffer's among them,
  the part of the bitmap that \<open>Mem::Frame::init\<close> leaves alone is clear, the image has at most 1024 function symbols and the first
  region of the sorted memory map has 29 frames (the interrupt stacks and the first level table), one for each further
  table the initial address space needs and one for each function symbol of the image, the first part of the boot
  returns: paging is on with the processor walking the new tables, the exception gates lead to their stubs and
  interrupts are enabled, the frame allocator and the heap are in order, and every function of the image is found in the symbol
  table at its start.
\<close>

theorem setup_core_returns:
  assumes quiet: "fb_quiet B" and echo: "echo B = 0xAE"
    and r: "responses B = \<lparr>info_response = Some (nm, ver), memmap_response = Some entries, hhdm_response = Some HHDM_BASE,
      kernaddr_response = Some (vb, pb), fb_response = fbr, kernel_file_response = Some file, rsdp_response = Some rsdp\<rparr>"
    and fbr: "fbr \<noteq> 0"
    and mm: "exchange_outer memmap_swap 0 entries = a # b # rest" and a: "region_ok a" and ld: "loaded (syms B) s" and rc: "rest_clear a b s"
    and isr: "\<forall>i. i < 32 \<or> i = 0xF0 \<or> i = 0xFF \<longrightarrow> isr_at (syms B) i \<noteq> 0"
    and room: "29 + card (core_tables (linker B) vb pb (a # b # rest)) + length (func_syms (image B) (symtab (image B)))
      \<le> unat (me_length a) div 4096"
    and n: "length (func_syms (image B) (symtab (image B))) \<le> MAX_SYMBOLS"
  shows "\<exists>s' L. setup_core B s = Some (Inr s') \<and> frame_wf s' \<and> heap_rep s' L \<and> bit (cr0 s') 31 \<and>
    hhdm_addr s' + cr3 s' = pml4 s' \<and> interrupts s' \<and> idtr_loaded s' = (4095, idt_at (syms B)) \<and>
    (\<forall>i. i < 32 \<or> i = 0xF0 \<or> i = 0xFF \<longrightarrow> gate_target (idt s' i) = isr_at (syms B) i) \<and>
    (\<forall>y \<in> set (func_syms (image B) (symtab (image B))).
       \<exists>e. resolve_address (st_value y) s' = (e, True) \<and> e_address (mem s') e = st_value y)"
proof -
  let ?fs = "func_syms (image B) (symtab (image B))"
  obtain s5 where c: "setup_core B s =
       then_do (plain (fb B (Splash 14) \<circ> TSS_init_stacks \<circ> fb B (Splash 8)) s5) (\<lambda>s.
       then_do (IDT_init (syms B) s) (\<lambda>s.
       then_do (Paging_init (linker B) (fb B (Splash 20) s)) (\<lambda>s.
       then_do (init_symbols (image B) (fb B (Splash 25) s)) (\<lambda>s. Some (Inr (fb B (Splash 30) s))))))"
      and s5: "frame_wf s5" "frontier s5 0" "phys_ok s5" "unat (available_frames s5) = unat (me_length a) div 4096"
        "unat (base_addr s5) + 4096 * unat (available_frames s5) < 2 ^ 64" "loaded (syms B) s5"
        "boot_tables (linker B) s5 = core_tables (linker B) vb pb (a # b # rest)"
    by (rule frames_stage [OF quiet echo r fbr mm a ld rc])
  have rm: "29 + card (boot_tables (linker B) s5) + length ?fs \<le> unat (available_frames s5)" using room s5(4,7) by simp
  obtain s6 s7 s8 where st: "plain (fb B (Splash 14) \<circ> TSS_init_stacks \<circ> fb B (Splash 8)) s5 = Some (Inr s6)"
      "IDT_init (syms B) s6 = Some (Inr s7)" "Paging_init (linker B) (fb B (Splash 20) s7) = Some (Inr s8)"
      and s8: "heap_rep s8 {}" "rooms_for (length ?fs) SYMBOL_SIZE s8" "symbol_table s8 = []"
      and m8: "bit (cr0 s8) 31" "hhdm_addr s8 + cr3 s8 = pml4 s8" "interrupts s8" "idtr_loaded s8 = (4095, idt_at (syms B))"
        "\<forall>i. i < 32 \<or> i = 0xF0 \<or> i = 0xFF \<longrightarrow> gate_target (idt s8 i) = isr_at (syms B) i"
    by (rule paging_stage [OF quiet s5(1-3,6,5) isr rm])
  obtain x where x: "fb B (Splash 25) s8 = s8\<lparr>acpi_state.more := x\<rparr>" by (rule fb_state [OF quiet])
  have h: "heap_rep (s8\<lparr>acpi_state.more := x\<rparr>) {}" "rooms_for (length ?fs) SYMBOL_SIZE (s8\<lparr>acpi_state.more := x\<rparr>)"
      "symbol_table (s8\<lparr>acpi_state.more := x\<rparr>) = []" using s8 by simp_all
  obtain s9 L where s9: "init_symbols (image B) (s8\<lparr>acpi_state.more := x\<rparr>) = Some (Inr s9)" "heap_rep s9 L"
      and res: "\<forall>addr e ex. resolve_address addr s9 = (e, ex) \<longrightarrow>
       (if \<forall>y \<in> set ?fs. addr < st_value y then e = 0
        else \<exists>y \<in> set ?fs. e_address (mem s9) e = st_value y \<and>
          e_name (mem s9) e = strtab (image B) + ucast (st_name y) \<and> e_size (mem s9) e = st_size y \<and>
          st_value y \<le> addr \<and> ex = (st_value y = addr) \<and>
          (\<forall>z \<in> set ?fs. st_value z \<le> addr \<longrightarrow> st_value z \<le> st_value y))"
    using init_symbols_ok [OF h(1,2) n h(3)] by blast
  have m9: "machine s9 = machine s8" using init_symbols_machine [OF s9(1)] by simp
  obtain z where z: "fb B (Splash 30) s9 = s9\<lparr>acpi_state.more := z\<rparr>" by (rule fb_state [OF quiet])
  have found: "\<exists>e. resolve_address (st_value y) s9 = (e, True) \<and> e_address (mem s9) e = st_value y" if y: "y \<in> set ?fs" for y
  proof -
    obtain e ex where e: "resolve_address (st_value y) s9 = (e, ex)" by fastforce
    have ne: "\<not> (\<forall>w \<in> set ?fs. st_value y < st_value w)" using y by (auto intro: bexI [of _ y])
    obtain w :: elf_sym where w: "e_address (mem s9) e = st_value w" "st_value w \<le> st_value y" "ex = (st_value w = st_value y)"
        "\<forall>z \<in> set ?fs. st_value z \<le> st_value y \<longrightarrow> st_value z \<le> st_value w"
      using mp [OF spec [OF spec [OF spec [OF res]]] e] unfolding if_not_P [OF ne] by blast
    have "st_value y \<le> st_value w" using w(4) y by simp
    then show ?thesis using e w(1-3) by auto
  qed
  have "setup_core B s = Some (Inr (s9\<lparr>acpi_state.more := z\<rparr>))" unfolding c using st x s9(1) z by simp
  moreover have "frame_wf s9" using s9(2) by (auto simp: heap_rep_def heap_wf_def)
  ultimately show ?thesis
    using s9(2) m8 m9 found
    by (intro exI [of _ "s9\<lparr>acpi_state.more := z\<rparr>"] exI [of _ L]) (simp add: machine_def frame_wf_def)
qed

section \<open>Witness\<close>

text \<open>64 frames of usable memory, a region for the bitmap, an image with two functions and three pages of kernel.\<close>

definition ex_entries :: "limine_memmap_entry list" where
  "ex_entries = [\<lparr>me_base = 0x100000, me_length = 0x40000, me_type = LIMINE_MEMMAP_USABLE\<rparr>,
     \<lparr>me_base = 0x200000, me_length = 0x1000, me_type = LIMINE_MEMMAP_OTHER 1\<rparr>]"

definition ex_core :: "acpi_state boot_env" where
  "ex_core = ex_B\<lparr>responses := \<lparr>info_response = Some (''Limine'', ''8''), memmap_response = Some ex_entries,
     hhdm_response = Some HHDM_BASE, kernaddr_response = Some (Mapper.KERNEL_BASE, 0x400000), fb_response = 0xffff800000300000, kernel_file_response = Some 0,
     rsdp_response = Some 0xffff8000000f0000\<rparr>, image := ex_image\<rparr>"

definition ex_loaded :: acpi_state where
  "ex_loaded = ex_boot\<lparr>frames := (\<lambda>k. k = 0), latest_frame := 0, symbol_table := []\<rparr>"

lemma table_path_block: "drop_bit 21 v = drop_bit 21 w \<Longrightarrow> table_path v = table_path w"
proof -
  assume eq: "drop_bit 21 v = drop_bit 21 w"
  have "bit v k = bit w k" if "21 \<le> k" for k
    using arg_cong [OF eq, of "\<lambda>x. bit x (k - 21)"] that by (simp add: bit_drop_bit_eq)
  then show ?thesis by (simp add: table_path_def pml_index_eq)
qed

lemma ex_requests:
  assumes "(p, v, f) \<in> set (memory_requests HHDM_BASE ex_entries @ kernel_requests ex_linker 0x400000 Mapper.KERNEL_BASE)"
  shows "table_path v = table_path HHDM_BASE \<or> table_path v = table_path Mapper.KERNEL_BASE"
proof -
  have hi: "drop_bit 21 (0xffff800000100000 + of_nat k * FRAME_SIZE :: u64) = drop_bit 21 HHDM_BASE" if "k < 64" for k
  proof -
    have "unat (0xffff800000100000 + of_nat k * FRAME_SIZE :: u64) = unat (0xffff800000100000 :: u64) + 4096 * k"
      using that by (simp add: unat_word_ariths unsigned_of_nat take_bit_nat_eq_self)
    moreover have "(unat (0xffff800000100000 :: u64) + 4096 * k) div 2 ^ 21 = unat HHDM_BASE div 2 ^ 21" using that by simp
    ultimately show ?thesis by (simp add: word_unat_eq_iff drop_bit_eq_div unat_div)
  qed
  from assms consider k where "k < 64" "v = 0xffff800000100000 + of_nat k * FRAME_SIZE"
    | "v \<in> {Mapper.KERNEL_BASE, 0xffffffff80001000, 0xffffffff80002000}"
    by (auto simp: memory_requests_def type_requests_def entry_requests_def ex_entries_def kernel_requests_def
        ex_linker_sections section_requests_def for_range_def)
  then show ?thesis
  proof cases
    case 1
    then show ?thesis using table_path_block [OF hi] by simp
  next
    case 2
    then have "drop_bit 21 v = drop_bit 21 Mapper.KERNEL_BASE" by auto
    then show ?thesis using table_path_block by blast
  qed
qed

lemma ex_core_tables: "card (core_tables ex_linker Mapper.KERNEL_BASE 0x400000 ex_entries) \<le> 6"
proof -
  have sub: "core_tables ex_linker Mapper.KERNEL_BASE 0x400000 ex_entries \<subseteq> table_paths HHDM_BASE \<union> table_paths Mapper.KERNEL_BASE"
    using ex_requests by (fastforce simp: core_tables_def table_paths_def)
  have "card (table_paths HHDM_BASE \<union> table_paths Mapper.KERNEL_BASE) \<le> card (table_paths HHDM_BASE) + card (table_paths Mapper.KERNEL_BASE)"
    by (rule card_Un_le)
  moreover have "card (table_paths HHDM_BASE) \<le> 3" "card (table_paths Mapper.KERNEL_BASE) \<le> 3"
    using card_table_paths(2) [of _ "{}"] by simp_all
  moreover have "card (core_tables ex_linker Mapper.KERNEL_BASE 0x400000 ex_entries) \<le> card (table_paths HHDM_BASE \<union> table_paths Mapper.KERNEL_BASE)"
    using sub by (intro card_mono) (simp_all add: card_table_paths)
  ultimately show ?thesis by simp
qed

theorem setup_core_returns_witness:
  "\<exists>s' e. setup_core ex_core ex_loaded = Some (Inr s') \<and> bit (cr0 s') 31 \<and> gate_target (idt s' 14) = 0xffffffff800000e0 \<and>
     resolve_address 0xffffffff80001000 s' = (e, True)"
proof -
  have q: "fb_quiet ex_core" "echo ex_core = 0xAE" by (simp_all add: ex_core_def ex_B_def fb_quiet_def)
  have sel: "syms ex_core = ex_syms" "linker ex_core = ex_linker" "image ex_core = ex_image" by (simp_all add: ex_core_def ex_B_def)
  have r: "responses ex_core = \<lparr>info_response = Some (''Limine'', ''8''), memmap_response = Some ex_entries,
     hhdm_response = Some HHDM_BASE, kernaddr_response = Some (Mapper.KERNEL_BASE, 0x400000), fb_response = 0xffff800000300000, kernel_file_response = Some 0,
     rsdp_response = Some 0xffff8000000f0000\<rparr>" by (simp add: ex_core_def)
  have mm: "exchange_outer memmap_swap 0 ex_entries = hd ex_entries # hd (tl ex_entries) # []"
    by (simp add: ex_entries_def exchange_outer.simps exchange_inner.simps memmap_swap_def)
  have a: "region_ok (hd ex_entries)" by (simp add: ex_entries_def region_ok_def entry_ok_def)
  have ld: "loaded (syms ex_core) ex_loaded" by (simp add: sel loaded_def ex_loaded_def) (simp add: ex_chain)
  have rc: "rest_clear (hd ex_entries) (hd (tl ex_entries)) ex_loaded" by (auto simp: rest_clear_def ex_loaded_def ex_entries_def)
  have "bit (isr_at ex_syms i) 63" for i by (simp add: ex_syms_def bit_simps)
  then have nz: "isr_at ex_syms i \<noteq> 0" for i by (metis bit_0_eq bot_apply bot_bool_def)
  then have isr: "\<forall>i. i < 32 \<or> i = 0xF0 \<or> i = 0xFF \<longrightarrow> isr_at (syms ex_core) i \<noteq> 0" by (simp add: sel)
  have es: "[hd ex_entries, hd (tl ex_entries)] = ex_entries" by (simp add: ex_entries_def)
  have fs: "func_syms ex_image (symtab ex_image) = tl (symtab ex_image)" by (simp add: func_syms_def ex_image_def)
  have len: "length (tl (symtab ex_image)) = 2" "unat (me_length (hd ex_entries)) div 4096 = 64" by (simp_all add: ex_image_def ex_entries_def)
  obtain s' where s': "setup_core ex_core ex_loaded = Some (Inr s')" "bit (cr0 s') 31"
      and g: "\<forall>i. i < 32 \<or> i = 0xF0 \<or> i = 0xFF \<longrightarrow> gate_target (idt s' i) = isr_at ex_syms i"
      and f: "\<forall>y \<in> set (tl (symtab ex_image)). \<exists>e. resolve_address (st_value y) s' = (e, True) \<and> e_address (mem s') e = st_value y"
    using setup_core_returns [OF q r _ mm a ld rc isr, unfolded sel fs es len MAX_SYMBOLS_def] ex_core_tables by auto
  obtain e where "resolve_address 0xffffffff80001000 s' = (e, True)" using f by (auto simp: ex_image_def)
  moreover have "gate_target (idt s' 14) = 0xffffffff800000e0" using g by (simp add: ex_syms_def)
  ultimately show ?thesis using s' by blast
qed

end
