(* ===== verification/Font_Converter.thy ===== *)
theory Font_Converter
  imports Prelude
begin

text \<open>
  The font converter of the build, \<open>misc/f16toc.c\<close>: it reads a font of 256 glyphs of 16 bytes and prints
  a C source file with the bytes in an array. The file system is a parameter, the contents of the file of a
  given name or nothing when it cannot be opened, and so is the reason \<open>perror\<close> gives. The result is the exit
  code with the text on the standard output and on the standard error.
\<close>

section \<open>The program\<close>

definition FONT_SIZE :: nat where "FONT_SIZE = 4096"

definition newline :: char where "newline = CHR 0x0A"

definition hex_digit :: "nat \<Rightarrow> char" where
  "hex_digit k = ''0123456789abcdef'' ! k"

text \<open>The conversions \<open>%02x\<close>, of a byte, and \<open>%zu\<close>.\<close>

definition print_02x :: "u8 \<Rightarrow> string" where
  "print_02x b = [hex_digit (unat b div 16), hex_digit (unat b mod 16)]"

fun print_zu :: "nat \<Rightarrow> string" where
  "print_zu k = (if k < 10 then [hex_digit k] else print_zu (k div 10) @ [hex_digit (k mod 10)])"

text \<open>One round of the loop, for byte number \<open>i\<close>, and the loop from there on.\<close>

definition print_byte :: "nat \<Rightarrow> u8 \<Rightarrow> string" where
  "print_byte i b =
     (if i mod 12 = 0 then ''  '' else []) @ ''0x'' @ print_02x b @
     (if i + 1 < FONT_SIZE then '', '' else '' '') @ (if (i + 1) mod 12 = 0 then [newline] else [])"

primrec print_bytes :: "nat \<Rightarrow> u8 list \<Rightarrow> string" where
  "print_bytes i [] = []"
| "print_bytes i (b # bs) = print_byte i b @ print_bytes (i + 1) bs"

definition source_head :: string where
  "source_head = ''#include <klib/types.h>'' @ [newline] @ ''extern '' @ [CHR 0x22, CHR ''C'', CHR 0x22] @
     '' const u8 tty_font[] = {'' @ [newline]"

text \<open>The arguments of the program are its name and those after it.\<close>

definition f16toc :: "(string \<Rightarrow> u8 list option) \<Rightarrow> string \<Rightarrow> string \<Rightarrow> string list \<Rightarrow> int \<times> string \<times> string" where
  "f16toc fopen reason prog args =
     (case args of [] \<Rightarrow> (1, [], ''Usage: '' @ prog @ '' font.F16 > tty_font.cc'' @ [newline])
      | filename # _ \<Rightarrow> case fopen filename of
        None \<Rightarrow> (1, [], ''Failed to open font file: '' @ reason @ [newline])
      | Some contents \<Rightarrow>
          (let font = take FONT_SIZE contents; n = length font in
           if n \<noteq> FONT_SIZE then (1, [], ''Error: expected 4096 bytes, read '' @ print_zu n @ [newline])
           else (0, source_head @ print_bytes 0 font @ (if FONT_SIZE mod 12 \<noteq> 0 then [newline] else []) @ ''};'' @ [newline], [])))"

section \<open>Reading the array back\<close>

text \<open>
  The bytes a compiler takes from the source: elements of two hexadecimal digits after \<open>0x\<close>, a comma between
  two elements, white space anywhere between tokens, the closing brace after the last one.
\<close>

definition hex_value :: "char \<Rightarrow> nat option" where
  "hex_value c =
     (let k = of_char c :: nat in
      if 48 \<le> k \<and> k \<le> 57 then Some (k - 48) else if 97 \<le> k \<and> k \<le> 102 then Some (k - 87) else None)"

definition space :: "char \<Rightarrow> bool" where
  "space c \<longleftrightarrow> c = CHR 0x20 \<or> c = newline"

fun read_item :: "string \<Rightarrow> u8 list option" and read_sep :: "string \<Rightarrow> u8 list option" where
  "read_item [] = None"
| "read_item (c # xs) =
     (if space c then read_item xs
      else case xs of
        x # h # l # rest \<Rightarrow>
          (case (hex_value h, hex_value l) of
             (Some a, Some b) \<Rightarrow>
               if c = CHR ''0'' \<and> x = CHR ''x'' then map_option ((#) (of_nat (16 * a + b))) (read_sep rest) else None
           | _ \<Rightarrow> None)
      | _ \<Rightarrow> None)"
| "read_sep [] = None"
| "read_sep (c # xs) =
     (if space c then read_sep xs
      else if c = CHR '','' then read_item xs
      else if c = CHR ''}'' \<and> xs = '';'' @ [newline] then Some []
      else None)"

definition read_source :: "string \<Rightarrow> u8 list option" where
  "read_source out =
     (if take (length source_head) out = source_head then read_item (drop (length source_head) out) else None)"

lemma hex_value_digit:
  assumes "k < 16"
  shows "hex_value (hex_digit k) = Some k" and "\<not> space (hex_digit k)"
proof -
  have "\<forall>k \<in> set [0..<16]. hex_value (hex_digit k) = Some k \<and> \<not> space (hex_digit k)" by code_simp
  then show "hex_value (hex_digit k) = Some k" and "\<not> space (hex_digit k)" using assms by simp_all
qed

lemma hex_bytes: "of_nat (16 * (unat b div 16) + unat b mod 16) = (b :: u8)"
  by (simp del: of_nat_add of_nat_mult)

lemma read_print_02x:
  "read_item (''0x'' @ print_02x b @ rest) = map_option ((#) b) (read_sep rest)"
proof -
  have "unat b < 256" using unsigned_less [of b, where 'a = nat] by simp
  then have "unat b div 16 < 16" by simp
  then show ?thesis using hex_value_digit [of "unat b div 16"] hex_value_digit [of "unat b mod 16"] hex_bytes [of b]
    by (simp add: print_02x_def space_def newline_def del: of_nat_add of_nat_mult)
qed

lemma read_layout [simp]: "read_item (newline # xs) = read_item xs" "read_item (CHR 0x20 # xs) = read_item xs"
    "read_sep (newline # xs) = read_sep xs" "read_sep (CHR 0x20 # xs) = read_sep xs" "read_sep (CHR '','' # xs) = read_item xs"
  by (simp_all add: space_def newline_def)

lemma read_bytes:
  assumes "read_sep rest = Some []"
  shows "bs \<noteq> [] \<Longrightarrow> i + length bs = FONT_SIZE \<Longrightarrow> read_item (print_bytes i bs @ rest) = Some bs"
proof (induction bs arbitrary: i)
  case (Cons b bs)
  let ?rest = "(if i + 1 < FONT_SIZE then '', '' else '' '') @ (if (i + 1) mod 12 = 0 then [newline] else []) @
    print_bytes (i + 1) bs @ rest"
  have "read_item (print_bytes i (b # bs) @ rest) = read_item (''0x'' @ print_02x b @ ?rest)"
    by (simp add: print_byte_def del: read_item.simps(2))
  also have "\<dots> = map_option ((#) b) (read_sep ?rest)" by (rule read_print_02x)
  also have "read_sep ?rest = Some bs"
  proof (cases "bs = []")
    case True
    then show ?thesis using Cons.prems assms by (simp del: read_sep.simps(2))
  next
    case False
    then have "i + 1 < FONT_SIZE" using Cons.prems by (cases bs) auto
    moreover have "read_item (print_bytes (i + 1) bs @ rest) = Some bs" using Cons.IH [of "i + 1"] Cons.prems False by simp
    ultimately show ?thesis by (simp del: read_item.simps(2) read_sep.simps(2))
  qed
  finally show ?case by simp
qed simp

text \<open>
  (C40) The converter on a file of at least 4096 bytes exits with 0 and prints a source file from which a
  compiler reads back exactly the first 4096 bytes of the file; nothing goes to the standard error. With a
  shorter file it exits with 1, prints no source at all and reports how many bytes it has read.
\<close>

theorem f16toc_roundtrip:
  assumes "fopen name = Some contents"
  shows "if FONT_SIZE \<le> length contents
     then \<exists>out. f16toc fopen reason prog [name] = (0, out, []) \<and> read_source out = Some (take FONT_SIZE contents)
     else f16toc fopen reason prog [name] =
       (1, [], ''Error: expected 4096 bytes, read '' @ print_zu (length contents) @ [newline])"
proof (cases "FONT_SIZE \<le> length contents")
  case True
  let ?font = "take FONT_SIZE contents"
  have font: "length ?font = FONT_SIZE" "?font \<noteq> []" using True by (auto simp: FONT_SIZE_def)
  let ?close = "(if FONT_SIZE mod 12 \<noteq> 0 then [newline] else []) @ ''};'' @ [newline]"
  have "read_sep (''};'' @ [newline]) = Some []" by (simp add: space_def newline_def)
  then have "read_sep ?close = Some []" by (simp del: read_sep.simps(2))
  from read_bytes [OF this font(2), of 0] font(1) have "read_item (print_bytes 0 ?font @ ?close) = Some ?font" by simp
  then have "read_source (source_head @ print_bytes 0 ?font @ ?close) = Some ?font" by (simp add: read_source_def)
  then show ?thesis using True assms font by (simp add: f16toc_def Let_def)
next
  case False
  then show ?thesis using assms by (simp add: f16toc_def Let_def)
qed

theorem f16toc_roundtrip_witness:
  "\<exists>out. f16toc (\<lambda>_. Some (replicate 4096 0x18)) [] ''f16toc'' [''vga.F16''] = (0, out, []) \<and>
     read_source out = Some (replicate 4096 0x18)"
  using f16toc_roundtrip [of "\<lambda>_. Some (replicate 4096 0x18)" "''vga.F16''" "replicate 4096 0x18" "[]" "''f16toc''"]
  by (simp add: FONT_SIZE_def)

end
