(* ===== verification/Spec2Isabelle.thy ===== *)
theory Spec2Isabelle
  imports Lifecycle Startup Font_Converter
begin

text \<open>
  A verification library for the SlayerOS kernel, an x86-64 kernel in C++. File names below are relative to
  \<open>src/src\<close> of the repository.

  \<^bold>\<open>The program.\<close> The bootloader hands over a memory map and a few addresses; \<open>kernel/kern.cc\<close> copies them, sets up
  the descriptor tables, the frame allocator, the interrupt stacks, the interrupt table, the page tables, the symbol
  table, the ACPI library, the interrupt controllers and the clock, and starts the scheduler. Afterwards everything
  happens in handlers of interrupts, in tasks, and in services called by the ACPI library. Underneath lie
  one memory and three allocators on top of each other: frames, heap pages made of frames, heap blocks.

  \<^bold>\<open>State.\<close> Memory is a function from 64 bit addresses to bytes; a C struct in it is read and written at the offsets of
  its fields, so aliasing and overlap are as in the code. The globals of a source file are the fields of a record
  that extends the record of the component below it: \<open>boot_state\<close>, \<open>frame_state\<close>, \<open>paging_state\<close>, \<open>heap_state\<close>,
  \<open>task_state\<close>, \<open>desc_state\<close>, \<open>timer_state\<close>, \<open>lapic_state\<close>, \<open>ioapic_state\<close>, \<open>symbol_state\<close>, \<open>irq_state\<close>, \<open>acpi_state\<close>.
  Each operation is a function on the extensible record of its component, so a component is used on the state of
  the whole kernel without conversion. Processor registers and the translation buffer are fields too; device registers
  are functions from addresses to words, port output is a list. Integers have the widths of the code.

  \<^bold>\<open>Results.\<close> An operation that can fault returns a sum with a \<open>fault\<close> on the left (null pointer, access out of bounds,
  division by zero, halt, endless loop); one that may not return gives an option, \<open>None\<close> when it does not. Loops are
  recursive functions with a termination proof, or \<open>partial_function\<close> where the data can make them endless (heap and
  task lists, the firmware table, instruction scans), and theorems prove that they return. The only fuel is in
  the demangler, one round per character of the symbol and one more: every round moves past a character
  (\<open>demangle_returns\<close>). The count arguments of \<open>backtrace_loop\<close> and \<open>list_instructions\<close> are the bounds 16 and 7 of the code.

  \<^bold>\<open>Theories.\<close>
  \<^item> \<open>Prelude\<close>: memory, faults, loops, the lemmas on words and reads after writes that the others share, the locale of
    step relations with an invariant. \<open>Exchange_Sort\<close>: the two nested loops that sort the memory map and the symbol
    table, with the locale of the conditions they sort by.
  \<^item> \<open>Bootloader\<close> (\<open>kernel/bootloader/limine.cc\<close>): the boot context; \<open>gather\<close> copies every response and
    leaves a permutation of the memory map, the usable regions first.
  \<^item> \<open>Frames\<close> (\<open>kernel/mem/frames/frames.cc\<close>): allocation returns a fresh cleared frame or null, freeing is undone by the next
    allocation; runs of several frames overlap by a frame, and above 4 GiB frames alias. The contract clients
    use is the locale \<open>page_frames\<close>.
  \<^item> \<open>Paging\<close> (\<open>kernel/mem/paging/paging.cc\<close>): the four levels of tables in memory refine a map from pages to entries, the
    translation buffer never holds a stale entry; the locale \<open>virtual_memory\<close> carries ranges and devices, and counts the
    frames that new tables take, each once.
    \<open>Mapper\<close> (\<open>kernel/mem/map/mapper.cc\<close>): the initial address space.
  \<^item> \<open>Heap\<close> and \<open>Kmalloc\<close> (\<open>kernel/mem/heap/heap.cc\<close>): pages and segments as lists in memory; as long as a fitting free
    segment or a run of free frames at the allocator's position is there, blocks are disjoint and keep their contents; \<open>kfree\<close> works on
    the first page only; a second heap page of several frames overlaps the first. Locale \<open>block_heap\<close>,
    extended by \<open>block_heap_many\<close> for clients of many blocks and by \<open>block_heap_free\<close> in \<open>Processes\<close>.
  \<^item> \<open>Tasks\<close> and \<open>Processes\<close> (\<open>kernel/task/scheduler.cc\<close>): the ring of tasks in memory, the round robin, the two ways in
    which a terminated task at the head or in control goes wrong, and the scheduler on top of the heap: making a task takes
    exactly two blocks, reaping one frees exactly those of its two that are in the first heap page. \<open>Lifecycle\<close>: after any sequence of
    calls, tasks being made only where the heap has room for them (\<open>spawn_heap\<close>), every call returns, and the ring is kept.
  \<^item> \<open>Descriptors\<close> (\<open>kernel/cpu/gdt\<close>, \<open>kernel/cpu/tss\<close>, \<open>kernel/cpu/interrupts/idt.cc\<close>), \<open>Timers\<close> (\<open>pit.cc\<close>, \<open>pic.cc\<close>,
    \<open>kernel/sys/timer.cc\<close>), \<open>Lapic\<close> (\<open>kernel/cpu/lapic\<close>), \<open>Ioapic\<close> (\<open>kernel/sys/ioapic.cc\<close>): tables and registers read back
    as meant, sleeping ends with the right interrupt, the timer's divider is the smallest that works. \<open>Devices\<close>: the firmware table
    is read to its end, both controllers are mapped, and \<open>IRQ::init\<close> routes the timer's line to vector 32.
  \<^item> \<open>Symbols\<close>, \<open>Demangle\<close>, \<open>Backtrace\<close> (\<open>kernel/err\<close>): the symbol table as a client of the heap and the
    nearest symbol, the demangled name, the listing around a crash.
  \<^item> \<open>Acpi_Kapi\<close> (\<open>kernel/sys/acpi_kapi.cc\<close>, \<open>acpi.cc\<close>): the services of the ACPI library; the table of interrupt handlers
    refines a map from numbers to handlers.
  \<^item> \<open>Interrupts\<close> (\<open>irq.cc\<close>, \<open>handler.cc\<close>): delivery of interrupt requests in every reachable state, the report of an exception.
  \<^item> \<open>Console\<close> (\<open>kernel/dbg/logger/log.cc\<close>, \<open>kernel/arch\<close>): the log on the serial line, processor features.
  \<^item> \<open>Font_Converter\<close> (\<open>src/misc/f16toc.c\<close> of the repository, a program of the build host): the array it prints reads back as the font.
  \<^item> \<open>Boot\<close> (\<open>kernel/kern.cc\<close>): the sequence of the boot; its device part, on a table of the firmware as \<open>madt_ok\<close>
    describes it, returns after exactly 600 timer interrupts with the timer's line routed. \<open>Startup\<close>: its
    first part returns with paging on, the gates loaded, the allocators in order and the symbols resolved.

  \<^bold>\<open>Parameters.\<close> The kernel library, the drivers, the bootloader's header, the ACPI library and the instruction decoder
  are git submodules and not part of the repository. What the kernel takes from them is an argument of the
  definitions that use it: \<open>atoi\<close>, formatted text, the parsed kernel image and its debug information, the decoder, the lock,
  the port and configuration space drivers, the terminal and the framebuffer, the layout of the firmware table, the handlers of
  the ACPI library. The linker's addresses, the values that devices return and the interrupts to come are arguments as well.

  \<^bold>\<open>Findings.\<close> Several theorems state what the code does where it differs from what it means to do; their text says so:
  overlapping runs of frames and heap pages and interrupt stacks, the lost free of later heap pages, the two
  scheduler cases, the handler that faults on vectors without a message, the symbol read past its end, the listing that ends
  before the crash, the page offset in the flags of an ACPI mapping, the log buffer.

  \<^bold>\<open>Not modelled.\<close> The assembly stubs that save and restore registers (\<open>isr.s\<close>, \<open>macros.s\<close>, \<open>switch.s\<close>): a frame is an argument
  and a switch to a task is the address called. Interrupts that arrive while a function runs, other than in the loops
  that wait for them. The decoration of printed reports.

  \<^bold>\<open>Limits of the model.\<close> The frame bitmap is a function beside the memory and not bytes of it, so a bitmap longer than its
  region overruns nothing. In the loops that wait, a timer interrupt of the list of events runs \<open>Timer_Handle\<close>; that such an interrupt gets
  there, through the redirection entry, the gate and the dispatcher, is stated of the state after the boot. A \<open>hlt\<close> after an error
  ends the execution (\<open>Halted\<close>), though an interrupt could wake the processor. The processor's walk starts at
  \<open>pml4\<close>, which \<open>Paging::init\<close> loads into \<open>cr3\<close>, and knows no large pages, as the kernel makes none. A read through a null pointer
  faults, also inside the kernel library's \<open>strlen\<close>; a fault inside the exception handler drops the lines already printed.
\<close>

end
